(* ===== verification/Prelude.thy ===== *)
theory Prelude
  imports Main "HOL-Library.Word" "HOL-Library.Monad_Syntax"
begin

text \<open>
  Shared vocabulary of the development: the machine types of the C sources, the status codes of
  \<^verbatim>\<open>include/r_client.h\<close>, checked memory accesses, and the generic facts about bytes, words, lists
  and options on which the component theories rest.

  Every access to a C object goes through a checked primitive of type \<open>'a option\<close>, where \<open>None\<close>
  stands for undefined behaviour (an access outside the object, a use of a freed object, a
  division by zero).  A C status code is an ordinary value: a function that returns a status and,
  on success, some outputs has the type \<open>'a ret\<close>, where \<open>Some (Inl e)\<close> is the early return of the
  error code \<open>e\<close> and \<open>Some (Inr x)\<close> is a return of \<open>RCLIENT_OK\<close> with outputs \<open>x\<close>.
\<close>

unbundle bit_operations_syntax

subsection \<open>Machine types and status codes\<close>

type_synonym byte = "8 word"
type_synonym u16 = "16 word"
type_synonym u32 = "32 word"
type_synonym u64 = "64 word"

datatype r_client_error =
    RCLIENT_OK
  | RCLIENT_ERR_IO
  | RCLIENT_ERR_TIMEOUT
  | RCLIENT_ERR_PROTOCOL
  | RCLIENT_ERR_AUTH
  | RCLIENT_ERR_DNS
  | RCLIENT_ERR_CONFIG
  | RCLIENT_ERR_NOMEM

fun r_client_error_code :: "r_client_error \<Rightarrow> int" where
  "r_client_error_code RCLIENT_OK = 0"
| "r_client_error_code RCLIENT_ERR_IO = -1"
| "r_client_error_code RCLIENT_ERR_TIMEOUT = -2"
| "r_client_error_code RCLIENT_ERR_PROTOCOL = -3"
| "r_client_error_code RCLIENT_ERR_AUTH = -4"
| "r_client_error_code RCLIENT_ERR_DNS = -5"
| "r_client_error_code RCLIENT_ERR_CONFIG = -6"
| "r_client_error_code RCLIENT_ERR_NOMEM = -7"

type_synonym 'a ret = "(r_client_error + 'a) option"

definition UINT16_MAX :: nat where "UINT16_MAX = 0xffff"
definition UINT32_MAX :: u32 where "UINT32_MAX = 0xffffffff"
definition UINT64_MAX :: u64 where "UINT64_MAX = 0xffffffffffffffff"

lemma UINT32_MAX_max: "UINT32_MAX = - 1"
  by (simp add: UINT32_MAX_def)

lemma UINT64_MAX_max: "UINT64_MAX = - 1"
  by (simp add: UINT64_MAX_def)

subsection \<open>Checked memory accesses\<close>

named_theorems mem_simps \<open>evaluation of checked accesses that are in bounds\<close>

definition rd8 :: "byte list \<Rightarrow> nat \<Rightarrow> byte option" where
  "rd8 b i = (if i < length b then Some (b ! i) else None)"

definition rd_bytes :: "byte list \<Rightarrow> nat \<Rightarrow> nat \<Rightarrow> byte list option" where
  "rd_bytes b i n = (if i + n \<le> length b then Some (take n (drop i b)) else None)"

definition wr_bytes :: "byte list \<Rightarrow> nat \<Rightarrow> byte list \<Rightarrow> byte list option" where
  "wr_bytes b i xs =
     (if i + length xs \<le> length b then Some (take i b @ xs @ drop (i + length xs) b) else None)"

abbreviation wr8 :: "byte list \<Rightarrow> nat \<Rightarrow> byte \<Rightarrow> byte list option" where
  "wr8 b i x \<equiv> wr_bytes b i [x]"

lemma rd8_Some [mem_simps]: "i < length b \<Longrightarrow> rd8 b i = Some (b ! i)"
  by (simp add: rd8_def)

lemma rd8_eq_Some_iff: "rd8 b i = Some x \<longleftrightarrow> i < length b \<and> b ! i = x"
  by (auto simp: rd8_def)

lemma rd_bytes_Some [mem_simps]: "i + n \<le> length b \<Longrightarrow> rd_bytes b i n = Some (take n (drop i b))"
  by (simp add: rd_bytes_def)

lemma rd_bytes_len: "rd_bytes b i n = Some xs \<Longrightarrow> length xs = n"
  by (auto simp: rd_bytes_def split: if_splits)

lemma wr_bytes_Nil: "i \<le> length b \<Longrightarrow> wr_bytes b i [] = Some b"
  by (simp add: wr_bytes_def)

lemma wr_bytes_eq_None_iff: "wr_bytes b i xs = None \<longleftrightarrow> length b < i + length xs"
  by (auto simp: wr_bytes_def)

lemma wr_bytes_length: "wr_bytes b i xs = Some b' \<Longrightarrow> length b' = length b"
  by (auto simp: wr_bytes_def split: if_splits)

text \<open>Two writes next to each other are one write of the concatenation.\<close>

lemma wr_bytes_append:
  "(wr_bytes b i xs \<bind> (\<lambda>b'. wr_bytes b' (i + length xs) ys)) = wr_bytes b i (xs @ ys)"
proof (cases "i + length xs \<le> length b")
  case True
  let ?b' = "take i b @ xs @ drop (i + length xs) b"
  have len: "length ?b' = length b" using True by simp
  have t: "take (i + length xs) ?b' = take i b @ xs" using True by simp
  have d: "drop (i + length xs + length ys) ?b' = drop (i + length xs + length ys) b"
    using True by (simp add: drop_drop ac_simps)
  show ?thesis using True len t d by (auto simp: wr_bytes_def ac_simps)
next
  case False
  then show ?thesis by (simp add: wr_bytes_def)
qed

lemma wr_bytes_seq:
  "j = i + length xs \<Longrightarrow>
     (wr_bytes b i xs \<bind> (\<lambda>b'. wr_bytes b' j ys \<bind> k)) = (wr_bytes b i (xs @ ys) \<bind> k)"
  by (simp add: wr_bytes_append [symmetric] bind_assoc)

lemma wr_bytes_seq_last:
  "j = i + length xs \<Longrightarrow>
     (wr_bytes b i xs \<bind> (\<lambda>b'. wr_bytes b' j ys)) = wr_bytes b i (xs @ ys)"
  by (simp add: wr_bytes_append)

lemma take_wr_bytes_0:
  "wr_bytes b 0 xs = Some b' \<Longrightarrow> n = length xs \<Longrightarrow> take n b' = xs"
  by (auto simp: wr_bytes_def split: if_splits)

lemma wr_bytes_prefix:
  "wr_bytes b i xs = Some b' \<Longrightarrow> take (i + length xs) b' = take i b @ xs"
  by (auto simp: wr_bytes_def split: if_splits)

subsection \<open>C strings\<close>

text \<open>
  A pointer to characters is the byte list of the object without its final NUL; \<open>strlen\<close> stops at
  the first NUL.  \<open>cstr\<close> embeds an ASCII literal.
\<close>

definition cstr :: "string \<Rightarrow> byte list" where
  "cstr s = map of_char s"

definition strlen :: "byte list \<Rightarrow> nat" where
  "strlen s = length (takeWhile (\<lambda>c. c \<noteq> 0) s)"

definition c_string :: "byte list \<Rightarrow> byte list" where
  "c_string s = takeWhile (\<lambda>c. c \<noteq> 0) s"

definition strcmp_eq :: "byte list \<Rightarrow> byte list \<Rightarrow> bool" where
  "strcmp_eq a b \<longleftrightarrow> c_string a = c_string b"

text \<open>\<open>p[0] != '\0'\<close> on a possibly null pointer that was tested first.\<close>

definition nonempty_str :: "byte list option \<Rightarrow> bool" where
  "nonempty_str p = (case p of None \<Rightarrow> False | Some s \<Rightarrow> strlen s > 0)"

lemma strlen_le: "strlen s \<le> length s"
  by (simp add: strlen_def length_takeWhile_le)

lemma c_string_take: "c_string s = take (strlen s) s"
  unfolding c_string_def strlen_def by (rule takeWhile_eq_take)

lemma c_string_no_nul: "0 \<notin> set s \<Longrightarrow> c_string s = s"
  unfolding c_string_def by (rule takeWhile_eq_all_conv [THEN iffD2]) auto

lemma strlen_no_nul: "0 \<notin> set s \<Longrightarrow> strlen s = length s"
  unfolding strlen_def using c_string_no_nul [of s, unfolded c_string_def] by (rule arg_cong)

subsection \<open>Little-endian integers\<close>

primrec le_bytes :: "nat \<Rightarrow> 'a::len word \<Rightarrow> byte list" where
  "le_bytes 0 v = []"
| "le_bytes (Suc n) v = ucast v # le_bytes n (drop_bit 8 v)"

primrec le_word :: "byte list \<Rightarrow> 'a::len word" where
  "le_word [] = 0"
| "le_word (b # bs) = (ucast b OR push_bit 8 (le_word bs))"

lemma length_le_bytes [simp]: "length (le_bytes n v) = n"
  by (induction n arbitrary: v) auto

lemma bit_le_word:
  "bit (le_word bs :: 'a::len word) i \<longleftrightarrow>
     i < LENGTH('a) \<and> i div 8 < length bs \<and> bit (bs ! (i div 8)) (i mod 8)"
proof (induction bs arbitrary: i)
  case Nil
  then show ?case by simp
next
  case (Cons b bs)
  show ?case
  proof (cases "i < 8")
    case True
    then show ?thesis by (auto simp: bit_simps)
  next
    case False
    then have "i div 8 = Suc ((i - 8) div 8)" "i mod 8 = (i - 8) mod 8"
      by (simp_all add: le_div_geq le_mod_geq)
    moreover have "\<not> bit b i"
      using False bit_imp_le_length [of b i] by auto
    ultimately show ?thesis
      using False Cons.IH [of "i - 8"] by (auto simp: bit_simps)
  qed
qed

lemma nth_le_bytes: "k < n \<Longrightarrow> le_bytes n v ! k = ucast (drop_bit (8 * k) v)"
proof (induction n arbitrary: k v)
  case 0
  then show ?case by simp
next
  case (Suc n)
  then show ?case by (cases k) (simp_all add: drop_bit_drop_bit ac_simps)
qed

lemma le_word_le_bytes:
  fixes v :: "'a::len word"
  assumes "LENGTH('a) \<le> 8 * n"
  shows "le_word (le_bytes n v) = v"
proof (rule bit_word_eqI)
  fix i assume i: "i < LENGTH('a)"
  then have k: "i div 8 < n" using assms by auto
  have "bit (ucast (drop_bit (8 * (i div 8)) v) :: byte) (i mod 8) = bit v (8 * (i div 8) + i mod 8)"
    using i by (simp add: bit_simps)
  then show "bit (le_word (le_bytes n v) :: 'a word) i = bit v i"
    using i k by (simp add: bit_le_word nth_le_bytes)
qed

lemma le_bytes_le_word:
  assumes "length bs = n" "8 * n \<le> LENGTH('a)"
  shows "le_bytes n (le_word bs :: 'a::len word) = bs"
proof (rule nth_equalityI)
  show "length (le_bytes n (le_word bs :: 'a word)) = length bs" using assms by simp
next
  fix k assume "k < length (le_bytes n (le_word bs :: 'a word))"
  then have k: "k < n" by simp
  show "le_bytes n (le_word bs :: 'a word) ! k = bs ! k"
  proof (rule bit_word_eqI)
    fix i assume i: "i < LENGTH(8)"
    have "8 * k + i < LENGTH('a)" using k i assms(2) by simp
    moreover have "(8 * k + i) div 8 = k" "(8 * k + i) mod 8 = i" using i by simp_all
    ultimately show "bit (le_bytes n (le_word bs :: 'a word) ! k) i = bit (bs ! k) i"
      using k i assms(1) by (simp add: nth_le_bytes bit_simps bit_le_word)
  qed
qed

lemma mask_byte_ucast [simp]: "(ucast (v AND 0xff :: 'a::len word) :: byte) = ucast v"
proof -
  have m: "(0xff :: 'a::len word) = mask 8" by (simp add: mask_eq_exp_minus_1)
  show ?thesis unfolding m
    by (intro bit_word_eqI) (auto simp: bit_simps dest: bit_imp_le_length)
qed

end
