(* ===== verification/Codec.thy ===== *)
theory Codec
  imports Prelude
begin

text \<open>
  The interface of a fixed-width wire encoding: an encoder and a decoder that are inverse to each
  other on values of the right shape and on byte strings of the right length.  What a client of the
  interface needs is proved once here: a block at the front of a longer buffer decodes to itself,
  and an array of blocks decodes element by element.  The theory \<open>Protocol\<close> interprets it for the
  header and for the blocks of the wire format; \<open>Responder\<close> uses the same facts on the other side.
\<close>

locale codec =
  fixes width :: nat
    and valid :: "'v \<Rightarrow> bool"
    and enc :: "'v \<Rightarrow> byte list"
    and dec :: "byte list \<Rightarrow> 'v"
  assumes length_enc: "valid v \<Longrightarrow> length (enc v) = width"
    and dec_enc: "valid v \<Longrightarrow> dec (enc v) = v"
    and enc_dec: "length bs = width \<Longrightarrow> enc (dec bs) = bs"
    and valid_dec: "length bs = width \<Longrightarrow> valid (dec bs)"
begin

definition dec_at :: "byte list \<Rightarrow> nat \<Rightarrow> 'v" where
  "dec_at bs i = dec (take width (drop i bs))"

definition dec_array :: "nat \<Rightarrow> byte list \<Rightarrow> 'v list" where
  "dec_array n bs = map (\<lambda>k. dec_at bs (k * width)) [0..<n]"

definition enc_array :: "'v list \<Rightarrow> byte list" where
  "enc_array vs = concat (map enc vs)"

lemma length_enc_array: "list_all valid vs \<Longrightarrow> length (enc_array vs) = length vs * width"
  by (induction vs) (auto simp: enc_array_def length_enc)

lemma dec_at_front: "valid v \<Longrightarrow> dec_at (enc v @ rest) 0 = v"
  by (simp add: dec_at_def length_enc dec_enc)

lemma dec_at_skip: "valid v \<Longrightarrow> dec_at (enc v @ rest) (width + i) = dec_at rest i"
  by (simp add: dec_at_def length_enc)

lemma dec_array_Suc: "dec_array (Suc n) bs = dec_at bs 0 # dec_array n (drop width bs)"
  by (simp add: dec_array_def dec_at_def upt_conv_Cons map_Suc_upt [symmetric] ac_simps
      del: upt_Suc map_Suc_upt)

lemma dec_array_enc_array:
  "list_all valid vs \<Longrightarrow> dec_array (length vs) (enc_array vs @ rest) = vs"
proof (induction vs)
  case Nil
  show ?case by (simp add: dec_array_def)
next
  case (Cons v vs)
  have "drop width (enc_array (v # vs) @ rest) = enc_array vs @ rest"
    using Cons.prems by (simp add: enc_array_def length_enc)
  then show ?case
    using Cons by (simp add: dec_array_Suc enc_array_def dec_at_front)
qed

lemma enc_injective: "valid v \<Longrightarrow> valid w \<Longrightarrow> enc v = enc w \<Longrightarrow> v = w"
  by (metis dec_enc)

lemma enc_array_injective:
  "list_all valid vs \<Longrightarrow> list_all valid ws \<Longrightarrow> length vs = length ws \<Longrightarrow>
     enc_array vs = enc_array ws \<Longrightarrow> vs = ws"
  by (metis dec_array_enc_array)

text \<open>
  A loop that writes one block after the other, starting at \<open>pos\<close>, writes the encoded array: it
  is enough that it does nothing on the empty array and that one round writes one block.
\<close>

lemma write_array:
  assumes nil: "\<And>out pos. f [] out pos = Some (out, pos)"
    and step: "\<And>v vs out pos. valid (g v) \<Longrightarrow>
      f (v # vs) out pos = (wr_bytes out pos (enc (g v)) \<bind> (\<lambda>out. f vs out (pos + width)))"
  shows "list_all (\<lambda>v. valid (g v)) vs \<Longrightarrow> pos \<le> length out \<Longrightarrow>
    f vs out pos = map_option (\<lambda>b. (b, pos + length vs * width))
      (wr_bytes out pos (enc_array (map g vs)))"
proof (induction vs arbitrary: out pos)
  case Nil
  then show ?case by (simp add: nil enc_array_def wr_bytes_Nil)
next
  case (Cons v vs)
  have v: "valid (g v)" and vs: "list_all (\<lambda>v. valid (g v)) vs" using Cons.prems by simp_all
  have l: "length (enc (g v)) = width" using v by (rule length_enc)
  have split: "enc_array (map g (v # vs)) = enc (g v) @ enc_array (map g vs)"
    by (simp add: enc_array_def)
  show ?case
  proof (cases "wr_bytes out pos (enc (g v))")
    case None
    then have "wr_bytes out pos (enc_array (map g (v # vs))) = None"
      unfolding split by (auto simp: wr_bytes_eq_None_iff)
    then show ?thesis unfolding step [OF v] None by simp
  next
    case (Some b)
    have b: "length b = length out" using Some by (rule wr_bytes_length)
    have p: "pos + width \<le> length out"
      using Some l by (auto simp: wr_bytes_def split: if_splits)
    have "wr_bytes out pos (enc_array (map g (v # vs))) = wr_bytes b (pos + width) (enc_array (map g vs))"
      unfolding split by (simp add: wr_bytes_append [symmetric] Some l)
    then show ?thesis
      unfolding step [OF v] Some using Cons.IH [OF vs, of "pos + width" b] b p
      by (simp add: ac_simps)
  qed
qed

end

text \<open>The little-endian integers of the wire format.\<close>

interpretation le16: codec 2 "\<lambda>_. True" "le_bytes 2 :: u16 \<Rightarrow> byte list" le_word
  by unfold_locales (auto simp: le_word_le_bytes le_bytes_le_word)

interpretation le32: codec 4 "\<lambda>_. True" "le_bytes 4 :: u32 \<Rightarrow> byte list" le_word
  by unfold_locales (auto simp: le_word_le_bytes le_bytes_le_word)

interpretation le64: codec 8 "\<lambda>_. True" "le_bytes 8 :: u64 \<Rightarrow> byte list" le_word
  by unfold_locales (auto simp: le_word_le_bytes le_bytes_le_word)

end
