(* ===== verification/Protocol.thy ===== *)
theory Protocol
  imports Codec
begin

text \<open>
  The wire protocol, \<^verbatim>\<open>src/r_protocol.c\<close> and \<^verbatim>\<open>src/r_protocol.h\<close>: the tenant header, the
  authentication TLV, the request, report and response bodies and the PDU framing.  A buffer
  argument is the whole C object, a length argument is the number the caller passes; every read
  and write is checked.  The first part holds the definitions in the order of the C file, the
  second the facts: no access leaves its object, each builder writes exactly the bytes of a
  reference encoding, and the parsers invert it.
\<close>

subsection \<open>Constants and blocks of the wire format\<close>

definition R_TENANT_TLV_LEN :: nat where "R_TENANT_TLV_LEN = 40"
definition R_PDU_HEADER_LEN :: nat where "R_PDU_HEADER_LEN = 8"
definition R_MAX_PACKET_SIZE :: nat where "R_MAX_PACKET_SIZE = 1200"
definition R_GUARD_BLOCK_WIRE_LEN :: nat where "R_GUARD_BLOCK_WIRE_LEN = 36"
definition R_RESOURCE_BLOCK_WIRE_LEN :: nat where "R_RESOURCE_BLOCK_WIRE_LEN = 28"
definition R_SERVICE_LATENCY_BLOCK_WIRE_LEN :: nat where "R_SERVICE_LATENCY_BLOCK_WIRE_LEN = 32"

definition R_TLV_TENANT :: u16 where "R_TLV_TENANT = 0x4C52"
definition R_TLV_AUTH_COOKIE :: u16 where "R_TLV_AUTH_COOKIE = 0x4143"
definition R_TLV_AUTH_AES :: u16 where "R_TLV_AUTH_AES = 0x4541"
definition R_TLV_METRICS_LABEL :: u16 where "R_TLV_METRICS_LABEL = 0x4C4D"

definition R_PDU_RATE_REQUEST :: u16 where "R_PDU_RATE_REQUEST = 0x5452"
definition R_PDU_RATE_RESPONSE :: u16 where "R_PDU_RATE_RESPONSE = 0x5252"
definition R_PDU_LATENCY_REPORT :: u16 where "R_PDU_LATENCY_REPORT = 0x524C"

lemmas wire_lens =
  R_TENANT_TLV_LEN_def R_PDU_HEADER_LEN_def R_MAX_PACKET_SIZE_def R_GUARD_BLOCK_WIRE_LEN_def
  R_RESOURCE_BLOCK_WIRE_LEN_def R_SERVICE_LATENCY_BLOCK_WIRE_LEN_def

lemmas wire_tags =
  R_TLV_TENANT_def R_TLV_AUTH_COOKIE_def R_TLV_AUTH_AES_def R_TLV_METRICS_LABEL_def
  R_PDU_RATE_REQUEST_def R_PDU_RATE_RESPONSE_def R_PDU_LATENCY_REPORT_def

record r_tenant_header =
  tlv_type :: u16
  tlv_size :: u16
  key_id :: u64
  unique_id :: "byte list"
  time_stamp :: u64
  steering_feedback :: byte
  tenant_mgmt_flag :: byte
  padding :: "byte list"

record r_guard_block =
  gb_latency_tracker_id :: "byte list"
  gb_ttl_ms :: u32
  gb_max_samples :: u32
  gb_min_sample_threshold :: u32
  gb_latency_threshold :: u32
  gb_current_latency :: u32

record r_resource_block =
  rb_bucket_id :: "byte list"
  rb_window_size_ms :: u32
  rb_rate_limit :: u32
  rb_tokens_requested :: u16
  rb_padding :: u16

record r_service_latency_block =
  lb_latency_tracker_id :: "byte list"
  lb_ttl_ms :: u32
  lb_max_samples :: u32
  lb_min_sample_threshold :: u32
  lb_observed_latency :: u32

text \<open>The request inputs and response results of \<^verbatim>\<open>include/r_client.h\<close>.\<close>

record r_resource_request =
  bucket_id :: "byte list"
  window_size_ms :: u32
  rate_limit :: u32
  tokens_requested :: u16

record r_latency_guard =
  latency_tracker_id :: "byte list"
  threshold_ms :: u32
  ttl_ms :: u32
  max_samples :: u32
  min_sample_threshold :: u32

record r_service_latency_report =
  rep_latency_tracker_id :: "byte list"
  rep_observed_latency :: u32
  rep_ttl_ms :: u32
  rep_max_samples :: u32
  rep_min_sample_threshold :: u32

record r_guard_result =
  gr_latency_tracker_id :: "byte list"
  gr_threshold_ms :: u32
  gr_current_latency_ms :: u32
  passed :: bool

record r_resource_result =
  res_bucket_id :: "byte list"
  tokens_deficit :: u16
  actual_rate :: u32

text \<open>The 16-byte arrays of the C structures.\<close>

definition wf_resource :: "r_resource_request \<Rightarrow> bool" where
  "wf_resource r \<longleftrightarrow> length (bucket_id r) = 16"

definition wf_guard :: "r_latency_guard \<Rightarrow> bool" where
  "wf_guard g \<longleftrightarrow> length (latency_tracker_id g) = 16"

definition wf_report :: "r_service_latency_report \<Rightarrow> bool" where
  "wf_report r \<longleftrightarrow> length (rep_latency_tracker_id r) = 16"

definition wf_tenant :: "r_tenant_header \<Rightarrow> bool" where
  "wf_tenant h \<longleftrightarrow> length (unique_id h) = 16 \<and> length (padding h) = 2"

subsection \<open>Little-endian accessors\<close>

definition r_le16 :: "byte list \<Rightarrow> nat \<Rightarrow> u16 option" where
  "r_le16 p i = do {
     b0 \<leftarrow> rd8 p i;
     b1 \<leftarrow> rd8 p (i + 1);
     Some (ucast b0 OR push_bit 8 (ucast b1))
   }"

definition r_le32 :: "byte list \<Rightarrow> nat \<Rightarrow> u32 option" where
  "r_le32 p i = do {
     b0 \<leftarrow> rd8 p i;
     b1 \<leftarrow> rd8 p (i + 1);
     b2 \<leftarrow> rd8 p (i + 2);
     b3 \<leftarrow> rd8 p (i + 3);
     Some (ucast b0 OR push_bit 8 (ucast b1) OR push_bit 16 (ucast b2) OR push_bit 24 (ucast b3))
   }"

definition r_le64 :: "byte list \<Rightarrow> nat \<Rightarrow> u64 option" where
  "r_le64 p i = do {
     b0 \<leftarrow> rd8 p i;
     b1 \<leftarrow> rd8 p (i + 1);
     b2 \<leftarrow> rd8 p (i + 2);
     b3 \<leftarrow> rd8 p (i + 3);
     b4 \<leftarrow> rd8 p (i + 4);
     b5 \<leftarrow> rd8 p (i + 5);
     b6 \<leftarrow> rd8 p (i + 6);
     b7 \<leftarrow> rd8 p (i + 7);
     Some (ucast b0 OR push_bit 8 (ucast b1) OR push_bit 16 (ucast b2) OR push_bit 24 (ucast b3)
       OR push_bit 32 (ucast b4) OR push_bit 40 (ucast b5) OR push_bit 48 (ucast b6)
       OR push_bit 56 (ucast b7))
   }"

definition r_write_le16 :: "byte list \<Rightarrow> nat \<Rightarrow> u16 \<Rightarrow> byte list option" where
  "r_write_le16 p i v = do {
     p \<leftarrow> wr8 p i (ucast (v AND 0xff));
     wr8 p (i + 1) (ucast (drop_bit 8 v AND 0xff))
   }"

definition r_write_le32 :: "byte list \<Rightarrow> nat \<Rightarrow> u32 \<Rightarrow> byte list option" where
  "r_write_le32 p i v = do {
     p \<leftarrow> wr8 p i (ucast (v AND 0xff));
     p \<leftarrow> wr8 p (i + 1) (ucast (drop_bit 8 v AND 0xff));
     p \<leftarrow> wr8 p (i + 2) (ucast (drop_bit 16 v AND 0xff));
     wr8 p (i + 3) (ucast (drop_bit 24 v AND 0xff))
   }"

definition r_write_le64 :: "byte list \<Rightarrow> nat \<Rightarrow> u64 \<Rightarrow> byte list option" where
  "r_write_le64 p i v = do {
     p \<leftarrow> wr8 p i (ucast (v AND 0xff));
     p \<leftarrow> wr8 p (i + 1) (ucast (drop_bit 8 v AND 0xff));
     p \<leftarrow> wr8 p (i + 2) (ucast (drop_bit 16 v AND 0xff));
     p \<leftarrow> wr8 p (i + 3) (ucast (drop_bit 24 v AND 0xff));
     p \<leftarrow> wr8 p (i + 4) (ucast (drop_bit 32 v AND 0xff));
     p \<leftarrow> wr8 p (i + 5) (ucast (drop_bit 40 v AND 0xff));
     p \<leftarrow> wr8 p (i + 6) (ucast (drop_bit 48 v AND 0xff));
     wr8 p (i + 7) (ucast (drop_bit 56 v AND 0xff))
   }"

subsection \<open>The tenant header\<close>

definition r_tenant_header_write ::
    "r_tenant_header \<Rightarrow> byte list \<Rightarrow> nat \<Rightarrow> byte list option" where
  "r_tenant_header_write header buf len =
     (if len < R_TENANT_TLV_LEN then Some buf
      else do {
        buf \<leftarrow> r_write_le16 buf 0 (tlv_type header);
        buf \<leftarrow> r_write_le16 buf 2 (tlv_size header);
        buf \<leftarrow> r_write_le64 buf 4 (key_id header);
        buf \<leftarrow> wr_bytes buf 12 (unique_id header);
        buf \<leftarrow> r_write_le64 buf 28 (time_stamp header);
        buf \<leftarrow> wr8 buf 36 (steering_feedback header);
        buf \<leftarrow> wr8 buf 37 (tenant_mgmt_flag header);
        buf \<leftarrow> wr8 buf 38 (padding header ! 0);
        wr8 buf 39 (padding header ! 1)
      })"

definition r_tenant_header_read :: "byte list \<Rightarrow> nat \<Rightarrow> r_tenant_header ret" where
  "r_tenant_header_read buf len =
     (if len < R_TENANT_TLV_LEN then Some (Inl RCLIENT_ERR_PROTOCOL)
      else do {
        ty \<leftarrow> r_le16 buf 0;
        sz \<leftarrow> r_le16 buf 2;
        kid \<leftarrow> r_le64 buf 4;
        uid \<leftarrow> rd_bytes buf 12 16;
        ts \<leftarrow> r_le64 buf 28;
        sf \<leftarrow> rd8 buf 36;
        mf \<leftarrow> rd8 buf 37;
        p0 \<leftarrow> rd8 buf 38;
        p1 \<leftarrow> rd8 buf 39;
        Some (Inr \<lparr>tlv_type = ty, tlv_size = sz, key_id = kid, unique_id = uid, time_stamp = ts,
                steering_feedback = sf, tenant_mgmt_flag = mf, padding = [p0, p1]\<rparr>)
      })"

definition r_parse_tenant_header :: "byte list \<Rightarrow> nat \<Rightarrow> (r_tenant_header \<times> nat) ret" where
  "r_parse_tenant_header buf len =
     (if len < 4 then Some (Inl RCLIENT_ERR_PROTOCOL)
      else do {
        ty \<leftarrow> r_le16 buf 0;
        if ty \<noteq> R_TLV_TENANT then Some (Inl RCLIENT_ERR_PROTOCOL)
        else do {
          sz \<leftarrow> r_le16 buf 2;
          if unat sz < R_TENANT_TLV_LEN \<or> len < unat sz then Some (Inl RCLIENT_ERR_PROTOCOL)
          else do {
            r \<leftarrow> r_tenant_header_read buf len;
            (case r of
               Inl e \<Rightarrow> Some (Inl e)
             | Inr out \<Rightarrow> Some (Inr (out, unat sz)))
          }
        }
      })"

text \<open>The outputs are the type, the size, the offset and length of the TLV body and the offset of
  the PDU behind it.\<close>

definition r_parse_auth_tlv_header ::
    "byte list \<Rightarrow> nat \<Rightarrow> nat \<Rightarrow> (u16 \<times> nat \<times> nat \<times> nat \<times> nat) ret" where
  "r_parse_auth_tlv_header buf len pos =
     (if len < pos + 4 then Some (Inl RCLIENT_ERR_PROTOCOL)
      else do {
        ty \<leftarrow> r_le16 buf pos;
        sz \<leftarrow> r_le16 buf (pos + 2);
        if unat sz < 4 \<or> len < pos + unat sz then Some (Inl RCLIENT_ERR_PROTOCOL)
        else Some (Inr (ty, unat sz, pos + 4, unat sz - 4, pos + unat sz))
      })"

definition r_peek_server_id :: "byte list \<Rightarrow> nat \<Rightarrow> (u64 \<times> bool) option" where
  "r_peek_server_id buf len =
     (if len < 12 then Some (0, False)
      else do {
        ty \<leftarrow> r_le16 buf 0;
        sz \<leftarrow> r_le16 buf 2;
        if ty \<noteq> R_TLV_TENANT \<or> unat sz < R_TENANT_TLV_LEN \<or> len < unat sz then Some (0, False)
        else do {
          v \<leftarrow> r_le64 buf 4;
          Some (v, True)
        }
      })"

definition r_peek_request_id :: "byte list \<Rightarrow> nat \<Rightarrow> byte list ret" where
  "r_peek_request_id buf len =
     (if len < 28 then Some (Inl RCLIENT_ERR_PROTOCOL)
      else do {
        ty \<leftarrow> r_le16 buf 0;
        sz \<leftarrow> r_le16 buf 2;
        if ty \<noteq> R_TLV_TENANT \<or> unat sz < R_TENANT_TLV_LEN \<or> len < unat sz
        then Some (Inl RCLIENT_ERR_PROTOCOL)
        else do {
          v \<leftarrow> rd_bytes buf 12 16;
          Some (Inr v)
        }
      })"

subsection \<open>Request and report bodies\<close>

definition r_append_metrics_label_tlv ::
    "byte list \<Rightarrow> nat \<Rightarrow> nat \<Rightarrow> byte list \<Rightarrow> nat \<Rightarrow> (byte list \<times> nat) ret" where
  "r_append_metrics_label_tlv buf buf_cap len label label_len0 =
     (let label_len = (if label_len0 = 0 then strlen label else label_len0) in
      if label_len > 0xffff then Some (Inl RCLIENT_ERR_PROTOCOL)
      else
        let body_len = 2 + label_len;
            padding = (4 - (body_len mod 4)) mod 4;
            tlv_size = 4 + body_len + padding in
        if tlv_size > 0xffff then Some (Inl RCLIENT_ERR_PROTOCOL)
        else if len + tlv_size > buf_cap then Some (Inl RCLIENT_ERR_PROTOCOL)
        else do {
          buf \<leftarrow> r_write_le16 buf len R_TLV_METRICS_LABEL;
          buf \<leftarrow> r_write_le16 buf (len + 2) (of_nat tlv_size);
          buf \<leftarrow> r_write_le16 buf (len + 4) (of_nat label_len);
          text \<leftarrow> rd_bytes (label @ [0]) 0 label_len;
          buf \<leftarrow> wr_bytes buf (len + 6) text;
          buf \<leftarrow> (if padding > 0 then wr_bytes buf (len + 6 + label_len) (replicate padding 0)
                 else Some buf);
          Some (Inr (buf, len + tlv_size))
        })"

definition r_guard_block_of :: "r_latency_guard \<Rightarrow> r_guard_block" where
  "r_guard_block_of g =
     \<lparr>gb_latency_tracker_id = latency_tracker_id g,
      gb_ttl_ms = ttl_ms g,
      gb_max_samples = max_samples g,
      gb_min_sample_threshold = min_sample_threshold g,
      gb_latency_threshold = threshold_ms g,
      gb_current_latency = 0\<rparr>"

definition r_resource_block_of :: "r_resource_request \<Rightarrow> r_resource_block" where
  "r_resource_block_of r =
     \<lparr>rb_bucket_id = bucket_id r,
      rb_window_size_ms = window_size_ms r,
      rb_rate_limit = rate_limit r,
      rb_tokens_requested = tokens_requested r,
      rb_padding = 0\<rparr>"

definition r_service_latency_block_of :: "r_service_latency_report \<Rightarrow> r_service_latency_block" where
  "r_service_latency_block_of r =
     \<lparr>lb_latency_tracker_id = rep_latency_tracker_id r,
      lb_ttl_ms = rep_ttl_ms r,
      lb_max_samples = rep_max_samples r,
      lb_min_sample_threshold = rep_min_sample_threshold r,
      lb_observed_latency = rep_observed_latency r\<rparr>"

fun r_write_guard_blocks ::
    "r_latency_guard list \<Rightarrow> byte list \<Rightarrow> nat \<Rightarrow> (byte list \<times> nat) option" where
  "r_write_guard_blocks [] out pos = Some (out, pos)"
| "r_write_guard_blocks (g # gs) out pos = (let block = r_guard_block_of g in do {
     out \<leftarrow> wr_bytes out pos (gb_latency_tracker_id block);
     out \<leftarrow> r_write_le32 out (pos + 16) (gb_ttl_ms block);
     out \<leftarrow> r_write_le32 out (pos + 20) (gb_max_samples block);
     out \<leftarrow> r_write_le32 out (pos + 24) (gb_min_sample_threshold block);
     out \<leftarrow> r_write_le32 out (pos + 28) (gb_latency_threshold block);
     out \<leftarrow> r_write_le32 out (pos + 32) (gb_current_latency block);
     r_write_guard_blocks gs out (pos + R_GUARD_BLOCK_WIRE_LEN)
   })"

fun r_write_resource_blocks ::
    "r_resource_request list \<Rightarrow> byte list \<Rightarrow> nat \<Rightarrow> (byte list \<times> nat) option" where
  "r_write_resource_blocks [] out pos = Some (out, pos)"
| "r_write_resource_blocks (r # rs) out pos = (let block = r_resource_block_of r in do {
     out \<leftarrow> wr_bytes out pos (rb_bucket_id block);
     out \<leftarrow> r_write_le32 out (pos + 16) (rb_window_size_ms block);
     out \<leftarrow> r_write_le32 out (pos + 20) (rb_rate_limit block);
     out \<leftarrow> r_write_le16 out (pos + 24) (rb_tokens_requested block);
     out \<leftarrow> r_write_le16 out (pos + 26) (rb_padding block);
     r_write_resource_blocks rs out (pos + R_RESOURCE_BLOCK_WIRE_LEN)
   })"

fun r_write_service_latency_blocks ::
    "r_service_latency_report list \<Rightarrow> byte list \<Rightarrow> nat \<Rightarrow> (byte list \<times> nat) option" where
  "r_write_service_latency_blocks [] out pos = Some (out, pos)"
| "r_write_service_latency_blocks (r # rs) out pos = (let block = r_service_latency_block_of r in do {
     out \<leftarrow> wr_bytes out pos (lb_latency_tracker_id block);
     out \<leftarrow> r_write_le32 out (pos + 16) (lb_ttl_ms block);
     out \<leftarrow> r_write_le32 out (pos + 20) (lb_max_samples block);
     out \<leftarrow> r_write_le32 out (pos + 24) (lb_min_sample_threshold block);
     out \<leftarrow> r_write_le32 out (pos + 28) (lb_observed_latency block);
     r_write_service_latency_blocks rs out (pos + R_SERVICE_LATENCY_BLOCK_WIRE_LEN)
   })"

definition r_build_rate_request_body ::
    "r_resource_request list \<Rightarrow> r_latency_guard list \<Rightarrow> byte list option \<Rightarrow> nat \<Rightarrow>
     byte list \<Rightarrow> nat \<Rightarrow> (byte list \<times> nat) ret" where
  "r_build_rate_request_body resources guards metrics_label metrics_label_len out out_cap =
     (let resource_count = length resources; guard_count = length guards in
      if resource_count > 0xffff \<or> guard_count > 0xffff then Some (Inl RCLIENT_ERR_PROTOCOL)
      else
        let needed = 4 + guard_count * R_GUARD_BLOCK_WIRE_LEN
                       + resource_count * R_RESOURCE_BLOCK_WIRE_LEN in
        if needed > out_cap then Some (Inl RCLIENT_ERR_PROTOCOL)
        else do {
          out \<leftarrow> r_write_le16 out 0 (of_nat guard_count);
          out \<leftarrow> r_write_le16 out 2 (of_nat resource_count);
          (out, pos) \<leftarrow> r_write_guard_blocks guards out 4;
          (out, pos) \<leftarrow> r_write_resource_blocks resources out pos;
          if nonempty_str metrics_label
          then r_append_metrics_label_tlv out out_cap pos (the metrics_label) metrics_label_len
          else Some (Inr (out, pos))
        })"

definition r_build_latency_report_body ::
    "r_service_latency_report list \<Rightarrow> byte list \<Rightarrow> nat \<Rightarrow> (byte list \<times> nat) ret" where
  "r_build_latency_report_body reports out out_cap =
     (let report_count = length reports in
      if report_count > 0xffff then Some (Inl RCLIENT_ERR_PROTOCOL)
      else
        let needed = 4 + report_count * R_SERVICE_LATENCY_BLOCK_WIRE_LEN in
        if needed > out_cap then Some (Inl RCLIENT_ERR_PROTOCOL)
        else do {
          out \<leftarrow> r_write_le16 out 0 (of_nat report_count);
          out \<leftarrow> r_write_le16 out 2 0;
          (out, pos) \<leftarrow> r_write_service_latency_blocks reports out 4;
          Some (Inr (out, pos))
        })"

subsection \<open>PDU framing\<close>

definition r_build_pdu ::
    "u16 \<Rightarrow> byte list \<Rightarrow> nat \<Rightarrow> byte list \<Rightarrow> nat \<Rightarrow> (byte list \<times> nat) ret" where
  "r_build_pdu pdu_type body body_len out out_cap =
     (let pdu_size = R_PDU_HEADER_LEN + body_len in
      if pdu_size > 0xffff \<or> pdu_size > out_cap then Some (Inl RCLIENT_ERR_PROTOCOL)
      else do {
        out \<leftarrow> r_write_le16 out 0 pdu_type;
        out \<leftarrow> r_write_le16 out 2 (of_nat pdu_size);
        out \<leftarrow> r_write_le16 out 4 0;
        out \<leftarrow> r_write_le16 out 6 0;
        src \<leftarrow> rd_bytes body 0 body_len;
        out \<leftarrow> wr_bytes out R_PDU_HEADER_LEN src;
        Some (Inr (out, pdu_size))
      })"

definition r_build_rate_request_pdu ::
    "u32 \<Rightarrow> byte list \<Rightarrow> nat \<Rightarrow> byte list \<Rightarrow> nat \<Rightarrow> (byte list \<times> nat) ret" where
  "r_build_rate_request_pdu dedup_ttl_ms body body_len out out_cap =
     (let pdu_size = R_PDU_HEADER_LEN + body_len in
      if pdu_size > 0xffff \<or> pdu_size > out_cap then Some (Inl RCLIENT_ERR_PROTOCOL)
      else do {
        out \<leftarrow> r_write_le16 out 0 R_PDU_RATE_REQUEST;
        out \<leftarrow> r_write_le16 out 2 (of_nat pdu_size);
        out \<leftarrow> r_write_le32 out 4 dedup_ttl_ms;
        src \<leftarrow> rd_bytes body 0 body_len;
        out \<leftarrow> wr_bytes out R_PDU_HEADER_LEN src;
        Some (Inr (out, pdu_size))
      })"

subsection \<open>The response parser\<close>

text \<open>The two loops of the parser; \<open>body\<close> is the offset of the body in the PDU.\<close>

fun r_parse_guard_results ::
    "byte list \<Rightarrow> nat \<Rightarrow> nat \<Rightarrow> nat \<Rightarrow> nat \<Rightarrow> r_guard_result list \<Rightarrow> bool \<Rightarrow>
     (nat \<times> r_guard_result list \<times> bool) ret" where
  "r_parse_guard_results pdu body body_len 0 pos guards success = Some (Inr (pos, guards, success))"
| "r_parse_guard_results pdu body body_len (Suc n) pos guards success =
     (if body_len < pos + R_GUARD_BLOCK_WIRE_LEN then Some (Inl RCLIENT_ERR_PROTOCOL)
      else do {
        tid \<leftarrow> rd_bytes pdu (body + pos) 16;
        latency_threshold \<leftarrow> r_le32 pdu (body + pos + 28);
        current_latency \<leftarrow> r_le32 pdu (body + pos + 32);
        r_parse_guard_results pdu body body_len n (pos + R_GUARD_BLOCK_WIRE_LEN)
          (guards @ [\<lparr>gr_latency_tracker_id = tid, gr_threshold_ms = latency_threshold,
                      gr_current_latency_ms = current_latency,
                      passed = (current_latency < latency_threshold)\<rparr>])
          (if \<not> (current_latency < latency_threshold) then False else success)
      })"

fun r_parse_resource_results ::
    "byte list \<Rightarrow> nat \<Rightarrow> nat \<Rightarrow> nat \<Rightarrow> nat \<Rightarrow> r_resource_result list \<Rightarrow> bool \<Rightarrow>
     (nat \<times> r_resource_result list \<times> bool) ret" where
  "r_parse_resource_results pdu body body_len 0 pos resources success =
     Some (Inr (pos, resources, success))"
| "r_parse_resource_results pdu body body_len (Suc n) pos resources success =
     (if body_len < pos + R_RESOURCE_BLOCK_WIRE_LEN then Some (Inl RCLIENT_ERR_PROTOCOL)
      else do {
        bid \<leftarrow> rd_bytes pdu (body + pos) 16;
        rate \<leftarrow> r_le32 pdu (body + pos + 20);
        deficit \<leftarrow> r_le16 pdu (body + pos + 24);
        r_parse_resource_results pdu body body_len n (pos + R_RESOURCE_BLOCK_WIRE_LEN)
          (resources @ [\<lparr>res_bucket_id = bid, tokens_deficit = deficit, actual_rate = rate\<rparr>])
          (if deficit \<noteq> 0 then False else success)
      })"

definition r_parse_rate_response_pdu ::
    "byte list \<Rightarrow> nat \<Rightarrow> nat \<Rightarrow> nat \<Rightarrow> (r_guard_result list \<times> r_resource_result list \<times> bool) ret" where
  "r_parse_rate_response_pdu pdu pdu_len guard_cap res_cap =
     (if pdu_len < R_PDU_HEADER_LEN then Some (Inl RCLIENT_ERR_PROTOCOL)
      else do {
        pdu_type \<leftarrow> r_le16 pdu 0;
        if pdu_type \<noteq> R_PDU_RATE_RESPONSE then Some (Inl RCLIENT_ERR_PROTOCOL)
        else do {
          sz \<leftarrow> r_le16 pdu 2;
          let pdu_size = unat sz in
          if pdu_size < R_PDU_HEADER_LEN \<or> pdu_len < pdu_size then Some (Inl RCLIENT_ERR_PROTOCOL)
          else let body = R_PDU_HEADER_LEN; body_len = pdu_size - R_PDU_HEADER_LEN in
          if body_len < 4 then Some (Inl RCLIENT_ERR_PROTOCOL)
          else do {
            gc \<leftarrow> r_le16 pdu body;
            rc \<leftarrow> r_le16 pdu (body + 2);
            if unat gc > guard_cap \<or> unat rc > res_cap then Some (Inl RCLIENT_ERR_PROTOCOL)
            else do {
              r \<leftarrow> r_parse_guard_results pdu body body_len (unat gc) 4 [] True;
              (case r of
                 Inl e \<Rightarrow> Some (Inl e)
               | Inr (pos, guards, success) \<Rightarrow> do {
                   r \<leftarrow> r_parse_resource_results pdu body body_len (unat rc) pos [] success;
                   (case r of
                      Inl e \<Rightarrow> Some (Inl e)
                    | Inr (pos, resources, success) \<Rightarrow> Some (Inr (guards, resources, success)))
                 })
            }
          }
        }
      })"

subsection \<open>Facts: little-endian accessors\<close>

lemma take_drop_Cons: "i < length p \<Longrightarrow> take (Suc n) (drop i p) = p ! i # take n (drop (Suc i) p)"
  by (simp add: Cons_nth_drop_Suc [symmetric])

lemma r_le16_eq [mem_simps]:
  assumes "i + 2 \<le> length p"
  shows "r_le16 p i = Some (le_word (take 2 (drop i p)))"
  using assms by (simp add: r_le16_def rd8_def numeral_eq_Suc take_drop_Cons)

lemma r_le32_eq [mem_simps]:
  assumes "i + 4 \<le> length p"
  shows "r_le32 p i = Some (le_word (take 4 (drop i p)))"
proof -
  have "take 4 (drop i p) = [p ! i, p ! (i + 1), p ! (i + 2), p ! (i + 3)]"
    using assms by (simp add: numeral_eq_Suc take_drop_Cons)
  then show ?thesis
    using assms by (simp add: r_le32_def rd8_def push_bit_or push_bit_push_bit)
qed

lemma r_le64_eq [mem_simps]:
  assumes "i + 8 \<le> length p"
  shows "r_le64 p i = Some (le_word (take 8 (drop i p)))"
proof -
  have "take 8 (drop i p) = [p ! i, p ! (i + 1), p ! (i + 2), p ! (i + 3),
      p ! (i + 4), p ! (i + 5), p ! (i + 6), p ! (i + 7)]"
    using assms by (simp add: numeral_eq_Suc take_drop_Cons)
  then show ?thesis
    using assms by (simp add: r_le64_def rd8_def push_bit_or push_bit_push_bit)
qed

lemma r_write_le16_eq: "r_write_le16 p i v = wr_bytes p i (le_bytes 2 v)"
  by (simp add: r_write_le16_def wr_bytes_seq_last numeral_2_eq_2)

lemma le_bytes_2: "le_bytes 2 v = [ucast v, ucast (drop_bit 8 v)]"
  by (simp add: numeral_eq_Suc)

lemma le_bytes_4: "le_bytes 4 v = [ucast v, ucast (drop_bit 8 v), ucast (drop_bit 16 v), ucast (drop_bit 24 v)]"
  by (simp add: numeral_eq_Suc drop_bit_drop_bit)

lemma le_bytes_8: "le_bytes 8 v = [ucast v, ucast (drop_bit 8 v), ucast (drop_bit 16 v),
   ucast (drop_bit 24 v), ucast (drop_bit 32 v), ucast (drop_bit 40 v), ucast (drop_bit 48 v),
   ucast (drop_bit 56 v)]"
  by (simp add: numeral_eq_Suc drop_bit_drop_bit)

lemma r_write_le32_eq: "r_write_le32 p i v = wr_bytes p i (le_bytes 4 v)"
  by (simp add: r_write_le32_def wr_bytes_seq wr_bytes_seq_last le_bytes_4)

lemma r_write_le64_eq: "r_write_le64 p i v = wr_bytes p i (le_bytes 8 v)"
  by (simp add: r_write_le64_def wr_bytes_seq wr_bytes_seq_last le_bytes_8)

lemmas write_le = r_write_le16_eq r_write_le32_eq r_write_le64_eq

subsection \<open>Reference encodings\<close>

definition tenant_bytes :: "r_tenant_header \<Rightarrow> byte list" where
  "tenant_bytes h = le_bytes 2 (tlv_type h) @ le_bytes 2 (tlv_size h) @ le_bytes 8 (key_id h)
     @ unique_id h @ le_bytes 8 (time_stamp h)
     @ [steering_feedback h, tenant_mgmt_flag h] @ padding h"

definition tenant_of_bytes :: "byte list \<Rightarrow> r_tenant_header" where
  "tenant_of_bytes bs =
     \<lparr>tlv_type = le_word (take 2 bs), tlv_size = le_word (take 2 (drop 2 bs)),
      key_id = le_word (take 8 (drop 4 bs)), unique_id = take 16 (drop 12 bs),
      time_stamp = le_word (take 8 (drop 28 bs)), steering_feedback = bs ! 36,
      tenant_mgmt_flag = bs ! 37, padding = [bs ! 38, bs ! 39]\<rparr>"

definition guard_block_bytes :: "r_guard_block \<Rightarrow> byte list" where
  "guard_block_bytes b = gb_latency_tracker_id b @ le_bytes 4 (gb_ttl_ms b)
     @ le_bytes 4 (gb_max_samples b) @ le_bytes 4 (gb_min_sample_threshold b)
     @ le_bytes 4 (gb_latency_threshold b) @ le_bytes 4 (gb_current_latency b)"

definition guard_block_of_bytes :: "byte list \<Rightarrow> r_guard_block" where
  "guard_block_of_bytes bs =
     \<lparr>gb_latency_tracker_id = take 16 bs, gb_ttl_ms = le_word (take 4 (drop 16 bs)),
      gb_max_samples = le_word (take 4 (drop 20 bs)),
      gb_min_sample_threshold = le_word (take 4 (drop 24 bs)),
      gb_latency_threshold = le_word (take 4 (drop 28 bs)),
      gb_current_latency = le_word (take 4 (drop 32 bs))\<rparr>"

definition resource_block_bytes :: "r_resource_block \<Rightarrow> byte list" where
  "resource_block_bytes b = rb_bucket_id b @ le_bytes 4 (rb_window_size_ms b)
     @ le_bytes 4 (rb_rate_limit b) @ le_bytes 2 (rb_tokens_requested b)
     @ le_bytes 2 (rb_padding b)"

definition resource_block_of_bytes :: "byte list \<Rightarrow> r_resource_block" where
  "resource_block_of_bytes bs =
     \<lparr>rb_bucket_id = take 16 bs, rb_window_size_ms = le_word (take 4 (drop 16 bs)),
      rb_rate_limit = le_word (take 4 (drop 20 bs)),
      rb_tokens_requested = le_word (take 2 (drop 24 bs)),
      rb_padding = le_word (take 2 (drop 26 bs))\<rparr>"

definition latency_block_bytes :: "r_service_latency_block \<Rightarrow> byte list" where
  "latency_block_bytes b = lb_latency_tracker_id b @ le_bytes 4 (lb_ttl_ms b)
     @ le_bytes 4 (lb_max_samples b) @ le_bytes 4 (lb_min_sample_threshold b)
     @ le_bytes 4 (lb_observed_latency b)"

definition latency_block_of_bytes :: "byte list \<Rightarrow> r_service_latency_block" where
  "latency_block_of_bytes bs =
     \<lparr>lb_latency_tracker_id = take 16 bs, lb_ttl_ms = le_word (take 4 (drop 16 bs)),
      lb_max_samples = le_word (take 4 (drop 20 bs)),
      lb_min_sample_threshold = le_word (take 4 (drop 24 bs)),
      lb_observed_latency = le_word (take 4 (drop 28 bs))\<rparr>"

lemma take_drop_split: "take (n + m) (drop i xs) = take n (drop i xs) @ take m (drop (i + n) xs)"
  using take_add [of n m "drop i xs"] by (simp add: add.commute)

interpretation guard_wire: codec 36 "\<lambda>b. length (gb_latency_tracker_id b) = 16"
    guard_block_bytes guard_block_of_bytes
proof unfold_locales
  fix v :: r_guard_block
  assume "length (gb_latency_tracker_id v) = 16"
  then show "guard_block_of_bytes (guard_block_bytes v) = v"
    by (simp add: guard_block_of_bytes_def guard_block_bytes_def le_word_le_bytes)
next
  fix bs :: "byte list"
  assume l: "length bs = 36"
  have "guard_block_bytes (guard_block_of_bytes bs)
      = take 16 (drop 0 bs) @ take 4 (drop 16 bs) @ take 4 (drop 20 bs) @ take 4 (drop 24 bs)
        @ take 4 (drop 28 bs) @ take 4 (drop 32 bs)"
    using l by (simp add: guard_block_bytes_def guard_block_of_bytes_def le_bytes_le_word)
  also have "\<dots> = take 36 bs"
    using take_drop_split [of 16 20 0 bs] take_drop_split [of 4 16 16 bs]
      take_drop_split [of 4 12 20 bs] take_drop_split [of 4 8 24 bs] take_drop_split [of 4 4 28 bs]
    by simp
  finally show "guard_block_bytes (guard_block_of_bytes bs) = bs" using l by simp
qed (auto simp: guard_block_bytes_def guard_block_of_bytes_def)

interpretation resource_wire: codec 28 "\<lambda>b. length (rb_bucket_id b) = 16"
    resource_block_bytes resource_block_of_bytes
proof unfold_locales
  fix v :: r_resource_block
  assume "length (rb_bucket_id v) = 16"
  then show "resource_block_of_bytes (resource_block_bytes v) = v"
    by (simp add: resource_block_of_bytes_def resource_block_bytes_def le_word_le_bytes)
next
  fix bs :: "byte list"
  assume l: "length bs = 28"
  have "resource_block_bytes (resource_block_of_bytes bs)
      = take 16 (drop 0 bs) @ take 4 (drop 16 bs) @ take 4 (drop 20 bs) @ take 2 (drop 24 bs)
        @ take 2 (drop 26 bs)"
    using l by (simp add: resource_block_bytes_def resource_block_of_bytes_def le_bytes_le_word)
  also have "\<dots> = take 28 bs"
    using take_drop_split [of 16 12 0 bs] take_drop_split [of 4 8 16 bs]
      take_drop_split [of 4 4 20 bs] take_drop_split [of 2 2 24 bs]
    by simp
  finally show "resource_block_bytes (resource_block_of_bytes bs) = bs" using l by simp
qed (auto simp: resource_block_bytes_def resource_block_of_bytes_def)

interpretation latency_wire: codec 32 "\<lambda>b. length (lb_latency_tracker_id b) = 16"
    latency_block_bytes latency_block_of_bytes
proof unfold_locales
  fix v :: r_service_latency_block
  assume "length (lb_latency_tracker_id v) = 16"
  then show "latency_block_of_bytes (latency_block_bytes v) = v"
    by (simp add: latency_block_of_bytes_def latency_block_bytes_def le_word_le_bytes)
next
  fix bs :: "byte list"
  assume l: "length bs = 32"
  have "latency_block_bytes (latency_block_of_bytes bs)
      = take 16 (drop 0 bs) @ take 4 (drop 16 bs) @ take 4 (drop 20 bs) @ take 4 (drop 24 bs)
        @ take 4 (drop 28 bs)"
    using l by (simp add: latency_block_bytes_def latency_block_of_bytes_def le_bytes_le_word)
  also have "\<dots> = take 32 bs"
    using take_drop_split [of 16 16 0 bs] take_drop_split [of 4 12 16 bs]
      take_drop_split [of 4 8 20 bs] take_drop_split [of 4 4 24 bs]
    by simp
  finally show "latency_block_bytes (latency_block_of_bytes bs) = bs" using l by simp
qed (auto simp: latency_block_bytes_def latency_block_of_bytes_def)

interpretation tenant_wire: codec 40 wf_tenant tenant_bytes tenant_of_bytes
proof unfold_locales
  fix v :: r_tenant_header
  assume wf: "wf_tenant v"
  then obtain p0 p1 where p: "padding v = [p0, p1]"
    by (auto simp: wf_tenant_def length_Suc_conv numeral_2_eq_2)
  show "tenant_of_bytes (tenant_bytes v) = v"
    using wf p by (simp add: tenant_of_bytes_def tenant_bytes_def le_word_le_bytes wf_tenant_def
        nth_append)
next
  fix bs :: "byte list"
  assume l: "length bs = 40"
  have tl: "[bs ! 36, bs ! 37, bs ! 38, bs ! 39] = take 4 (drop 36 bs)"
    using l take_drop_Cons [of 36 bs 3] take_drop_Cons [of 37 bs 2] take_drop_Cons [of 38 bs 1]
      take_drop_Cons [of 39 bs 0] by simp
  have "tenant_bytes (tenant_of_bytes bs)
      = take 2 (drop 0 bs) @ take 2 (drop 2 bs) @ take 8 (drop 4 bs) @ take 16 (drop 12 bs)
        @ take 8 (drop 28 bs) @ take 4 (drop 36 bs)"
    unfolding tl [symmetric]
    using l by (simp add: tenant_bytes_def tenant_of_bytes_def le_bytes_le_word)
  also have "\<dots> = take 40 bs"
    using take_add [of 2 38 bs] take_drop_split [of 2 36 2 bs]
      take_drop_split [of 8 28 4 bs] take_drop_split [of 16 12 12 bs] take_drop_split [of 8 4 28 bs]
    by simp
  finally show "tenant_bytes (tenant_of_bytes bs) = bs" using l by simp
qed (auto simp: tenant_bytes_def tenant_of_bytes_def wf_tenant_def)

subsection \<open>The tenant header\<close>

lemma r_tenant_header_write_eq:
  assumes "wf_tenant h" "R_TENANT_TLV_LEN \<le> len"
  shows "r_tenant_header_write h buf len = wr_bytes buf 0 (tenant_bytes h)"
proof -
  obtain p0 p1 where p: "padding h = [p0, p1]"
    using assms(1) by (auto simp: wf_tenant_def length_Suc_conv numeral_2_eq_2)
  show ?thesis
    using assms p
    by (simp add: r_tenant_header_write_def write_le wr_bytes_seq wr_bytes_seq_last
        tenant_bytes_def wf_tenant_def)
qed

lemma r_tenant_header_read_eq:
  assumes "R_TENANT_TLV_LEN \<le> len" "len \<le> length buf"
  shows "r_tenant_header_read buf len = Some (Inr (tenant_of_bytes buf))"
  using assms
  by (simp add: r_tenant_header_read_def mem_simps wire_lens tenant_of_bytes_def)

lemma tenant_of_bytes_take: "40 \<le> n \<Longrightarrow> tenant_of_bytes (take n bs) = tenant_of_bytes bs"
  by (simp add: tenant_of_bytes_def min_def drop_take)

definition tenant_ok :: "byte list \<Rightarrow> nat \<Rightarrow> bool" where
  "tenant_ok buf len \<longleftrightarrow> 4 \<le> len \<and> tlv_type (tenant_of_bytes buf) = R_TLV_TENANT
     \<and> R_TENANT_TLV_LEN \<le> unat (tlv_size (tenant_of_bytes buf))
     \<and> unat (tlv_size (tenant_of_bytes buf)) \<le> len"

lemma r_parse_tenant_header_eq:
  assumes "len \<le> length buf"
  shows "r_parse_tenant_header buf len =
     Some (if tenant_ok buf len
           then Inr (tenant_of_bytes buf, unat (tlv_size (tenant_of_bytes buf)))
           else Inl RCLIENT_ERR_PROTOCOL)"
  using assms
  by (auto simp: r_parse_tenant_header_def r_tenant_header_read_eq mem_simps tenant_ok_def
      tenant_of_bytes_def Let_def not_less)

lemma tenant_ok_bytes:
  assumes "wf_tenant h" "tlv_type h = R_TLV_TENANT" "unat (tlv_size h) = 40"
  shows "tenant_of_bytes (tenant_bytes h @ rest) = h"
    and "40 \<le> len \<Longrightarrow> tenant_ok (tenant_bytes h @ rest) len"
proof -
  have "tenant_of_bytes (tenant_bytes h @ rest) = tenant_of_bytes (take 40 (tenant_bytes h @ rest))"
    by (simp only: tenant_of_bytes_take order_refl)
  also have "\<dots> = h"
    using assms by (simp add: tenant_wire.length_enc tenant_wire.dec_enc)
  finally show *: "tenant_of_bytes (tenant_bytes h @ rest) = h" .
  show "40 \<le> len \<Longrightarrow> tenant_ok (tenant_bytes h @ rest) len"
    unfolding tenant_ok_def * using assms by (simp add: wire_lens)
qed

lemma r_parse_auth_tlv_header_total:
  assumes "len \<le> length buf"
  shows "\<exists>r. r_parse_auth_tlv_header buf len pos = Some r"
  using assms by (auto simp: r_parse_auth_tlv_header_def mem_simps)

lemma r_parse_auth_tlv_header_Inr:
  assumes "r_parse_auth_tlv_header buf len pos = Some (Inr (ty, sz, body, body_len, pdu_pos))"
    "len \<le> length buf"
  shows "ty = le_word (take 2 (drop pos buf)) \<and> sz = body_len + 4 \<and> body = pos + 4
     \<and> pdu_pos = pos + sz \<and> pdu_pos \<le> len"
  using assms by (auto simp: r_parse_auth_tlv_header_def mem_simps split: if_splits)

lemma r_peek_server_id_eq:
  assumes "len \<le> length buf"
  shows "r_peek_server_id buf len =
    Some (if tenant_ok buf len then (key_id (tenant_of_bytes buf), True) else (0, False))"
  using assms
  by (auto simp: r_peek_server_id_def mem_simps tenant_ok_def tenant_of_bytes_def wire_lens not_less)

lemma r_peek_request_id_eq:
  assumes "len \<le> length buf"
  shows "r_peek_request_id buf len =
    Some (if tenant_ok buf len then Inr (unique_id (tenant_of_bytes buf))
          else Inl RCLIENT_ERR_PROTOCOL)"
  using assms
  by (auto simp: r_peek_request_id_def mem_simps tenant_ok_def tenant_of_bytes_def wire_lens not_less)

subsection \<open>Builders\<close>

definition label_tlv_size :: "nat \<Rightarrow> nat" where
  "label_tlv_size n = 4 * ((n + 9) div 4)"

definition label_tlv_bytes :: "byte list \<Rightarrow> byte list" where
  "label_tlv_bytes l = le_bytes 2 R_TLV_METRICS_LABEL
     @ le_bytes 2 (of_nat (label_tlv_size (length l)) :: u16) @ le_bytes 2 (of_nat (length l) :: u16)
     @ l @ replicate (label_tlv_size (length l) - 6 - length l) 0"

lemma label_padding: "4 + (2 + n) + (4 - (2 + n) mod 4) mod 4 = label_tlv_size (n::nat)"
proof -
  define q where "q = n div 4"
  have "n mod 4 < 4" by simp
  then consider "n = 4 * q" | "n = 4 * q + 1" | "n = 4 * q + 2" | "n = 4 * q + 3"
    unfolding q_def by linarith
  then show ?thesis
  proof cases
    case 1
    have "(2 + 4 * q) mod 4 = 2" "(4 * q + 9) div 4 = q + 2" by presburger+
    with 1 show ?thesis by (simp add: label_tlv_size_def)
  next
    case 2
    have "(3 + 4 * q) mod 4 = 3" "(4 * q + 10) div 4 = q + 2" by presburger+
    with 2 show ?thesis by (simp add: label_tlv_size_def)
  next
    case 3
    have "(4 + 4 * q) mod 4 = 0" "(4 * q + 11) div 4 = q + 2" by presburger+
    with 3 show ?thesis by (simp add: label_tlv_size_def)
  next
    case 4
    have "(5 + 4 * q) mod 4 = 1" "(4 * q + 12) div 4 = q + 3" by presburger+
    with 4 show ?thesis by (simp add: label_tlv_size_def)
  qed
qed

lemma label_padding': "(4 - (2 + n) mod 4) mod 4 = label_tlv_size n - 6 - (n::nat)"
  using label_padding [of n] by simp

lemma length_label_tlv_bytes: "length (label_tlv_bytes l) = label_tlv_size (length l)"
  using label_padding [of "length l"] by (simp add: label_tlv_bytes_def)

text \<open>The label text the C code copies.\<close>

definition label_text :: "byte list \<Rightarrow> nat \<Rightarrow> byte list" where
  "label_text label label_len = (if label_len = 0 then c_string label else take label_len (label @ [0]))"

lemma r_append_metrics_label_tlv_eq:
  assumes "label_len \<le> Suc (length label)" "t = label_text label label_len"
  shows "r_append_metrics_label_tlv buf cap len label label_len =
    (if label_tlv_size (length t) > 0xffff \<or> len + label_tlv_size (length t) > cap
     then Some (Inl RCLIENT_ERR_PROTOCOL)
     else do { b \<leftarrow> wr_bytes buf len (label_tlv_bytes t);
               Some (Inr (b, len + label_tlv_size (length t))) })"
proof -
  define n where "n = (if label_len = 0 then strlen label else label_len)"
  have ln: "length t = n"
    using assms strlen_le [of label]
    by (cases "label_len = 0") (auto simp: n_def label_text_def c_string_take)
  have n: "n \<le> Suc (length label)"
    using assms strlen_le [of label] by (simp add: n_def)
  have src: "rd_bytes (label @ [0]) 0 n = Some t"
    using assms n strlen_le [of label]
    by (simp add: rd_bytes_def n_def label_text_def c_string_take)
  have big: "n > 0xffff \<Longrightarrow> label_tlv_size n > 0xffff"
    by (simp add: label_tlv_size_def)
  have pad: "(if label_tlv_size n - 6 - n > 0
       then wr_bytes b (len + 6 + n) (replicate (label_tlv_size n - 6 - n) 0) else Some b)
      = wr_bytes b (len + 6 + n) (replicate (label_tlv_size n - 6 - n) 0)"
    if "len + 6 + n \<le> length b" for b
    using that by (simp add: wr_bytes_Nil)
  have tail: "(wr_bytes b (len + 6) t \<bind> (\<lambda>b. (if label_tlv_size n - 6 - n > 0
       then wr_bytes b (len + 6 + n) (replicate (label_tlv_size n - 6 - n) 0) else Some b)
         \<bind> k)) = wr_bytes b (len + 6) (t @ replicate (label_tlv_size n - 6 - n) 0) \<bind> k"
    for b and k :: "byte list \<Rightarrow> (byte list \<times> nat) ret"
  proof (cases "len + 6 + n \<le> length b")
    case True
    then have "wr_bytes b (len + 6) t \<noteq> None" by (simp add: wr_bytes_eq_None_iff ln)
    then obtain b' where b': "wr_bytes b (len + 6) t = Some b'" by auto
    then have "length b' = length b" by (rule wr_bytes_length)
    with True pad [of b'] b' show ?thesis
      by (simp add: wr_bytes_append [of b "len + 6" t, symmetric, unfolded ln])
  next
    case False
    then have "wr_bytes b (len + 6) t = None"
      "wr_bytes b (len + 6) (t @ replicate (label_tlv_size n - 6 - n) 0) = None"
      by (simp_all add: wr_bytes_eq_None_iff ln)
    then show ?thesis by simp
  qed
  have "r_append_metrics_label_tlv buf cap len label label_len =
    (if label_tlv_size n > 0xffff \<or> len + label_tlv_size n > cap
     then Some (Inl RCLIENT_ERR_PROTOCOL)
     else do { b \<leftarrow> wr_bytes buf len (label_tlv_bytes t);
               Some (Inr (b, len + label_tlv_size n)) })"
    unfolding r_append_metrics_label_tlv_def n_def [symmetric] Let_def label_padding
    unfolding label_padding'
      src Option.bind.simps tail
    using big by (simp add: write_le wr_bytes_seq label_tlv_bytes_def ln)
  then show ?thesis by (simp only: ln)
qed

definition guards_bytes :: "r_latency_guard list \<Rightarrow> byte list" where
  "guards_bytes gs = guard_wire.enc_array (map r_guard_block_of gs)"

definition resources_bytes :: "r_resource_request list \<Rightarrow> byte list" where
  "resources_bytes rs = resource_wire.enc_array (map r_resource_block_of rs)"

definition reports_bytes :: "r_service_latency_report list \<Rightarrow> byte list" where
  "reports_bytes rs = latency_wire.enc_array (map r_service_latency_block_of rs)"

lemma wf_blocks:
  "length (gb_latency_tracker_id (r_guard_block_of g)) = 16 \<longleftrightarrow> wf_guard g"
  "length (rb_bucket_id (r_resource_block_of r)) = 16 \<longleftrightarrow> wf_resource r"
  "length (lb_latency_tracker_id (r_service_latency_block_of p)) = 16 \<longleftrightarrow> wf_report p"
  by (simp_all add: r_guard_block_of_def wf_guard_def r_resource_block_of_def wf_resource_def
      r_service_latency_block_of_def wf_report_def)

lemma length_guards_bytes: "list_all wf_guard gs \<Longrightarrow> length (guards_bytes gs) = length gs * 36"
  by (simp add: guards_bytes_def guard_wire.length_enc_array list_all_iff wf_blocks)

lemma length_resources_bytes:
  "list_all wf_resource rs \<Longrightarrow> length (resources_bytes rs) = length rs * 28"
  by (simp add: resources_bytes_def resource_wire.length_enc_array list_all_iff wf_blocks)

lemma length_reports_bytes:
  "list_all wf_report rs \<Longrightarrow> length (reports_bytes rs) = length rs * 32"
  by (simp add: reports_bytes_def latency_wire.length_enc_array list_all_iff wf_blocks)

lemma r_write_guard_blocks_step:
  assumes "wf_guard g"
  shows "r_write_guard_blocks (g # gs) out pos =
    (wr_bytes out pos (guard_block_bytes (r_guard_block_of g)) \<bind>
      (\<lambda>out. r_write_guard_blocks gs out (pos + 36)))"
  using assms
  unfolding r_write_guard_blocks.simps Let_def write_le wf_guard_def guard_block_bytes_def
    r_guard_block_of_def r_guard_block.simps R_GUARD_BLOCK_WIRE_LEN_def
  by (simp add: wr_bytes_seq)

lemma r_write_resource_blocks_step:
  assumes "wf_resource r"
  shows "r_write_resource_blocks (r # rs) out pos =
    (wr_bytes out pos (resource_block_bytes (r_resource_block_of r)) \<bind>
      (\<lambda>out. r_write_resource_blocks rs out (pos + 28)))"
  using assms
  unfolding r_write_resource_blocks.simps Let_def write_le wf_resource_def resource_block_bytes_def
    r_resource_block_of_def r_resource_block.simps R_RESOURCE_BLOCK_WIRE_LEN_def
  by (simp add: wr_bytes_seq)

lemma r_write_service_latency_blocks_step:
  assumes "wf_report r"
  shows "r_write_service_latency_blocks (r # rs) out pos =
    (wr_bytes out pos (latency_block_bytes (r_service_latency_block_of r)) \<bind>
      (\<lambda>out. r_write_service_latency_blocks rs out (pos + 32)))"
  using assms
  unfolding r_write_service_latency_blocks.simps Let_def write_le wf_report_def
    latency_block_bytes_def r_service_latency_block_of_def r_service_latency_block.simps
    R_SERVICE_LATENCY_BLOCK_WIRE_LEN_def
  by (simp add: wr_bytes_seq)

lemma r_write_guard_blocks_eq:
  assumes "list_all wf_guard gs" "pos \<le> length out"
  shows "r_write_guard_blocks gs out pos =
    map_option (\<lambda>b. (b, pos + length gs * 36)) (wr_bytes out pos (guards_bytes gs))"
  unfolding guards_bytes_def
  by (rule guard_wire.write_array)
    (use assms in \<open>simp_all add: wf_blocks r_write_guard_blocks_step del: r_write_guard_blocks.simps(2)\<close>)

lemma r_write_resource_blocks_eq:
  assumes "list_all wf_resource rs" "pos \<le> length out"
  shows "r_write_resource_blocks rs out pos =
    map_option (\<lambda>b. (b, pos + length rs * 28)) (wr_bytes out pos (resources_bytes rs))"
  unfolding resources_bytes_def
  by (rule resource_wire.write_array)
    (use assms in \<open>simp_all add: wf_blocks r_write_resource_blocks_step
        del: r_write_resource_blocks.simps(2)\<close>)

lemma r_write_service_latency_blocks_eq:
  assumes "list_all wf_report rs" "pos \<le> length out"
  shows "r_write_service_latency_blocks rs out pos =
    map_option (\<lambda>b. (b, pos + length rs * 32)) (wr_bytes out pos (reports_bytes rs))"
  unfolding reports_bytes_def
  by (rule latency_wire.write_array)
    (use assms in \<open>simp_all add: wf_blocks r_write_service_latency_blocks_step
        del: r_write_service_latency_blocks.simps(2)\<close>)

text \<open>The label part of a request body: empty when there is no label.\<close>

definition label_part :: "byte list option \<Rightarrow> nat \<Rightarrow> byte list" where
  "label_part metrics_label len =
     (if nonempty_str metrics_label then label_tlv_bytes (label_text (the metrics_label) len) else [])"

definition rate_request_body_bytes ::
    "r_resource_request list \<Rightarrow> r_latency_guard list \<Rightarrow> byte list option \<Rightarrow> nat \<Rightarrow> byte list" where
  "rate_request_body_bytes rs gs label len =
     le_bytes 2 (of_nat (length gs) :: u16) @ le_bytes 2 (of_nat (length rs) :: u16)
     @ guards_bytes gs @ resources_bytes rs @ label_part label len"

definition wf_label :: "byte list option \<Rightarrow> nat \<Rightarrow> bool" where
  "wf_label label len = (case label of None \<Rightarrow> True | Some l \<Rightarrow> len \<le> Suc (length l))"

definition label_fits :: "byte list option \<Rightarrow> nat \<Rightarrow> bool" where
  "label_fits label len \<longleftrightarrow>
     (nonempty_str label \<longrightarrow> label_tlv_size (length (label_text (the label) len)) \<le> 0xffff)"

text \<open>The counts and the two block loops write this prefix of the body.\<close>

definition body_prefix :: "r_resource_request list \<Rightarrow> r_latency_guard list \<Rightarrow> byte list" where
  "body_prefix rs gs =
     (le_bytes 2 (of_nat (length gs) :: u16) @ le_bytes 2 (of_nat (length rs) :: u16))
     @ guards_bytes gs @ resources_bytes rs"

lemma length_body_prefix:
  "list_all wf_resource rs \<Longrightarrow> list_all wf_guard gs \<Longrightarrow>
     length (body_prefix rs gs) = 4 + length gs * 36 + length rs * 28"
  by (simp add: body_prefix_def length_guards_bytes length_resources_bytes)

lemma wr_bytes_0: "length xs \<le> length out \<Longrightarrow> wr_bytes out 0 xs = Some (xs @ drop (length xs) out)"
  by (simp add: wr_bytes_def)

lemma write_body_prefix:
  fixes k :: "byte list \<Rightarrow> nat \<Rightarrow> 'c option"
  assumes wf: "list_all wf_resource rs" "list_all wf_guard gs"
    and cap: "length (body_prefix rs gs) \<le> length out"
  shows "(do {
      out \<leftarrow> r_write_le16 out 0 (of_nat (length gs));
      out \<leftarrow> r_write_le16 out 2 (of_nat (length rs));
      (out, pos) \<leftarrow> r_write_guard_blocks gs out 4;
      (out, pos) \<leftarrow> r_write_resource_blocks rs out pos;
      k out pos }) =
    k (body_prefix rs gs @ drop (length (body_prefix rs gs)) out) (length (body_prefix rs gs))"
proof -
  let ?h = "le_bytes 2 (of_nat (length gs) :: u16) @ le_bytes 2 (of_nat (length rs) :: u16)"
  note len = length_body_prefix [OF wf]
  obtain o1 where o1: "wr_bytes out 0 ?h = Some o1" and l1: "length o1 = length out"
    using cap len by (simp add: wr_bytes_def)
  obtain o2 where o2: "wr_bytes o1 4 (guards_bytes gs) = Some o2" and l2: "length o2 = length out"
    using cap len l1 wf by (simp add: wr_bytes_def length_guards_bytes)
  obtain o3 where o3: "wr_bytes o2 (4 + length gs * 36) (resources_bytes rs) = Some o3"
    using cap len l2 wf by (simp add: wr_bytes_def length_resources_bytes)
  have "wr_bytes out 0 (?h @ guards_bytes gs) = Some o2"
    using wr_bytes_append [of out 0 ?h "guards_bytes gs"] o1 o2 by simp
  then have "wr_bytes out 0 ((?h @ guards_bytes gs) @ resources_bytes rs) = Some o3"
    using wr_bytes_seq_last [of "4 + length gs * 36" 0 "?h @ guards_bytes gs" out "resources_bytes rs"]
      o3 wf by (simp add: length_guards_bytes)
  then have e: "o3 = body_prefix rs gs @ drop (length (body_prefix rs gs)) out"
    using wr_bytes_0 [OF cap] by (simp add: body_prefix_def)
  have two: "(r_write_le16 out 0 (of_nat (length gs)) \<bind>
      (\<lambda>out. r_write_le16 out 2 (of_nat (length rs)) \<bind> f)) = f o1" for f :: "byte list \<Rightarrow> 'c option"
    using o1 by (simp add: write_le wr_bytes_seq)
  show ?thesis
    unfolding two using l1 l2 wf o1 o2 o3 cap e
    by (simp add: r_write_guard_blocks_eq r_write_resource_blocks_eq len)
qed

lemma rate_request_body_eq:
  assumes wf: "list_all wf_resource rs" "list_all wf_guard gs" "wf_label label len"
    and cap: "cap \<le> length out"
    and body: "body = rate_request_body_bytes rs gs label len"
  shows "r_build_rate_request_body rs gs label len out cap =
    (if length rs \<le> 0xffff \<and> length gs \<le> 0xffff \<and> label_fits label len \<and> length body \<le> cap
     then Some (Inr (body @ drop (length body) out, length body))
     else Some (Inl RCLIENT_ERR_PROTOCOL))"
proof -
  let ?p = "body_prefix rs gs"
  let ?t = "label_text (the label) len"
  note len = length_body_prefix [OF wf(1,2)]
  have bp: "body = ?p @ label_part label len"
    by (simp add: body rate_request_body_bytes_def body_prefix_def)
  show ?thesis
  proof (cases "length rs \<le> 0xffff \<and> length gs \<le> 0xffff \<and> length ?p \<le> cap")
    case False
    then show ?thesis
      using len by (auto simp: r_build_rate_request_body_def Let_def wire_lens bp)
  next
    case True
    have unf: "r_build_rate_request_body rs gs label len out cap =
       (if nonempty_str label
        then r_append_metrics_label_tlv (?p @ drop (length ?p) out) cap (length ?p) (the label) len
        else Some (Inr (?p @ drop (length ?p) out, length ?p)))"
      using True cap len write_body_prefix [OF wf(1,2), of out "\<lambda>out pos.
          if nonempty_str label then r_append_metrics_label_tlv out cap pos (the label) len
          else Some (Inr (out, pos))"]
      unfolding r_build_rate_request_body_def Let_def wire_lens by simp
    show ?thesis
    proof (cases "nonempty_str label")
      case False
      then show ?thesis using unf True bp by (simp add: label_part_def label_fits_def)
    next
      case lab: True
      have wl: "len \<le> Suc (length (the label))"
        using wf(3) lab by (auto simp: wf_label_def nonempty_str_def split: option.splits)
      have lp: "body = ?p @ label_tlv_bytes ?t" using bp lab by (simp add: label_part_def)
      have "wr_bytes (?p @ drop (length ?p) out) (length ?p) (label_tlv_bytes ?t)
          = wr_bytes out 0 body"
        using wr_bytes_append [of out 0 ?p "label_tlv_bytes ?t"] wr_bytes_0 [of ?p out] True cap
        by (simp add: lp)
      then show ?thesis
        unfolding unf using lab True cap wr_bytes_0 [of body out]
        by (auto simp: r_append_metrics_label_tlv_eq [OF wl refl] label_fits_def lp
            length_label_tlv_bytes)
    qed
  qed
qed

lemma latency_report_body_eq:
  assumes wf: "list_all wf_report rs" and cap: "cap \<le> length out"
    and body: "body = le_bytes 2 (of_nat (length rs) :: u16) @ le_bytes 2 (0 :: u16) @ reports_bytes rs"
  shows "r_build_latency_report_body rs out cap =
    (if length rs \<le> 0xffff \<and> length body \<le> cap
     then Some (Inr (body @ drop (length body) out, length body))
     else Some (Inl RCLIENT_ERR_PROTOCOL))"
proof -
  let ?h = "le_bytes 2 (of_nat (length rs) :: u16) @ le_bytes 2 (0 :: u16)"
  have len: "length body = 4 + length rs * 32" using wf by (simp add: body length_reports_bytes)
  show ?thesis
  proof (cases "length rs \<le> 0xffff \<and> length body \<le> cap")
    case False
    then show ?thesis using len by (auto simp: r_build_latency_report_body_def Let_def wire_lens)
  next
    case True
    obtain o1 where o1: "wr_bytes out 0 ?h = Some o1"
      using True cap len by (simp add: wr_bytes_def)
    then have l1: "length o1 = length out" by (rule wr_bytes_length)
    have "wr_bytes o1 4 (reports_bytes rs) = wr_bytes out 0 body"
      using wr_bytes_append [of out 0 ?h "reports_bytes rs"] o1 by (simp add: body)
    also have "\<dots> = Some (body @ drop (length body) out)"
      using True cap by (simp add: wr_bytes_0)
    finally show ?thesis
      using True l1 o1 len wf cap unfolding r_build_latency_report_body_def Let_def wire_lens
      by (simp add: write_le wr_bytes_seq r_write_service_latency_blocks_eq)
  qed
qed

text \<open>PDU framing.\<close>

definition pdu_bytes :: "u16 \<Rightarrow> u32 \<Rightarrow> byte list \<Rightarrow> byte list" where
  "pdu_bytes ty aux body =
     le_bytes 2 ty @ le_bytes 2 (of_nat (8 + length body) :: u16) @ le_bytes 4 aux @ body"

lemma length_pdu_bytes: "length (pdu_bytes ty aux body) = 8 + length body"
  by (simp add: pdu_bytes_def)

lemma le_bytes_zero: "le_bytes n (0 :: 'a::len word) = replicate n 0"
  by (induction n) auto

lemma build_pdu_eq:
  assumes "n \<le> length body" "cap \<le> length out" "p = pdu_bytes ty 0 (take n body)"
  shows "r_build_pdu ty body n out cap =
    (if 8 + n \<le> 0xffff \<and> 8 + n \<le> cap then Some (Inr (p @ drop (8 + n) out, 8 + n))
     else Some (Inl RCLIENT_ERR_PROTOCOL))"
proof -
  have rd: "rd_bytes body 0 n = Some (take n body)" using assms by (simp add: rd_bytes_def)
  have z: "le_bytes 4 (0 :: u32) = le_bytes 2 (0 :: u16) @ le_bytes 2 (0 :: u16)"
    by (simp add: le_bytes_zero numeral_eq_Suc)
  have len: "length p = 8 + n" using assms by (simp add: length_pdu_bytes)
  have "wr_bytes out 0 p = Some (p @ drop (8 + n) out)" if "8 + n \<le> cap"
    using that assms(2) len wr_bytes_0 [of p out] by simp
  then show ?thesis
    using assms(1) unfolding r_build_pdu_def Let_def wire_lens write_le rd
    by (simp add: wr_bytes_seq pdu_bytes_def assms(3) z)
qed

lemma build_rate_request_pdu_eq:
  assumes "n \<le> length body" "cap \<le> length out"
    "p = pdu_bytes R_PDU_RATE_REQUEST dedup (take n body)"
  shows "r_build_rate_request_pdu dedup body n out cap =
    (if 8 + n \<le> 0xffff \<and> 8 + n \<le> cap then Some (Inr (p @ drop (8 + n) out, 8 + n))
     else Some (Inl RCLIENT_ERR_PROTOCOL))"
proof -
  have rd: "rd_bytes body 0 n = Some (take n body)" using assms by (simp add: rd_bytes_def)
  have len: "length p = 8 + n" using assms by (simp add: length_pdu_bytes)
  have "wr_bytes out 0 p = Some (p @ drop (8 + n) out)" if "8 + n \<le> cap"
    using that assms(2) len wr_bytes_0 [of p out] by simp
  then show ?thesis
    using assms(1) unfolding r_build_rate_request_pdu_def Let_def wire_lens write_le rd
    by (simp add: wr_bytes_seq pdu_bytes_def assms(3))
qed

subsection \<open>The response parser\<close>

definition guard_result_of :: "r_guard_block \<Rightarrow> r_guard_result" where
  "guard_result_of b = \<lparr>gr_latency_tracker_id = gb_latency_tracker_id b,
     gr_threshold_ms = gb_latency_threshold b, gr_current_latency_ms = gb_current_latency b,
     passed = (gb_current_latency b < gb_latency_threshold b)\<rparr>"

text \<open>In a response block the rate field carries the consumed tokens and the token field the deficit.\<close>

definition resource_result_of :: "r_resource_block \<Rightarrow> r_resource_result" where
  "resource_result_of b = \<lparr>res_bucket_id = rb_bucket_id b,
     tokens_deficit = rb_tokens_requested b, actual_rate = rb_rate_limit b\<rparr>"

lemma r_parse_guard_results_Suc:
  assumes "body + body_len \<le> length pdu" "pos + 36 \<le> body_len"
    "g = guard_result_of (guard_wire.dec_at (drop (body + pos) pdu) 0)"
  shows "r_parse_guard_results pdu body body_len (Suc n) pos gs s =
    r_parse_guard_results pdu body body_len n (pos + 36) (gs @ [g]) (s \<and> passed g)"
  using assms
  by (simp add: wire_lens mem_simps guard_result_of_def guard_wire.dec_at_def guard_block_of_bytes_def
      drop_take ac_simps)

lemma r_parse_guard_results_eq:
  assumes "body + body_len \<le> length pdu"
  shows "r_parse_guard_results pdu body body_len n pos acc s =
    (if n = 0 \<or> pos + n * 36 \<le> body_len
     then let gs = map guard_result_of (guard_wire.dec_array n (drop (body + pos) pdu))
          in Some (Inr (pos + n * 36, acc @ gs, s \<and> list_all passed gs))
     else Some (Inl RCLIENT_ERR_PROTOCOL))"
proof (induction n arbitrary: pos acc s)
  case 0
  show ?case by (simp add: guard_wire.dec_array_def)
next
  case (Suc n)
  let ?g = "guard_result_of (guard_wire.dec_at (drop (body + pos) pdu) 0)"
  show ?case
  proof (cases "pos + 36 \<le> body_len")
    case False
    then show ?thesis by (simp add: wire_lens)
  next
    case True
    have d: "drop 36 (drop (body + pos) pdu) = drop (body + (pos + 36)) pdu"
      by (simp add: ac_simps)
    show ?thesis
      unfolding r_parse_guard_results_Suc [OF assms True refl] Suc.IH
      using True by (simp add: guard_wire.dec_array_Suc d Let_def ac_simps del: drop_drop)
  qed
qed

lemma r_parse_resource_results_Suc:
  assumes "body + body_len \<le> length pdu" "pos + 28 \<le> body_len"
    "r = resource_result_of (resource_wire.dec_at (drop (body + pos) pdu) 0)"
  shows "r_parse_resource_results pdu body body_len (Suc n) pos rs s =
    r_parse_resource_results pdu body body_len n (pos + 28) (rs @ [r]) (s \<and> tokens_deficit r = 0)"
  using assms
  by (simp add: wire_lens mem_simps resource_result_of_def resource_wire.dec_at_def
      resource_block_of_bytes_def drop_take ac_simps)

lemma r_parse_resource_results_eq:
  assumes "body + body_len \<le> length pdu"
  shows "r_parse_resource_results pdu body body_len n pos acc s =
    (if n = 0 \<or> pos + n * 28 \<le> body_len
     then let rs = map resource_result_of (resource_wire.dec_array n (drop (body + pos) pdu))
          in Some (Inr (pos + n * 28, acc @ rs, s \<and> list_all (\<lambda>r. tokens_deficit r = 0) rs))
     else Some (Inl RCLIENT_ERR_PROTOCOL))"
proof (induction n arbitrary: pos acc s)
  case 0
  show ?case by (simp add: resource_wire.dec_array_def)
next
  case (Suc n)
  show ?case
  proof (cases "pos + 28 \<le> body_len")
    case False
    then show ?thesis by (simp add: wire_lens)
  next
    case True
    have d: "drop 28 (drop (body + pos) pdu) = drop (body + (pos + 28)) pdu"
      by (simp add: ac_simps)
    show ?thesis
      unfolding r_parse_resource_results_Suc [OF assms True refl] Suc.IH
      using True by (simp add: resource_wire.dec_array_Suc d Let_def ac_simps del: drop_drop)
  qed
qed

text \<open>What a well-formed response PDU is, and what it says.\<close>

definition pdu_type_of :: "byte list \<Rightarrow> u16" where
  "pdu_type_of pdu = le_word (take 2 pdu)"

definition pdu_size_of :: "byte list \<Rightarrow> nat" where
  "pdu_size_of pdu = unat (le_word (take 2 (drop 2 pdu)) :: u16)"

definition resp_guard_count :: "byte list \<Rightarrow> nat" where
  "resp_guard_count pdu = unat (le_word (take 2 (drop 8 pdu)) :: u16)"

definition resp_resource_count :: "byte list \<Rightarrow> nat" where
  "resp_resource_count pdu = unat (le_word (take 2 (drop 10 pdu)) :: u16)"

definition resp_guards :: "byte list \<Rightarrow> r_guard_result list" where
  "resp_guards pdu = map guard_result_of (guard_wire.dec_array (resp_guard_count pdu) (drop 12 pdu))"

definition resp_resources :: "byte list \<Rightarrow> r_resource_result list" where
  "resp_resources pdu = map resource_result_of
     (resource_wire.dec_array (resp_resource_count pdu) (drop (12 + resp_guard_count pdu * 36) pdu))"

definition response_ok :: "byte list \<Rightarrow> nat \<Rightarrow> nat \<Rightarrow> nat \<Rightarrow> bool" where
  "response_ok pdu pdu_len guard_cap res_cap \<longleftrightarrow>
     8 \<le> pdu_len \<and> pdu_type_of pdu = R_PDU_RATE_RESPONSE
     \<and> 12 \<le> pdu_size_of pdu \<and> pdu_size_of pdu \<le> pdu_len
     \<and> resp_guard_count pdu \<le> guard_cap \<and> resp_resource_count pdu \<le> res_cap
     \<and> 12 + resp_guard_count pdu * 36 + resp_resource_count pdu * 28 \<le> pdu_size_of pdu"

definition decision :: "r_guard_result list \<Rightarrow> r_resource_result list \<Rightarrow> bool" where
  "decision gs rs \<longleftrightarrow> list_all passed gs \<and> list_all (\<lambda>r. tokens_deficit r = 0) rs"

lemma r_parse_rate_response_pdu_eq:
  assumes "pdu_len \<le> length pdu"
  shows "r_parse_rate_response_pdu pdu pdu_len gcap rcap =
    Some (if response_ok pdu pdu_len gcap rcap
          then Inr (resp_guards pdu, resp_resources pdu,
                    decision (resp_guards pdu) (resp_resources pdu))
          else Inl RCLIENT_ERR_PROTOCOL)"
proof (cases "8 \<le> pdu_len \<and> pdu_type_of pdu = R_PDU_RATE_RESPONSE
     \<and> 12 \<le> pdu_size_of pdu \<and> pdu_size_of pdu \<le> pdu_len")
  case False
  then show ?thesis
    using assms
    by (auto simp: r_parse_rate_response_pdu_def response_ok_def wire_lens mem_simps pdu_type_of_def
        pdu_size_of_def Let_def)
next
  case True
  have inb: "8 + (pdu_size_of pdu - 8) \<le> length pdu" using True assms by simp
  have n8: "\<not> pdu_size_of pdu < 8" "\<not> pdu_size_of pdu - 8 < 4" "\<not> pdu_len < pdu_size_of pdu"
    "\<not> pdu_len < 8"
    using True by auto
  have r: "r_le16 pdu 0 = Some R_PDU_RATE_RESPONSE" "r_le16 pdu 2 = Some (le_word (take 2 (drop 2 pdu)))"
    "r_le16 pdu 8 = Some (le_word (take 2 (drop 8 pdu)))"
    "r_le16 pdu (8 + 2) = Some (le_word (take 2 (drop 10 pdu)))"
    using True assms by (simp_all add: mem_simps pdu_type_of_def)
  show ?thesis
    unfolding r_parse_rate_response_pdu_def wire_lens Let_def r Option.bind.simps
      pdu_size_of_def [symmetric] resp_guard_count_def [symmetric]
      resp_resource_count_def [symmetric] r_parse_guard_results_eq [OF inb]
      r_parse_resource_results_eq [OF inb]
    using True n8
    by (auto simp: response_ok_def resp_guards_def resp_resources_def decision_def
        guard_wire.dec_array_def)
qed

text \<open>The bytes of a response and how it reads.\<close>

definition response_body_bytes :: "r_guard_block list \<Rightarrow> r_resource_block list \<Rightarrow> byte list" where
  "response_body_bytes gs rs =
     le_bytes 2 (of_nat (length gs) :: u16) @ le_bytes 2 (of_nat (length rs) :: u16)
     @ guard_wire.enc_array gs @ resource_wire.enc_array rs"

lemma length_response_body_bytes:
  "list_all (\<lambda>b. length (gb_latency_tracker_id b) = 16) gs \<Longrightarrow>
   list_all (\<lambda>b. length (rb_bucket_id b) = 16) rs \<Longrightarrow>
   length (response_body_bytes gs rs) = 4 + length gs * 36 + length rs * 28"
  by (simp add: response_body_bytes_def guard_wire.length_enc_array resource_wire.length_enc_array)

lemma unat_of_nat_u16: "n \<le> 0xffff \<Longrightarrow> unat (of_nat n :: u16) = n"
  by (simp add: unat_of_nat take_bit_nat_eq_self)

lemma le16_field:
  "n \<le> 0xffff \<Longrightarrow> unat (le_word (take 2 (le_bytes 2 (of_nat n :: u16) @ rest)) :: u16) = n"
  by (simp add: le_word_le_bytes unat_of_nat_u16)

lemma response_reads_back:
  assumes wf: "list_all (\<lambda>b. length (gb_latency_tracker_id b) = 16) gs"
      "list_all (\<lambda>b. length (rb_bucket_id b) = 16) rs"
    and fit: "12 + length gs * 36 + length rs * 28 \<le> 0xffff"
    and p: "pdu = pdu_bytes R_PDU_RATE_RESPONSE aux (response_body_bytes gs rs) @ rest"
  shows "pdu_type_of pdu = R_PDU_RATE_RESPONSE"
    and "pdu_size_of pdu = 12 + length gs * 36 + length rs * 28"
    and "resp_guard_count pdu = length gs" and "resp_resource_count pdu = length rs"
    and "resp_guards pdu = map guard_result_of gs"
    and "resp_resources pdu = map resource_result_of rs"
proof -
  note len = length_response_body_bytes [OF wf]
  have g: "length gs \<le> 0xffff" and r: "length rs \<le> 0xffff" using fit by auto
  show "pdu_type_of pdu = R_PDU_RATE_RESPONSE"
    by (simp add: p pdu_type_of_def pdu_bytes_def le_word_le_bytes)
  have sz: "8 + length (response_body_bytes gs rs) \<le> 0xffff" using fit len by simp
  show "pdu_size_of pdu = 12 + length gs * 36 + length rs * 28"
    using le16_field [OF sz] len by (simp add: p pdu_size_of_def pdu_bytes_def)
  show gc: "resp_guard_count pdu = length gs"
    using le16_field [OF g] by (simp add: p resp_guard_count_def pdu_bytes_def response_body_bytes_def)
  show rc: "resp_resource_count pdu = length rs"
    using le16_field [OF r] by (simp add: p resp_resource_count_def pdu_bytes_def response_body_bytes_def)
  have d: "drop 12 pdu = guard_wire.enc_array gs @ resource_wire.enc_array rs @ rest"
    by (simp add: p pdu_bytes_def response_body_bytes_def)
  show "resp_guards pdu = map guard_result_of gs"
    unfolding resp_guards_def gc d by (simp add: guard_wire.dec_array_enc_array [OF wf(1)])
  have "drop (12 + length gs * 36) pdu = drop (length gs * 36) (drop 12 pdu)"
    by (simp add: ac_simps)
  also have "\<dots> = resource_wire.enc_array rs @ rest"
    unfolding d using guard_wire.length_enc_array [OF wf(1)] by simp
  finally show "resp_resources pdu = map resource_result_of rs"
    unfolding resp_resources_def gc rc by (simp add: resource_wire.dec_array_enc_array [OF wf(2)])
qed

subsection \<open>Properties of the wire protocol\<close>

text \<open>
  (C8) The response parser, which reads bytes sent by anybody on the network, never accesses memory
  outside the datagram, whatever the bytes and the declared counts are; it never fills a result
  array beyond the capacity it was given; and the decision it reports is true exactly when every
  guard's measured latency is below its threshold and every resource has deficit zero.
\<close>

theorem parse_rate_response_safe:
  assumes "pdu_len \<le> length pdu"
  shows "\<exists>r. r_parse_rate_response_pdu pdu pdu_len guard_cap res_cap = Some r \<and>
    (case r of
       Inl e \<Rightarrow> e = RCLIENT_ERR_PROTOCOL
     | Inr (guards, resources, success) \<Rightarrow>
         length guards \<le> guard_cap \<and> length resources \<le> res_cap \<and>
         (success \<longleftrightarrow> (\<forall>g \<in> set guards. gr_current_latency_ms g < gr_threshold_ms g)
                      \<and> (\<forall>r \<in> set resources. tokens_deficit r = 0)))"
  using assms
  by (auto simp: r_parse_rate_response_pdu_eq response_ok_def decision_def list_all_iff
      resp_guards_def resp_resources_def guard_result_of_def guard_wire.dec_array_def
      resource_wire.dec_array_def)

definition sample_response :: "byte list" where
  "sample_response = pdu_bytes R_PDU_RATE_RESPONSE 0 (response_body_bytes
     [\<lparr>gb_latency_tracker_id = replicate 16 1, gb_ttl_ms = 10, gb_max_samples = 5,
       gb_min_sample_threshold = 1, gb_latency_threshold = 100, gb_current_latency = 7\<rparr>]
     [\<lparr>rb_bucket_id = replicate 16 2, rb_window_size_ms = 1000, rb_rate_limit = 3,
       rb_tokens_requested = 4, rb_padding = 0\<rparr>])"

theorem parse_rate_response_safe_witness:
  "76 \<le> length sample_response \<and>
   (\<exists>r. r_parse_rate_response_pdu sample_response 76 1 1 = Some r \<and>
    (case r of
       Inl e \<Rightarrow> e = RCLIENT_ERR_PROTOCOL
     | Inr (guards, resources, success) \<Rightarrow>
         length guards \<le> 1 \<and> length resources \<le> 1 \<and>
         (success \<longleftrightarrow> (\<forall>g \<in> set guards. gr_current_latency_ms g < gr_threshold_ms g)
                      \<and> (\<forall>r \<in> set resources. tokens_deficit r = 0))))"
proof -
  have l: "76 \<le> length sample_response"
    by (simp add: sample_response_def length_pdu_bytes length_response_body_bytes)
  show ?thesis using l parse_rate_response_safe [OF l, of 1 1] by simp
qed

lemma parse_encoded_response:
  assumes "list_all (\<lambda>b. length (gb_latency_tracker_id b) = 16) gs"
    and "list_all (\<lambda>b. length (rb_bucket_id b) = 16) rs"
    and "12 + length gs * 36 + length rs * 28 \<le> 0xffff"
    and "length gs \<le> guard_cap" and "length rs \<le> res_cap"
    and "pdu = pdu_bytes R_PDU_RATE_RESPONSE aux (response_body_bytes gs rs) @ rest"
  shows "r_parse_rate_response_pdu pdu (length pdu) guard_cap res_cap =
    Some (Inr (map guard_result_of gs, map resource_result_of rs,
      list_all (\<lambda>b. gb_current_latency b < gb_latency_threshold b) gs
      \<and> list_all (\<lambda>b. rb_tokens_requested b = 0) rs))"
proof -
  note rb = response_reads_back [OF assms(1-3,6)]
  have "length pdu = 12 + length gs * 36 + length rs * 28 + length rest"
    using assms(6) by (simp add: length_pdu_bytes length_response_body_bytes [OF assms(1,2)])
  then have "response_ok pdu (length pdu) guard_cap res_cap"
    using rb assms by (simp add: response_ok_def)
  then show ?thesis
    by (simp add: r_parse_rate_response_pdu_eq rb decision_def list_all_iff guard_result_of_def
        resource_result_of_def)
qed

text \<open>
  (C9) A response that a server encodes from guard and resource blocks parses back, in any buffer
  that starts with it, to exactly those blocks' results and to the conjunction of their verdicts.
\<close>

theorem parse_rate_response_roundtrip:
  assumes "list_all (\<lambda>b. length (gb_latency_tracker_id b) = 16) gs"
    and "list_all (\<lambda>b. length (rb_bucket_id b) = 16) rs"
    and "12 + length gs * 36 + length rs * 28 \<le> 0xffff"
    and "length gs \<le> guard_cap" and "length rs \<le> res_cap"
    and "pdu = pdu_bytes R_PDU_RATE_RESPONSE aux (response_body_bytes gs rs) @ rest"
  shows "r_parse_rate_response_pdu pdu (length pdu) guard_cap res_cap =
    Some (Inr (map guard_result_of gs, map resource_result_of rs,
      list_all (\<lambda>b. gb_current_latency b < gb_latency_threshold b) gs
      \<and> list_all (\<lambda>b. rb_tokens_requested b = 0) rs))"
  using assms by (rule parse_encoded_response)

theorem parse_rate_response_roundtrip_witness:
  "r_parse_rate_response_pdu sample_response (length sample_response) 1 1 =
    Some (Inr ([\<lparr>gr_latency_tracker_id = replicate 16 1, gr_threshold_ms = 100,
                 gr_current_latency_ms = 7, passed = True\<rparr>],
               [\<lparr>res_bucket_id = replicate 16 2, tokens_deficit = 4, actual_rate = 3\<rparr>], False))"
  using parse_rate_response_roundtrip [of
     "[\<lparr>gb_latency_tracker_id = replicate 16 1, gb_ttl_ms = 10, gb_max_samples = 5,
       gb_min_sample_threshold = 1, gb_latency_threshold = 100, gb_current_latency = 7\<rparr>]"
     "[\<lparr>rb_bucket_id = replicate 16 2, rb_window_size_ms = 1000, rb_rate_limit = 3,
       rb_tokens_requested = 4, rb_padding = 0\<rparr>]" 1 1 sample_response 0 "[]"]
  by (simp add: sample_response_def guard_result_of_def resource_result_of_def)

text \<open>
  (C10) The request-body builder never writes outside the output buffer.  It fails, with the
  protocol error, exactly when a count or the label does not fit its 16-bit field or the body does
  not fit the capacity; otherwise the bytes written are the reference encoding of the guards, the
  resources and the label, and the rest of the buffer is untouched.
\<close>

theorem build_rate_request_body_exact:
  assumes "list_all wf_resource resources" and "list_all wf_guard guards"
    and "wf_label label label_len" and "out_cap \<le> length out"
    and "body = rate_request_body_bytes resources guards label label_len"
  shows "r_build_rate_request_body resources guards label label_len out out_cap =
    Some (if length resources \<le> 0xffff \<and> length guards \<le> 0xffff \<and> label_fits label label_len
             \<and> length body \<le> out_cap
          then Inr (body @ drop (length body) out, length body)
          else Inl RCLIENT_ERR_PROTOCOL)"
  using rate_request_body_eq [OF assms] by simp

theorem build_rate_request_body_exact_witness:
  "r_build_rate_request_body
     [\<lparr>bucket_id = replicate 16 9, window_size_ms = 1000, rate_limit = 100, tokens_requested = 1\<rparr>]
     [] (Some [0x61, 0x62]) 0 (replicate 50 0xff) 50 =
   Some (Inr ([0, 0, 1, 0] @ replicate 16 9 @ [0xe8, 3, 0, 0, 100, 0, 0, 0, 1, 0, 0, 0]
              @ [0x4d, 0x4c, 8, 0, 2, 0, 0x61, 0x62] @ replicate 10 0xff, 40))"
proof -
  let ?r = "[\<lparr>bucket_id = replicate 16 9, window_size_ms = 1000, rate_limit = 100, tokens_requested = 1\<rparr>]"
  have body: "rate_request_body_bytes ?r [] (Some [0x61, 0x62]) 0 =
      [0, 0, 1, 0] @ replicate 16 9 @ [0xe8, 3, 0, 0, 100, 0, 0, 0, 1, 0, 0, 0]
      @ [0x4d, 0x4c, 8, 0, 2, 0, 0x61, 0x62]"
    by code_simp
      (simp add: guard_wire.enc_array_def resource_wire.enc_array_def resource_block_bytes_def
        le_bytes_2 le_bytes_4 drop_bit_eq_div)
  show ?thesis
    using build_rate_request_body_exact [of ?r "[]" "Some [0x61, 0x62]" 0 50 "replicate 50 0xff", OF _ _ _ _ body [symmetric]]
    by (simp add: wf_resource_def wf_label_def label_fits_def label_text_def c_string_def
        label_tlv_size_def)
qed

text \<open>
  (C13) A tenant header written at the front of a buffer is read back unchanged by the header
  parser, with the offset of the authentication TLV right behind it; the header's request identity
  and server identity are also what the two peek functions report.
\<close>

theorem tenant_header_roundtrip:
  assumes "wf_tenant h" and "tlv_type h = R_TLV_TENANT" and "unat (tlv_size h) = R_TENANT_TLV_LEN"
    and "40 \<le> length buf"
  shows "\<exists>buf'. r_tenant_header_write h buf 40 = Some buf' \<and> length buf' = length buf
     \<and> drop 40 buf' = drop 40 buf
     \<and> r_parse_tenant_header buf' (length buf') = Some (Inr (h, 40))
     \<and> r_peek_server_id buf' (length buf') = Some (key_id h, True)
     \<and> r_peek_request_id buf' (length buf') = Some (Inr (unique_id h))"
proof -
  let ?b = "tenant_bytes h @ drop 40 buf"
  have l: "length (tenant_bytes h) = 40" using assms(1) by (rule tenant_wire.length_enc)
  have w: "r_tenant_header_write h buf 40 = Some ?b"
    using assms l wr_bytes_0 [of "tenant_bytes h" buf]
    by (simp add: r_tenant_header_write_eq wire_lens)
  have sz: "unat (tlv_size h) = 40" using assms(3) by (simp add: wire_lens)
  have lb: "length ?b = length buf" using assms(4) l by simp
  have "40 \<le> length ?b" using assms(4) lb by simp
  note ok = tenant_ok_bytes(1) [OF assms(1,2) sz, of "drop 40 buf"]
    tenant_ok_bytes(2) [OF assms(1,2) sz \<open>40 \<le> length ?b\<close>]
  show ?thesis
    using w l lb sz ok
    by (simp add: r_parse_tenant_header_eq r_peek_server_id_eq r_peek_request_id_eq)
qed

definition sample_header :: r_tenant_header where
  "sample_header = \<lparr>tlv_type = R_TLV_TENANT, tlv_size = 40, key_id = 77,
     unique_id = replicate 16 3, time_stamp = 1000, steering_feedback = 0, tenant_mgmt_flag = 0,
     padding = [0, 0]\<rparr>"

theorem tenant_header_roundtrip_witness:
  "\<exists>buf'. r_tenant_header_write sample_header (replicate 44 0) 40 = Some buf' \<and> length buf' = 44
     \<and> r_parse_tenant_header buf' (length buf') = Some (Inr (sample_header, 40))"
  using tenant_header_roundtrip [of sample_header "replicate 44 0"]
  by (auto simp: sample_header_def wf_tenant_def wire_lens)

end
