(* ===== verification/Crypto.thy ===== *)
theory Crypto
  imports Protocol
begin

text \<open>
  \<^verbatim>\<open>src/r_crypto.c\<close>: the Bech32 credential decoder, the BLAKE2s content identities and the AES-GCM
  packet cipher.  The definitions follow the order of the C file.

  OpenSSL is not part of the sources: the hash, the cipher and the random generator are
  parameters.  An \<open>EVP\<close> call sequence that fails at some step is the value \<open>None\<close> of the parameter.
  What \<open>malloc\<close> does is a parameter too: \<open>al k\<close> is the outcome of the \<open>k\<close>-th allocation of a call,
  either failure or a block with arbitrary initial contents.
\<close>

type_synonym allocs = "nat \<Rightarrow> (nat \<Rightarrow> byte) option"

type_synonym 'a stat = "(unit + 'a) option"

definition malloc :: "allocs \<Rightarrow> nat \<Rightarrow> nat \<Rightarrow> byte list option" where
  "malloc al k n = (case al k of None \<Rightarrow> None | Some junk \<Rightarrow> Some (map junk [0..<n]))"

lemma malloc_length: "malloc al k n = Some b \<Longrightarrow> length b = n"
  by (auto simp: malloc_def split: option.splits)

datatype r_auth_type = R_AUTH_COOKIE | R_AUTH_AES_GCM

record r_bech32_quotas =
  format_version :: byte
  rate_buckets_max :: u32
  latency_services_max :: u32
  metrics_labels_max :: u32
  latency_buffer_size_max :: u32
  dedup_ttl_ms_max :: u32
  rate_window_size_ms_max :: u32

subsection \<open>Bech32\<close>

definition k_bech32_gen :: "u32 list" where
  "k_bech32_gen = [0x3B6A57B2, 0x26508E6D, 0x1EA119FA, 0x3D4233DD, 0x2A1462B3]"

definition bech32_cases :: "(char \<times> byte) list" where
  "bech32_cases =
    [(CHR ''q'', 0), (CHR ''p'', 1), (CHR ''z'', 2), (CHR ''r'', 3),
     (CHR ''y'', 4), (CHR ''9'', 5), (CHR ''x'', 6), (CHR ''8'', 7),
     (CHR ''g'', 8), (CHR ''f'', 9), (CHR ''2'', 10), (CHR ''t'', 11),
     (CHR ''v'', 12), (CHR ''d'', 13), (CHR ''w'', 14), (CHR ''0'', 15),
     (CHR ''s'', 16), (CHR ''3'', 17), (CHR ''j'', 18), (CHR ''n'', 19),
     (CHR ''5'', 20), (CHR ''4'', 21), (CHR ''k'', 22), (CHR ''h'', 23),
     (CHR ''c'', 24), (CHR ''e'', 25), (CHR ''6'', 26), (CHR ''m'', 27),
     (CHR ''u'', 28), (CHR ''a'', 29), (CHR ''7'', 30), (CHR ''l'', 31)]"

definition r_bech32_char_value :: "byte \<Rightarrow> byte option" where
  "r_bech32_char_value c = map_of (map (\<lambda>(ch, v). (of_char ch, v)) bech32_cases) c"

definition r_bech32_step :: "u32 \<Rightarrow> byte \<Rightarrow> u32" where
  "r_bech32_step chk value =
    (let v = ucast value;
         b = drop_bit 25 chk;
         chk = push_bit 5 (chk AND 0x1FFFFFF) XOR v
     in foldl (\<lambda>chk j. if drop_bit j b AND 1 \<noteq> 0 then chk XOR k_bech32_gen ! j else chk)
          chk [0..<5])"

definition r_bech32_polymod :: "byte list \<Rightarrow> u32" where
  "r_bech32_polymod values = foldl r_bech32_step 1 values"

fun r_put_mapped :: "(byte \<Rightarrow> byte) \<Rightarrow> byte list \<Rightarrow> byte list \<Rightarrow> nat \<Rightarrow> byte list option" where
  "r_put_mapped f [] buf pos = Some buf"
| "r_put_mapped f (c # cs) buf pos =
    do { buf \<leftarrow> wr8 buf pos (f c); r_put_mapped f cs buf (pos + 1) }"

definition r_bech32_verify_checksum :: "allocs \<Rightarrow> byte list \<Rightarrow> byte list \<Rightarrow> nat \<Rightarrow> bool option" where
  "r_bech32_verify_checksum al hrp data data_len =
    (let hrp_len = strlen hrp; values_len = hrp_len * 2 + 1 + data_len in
     case malloc al 2 values_len of
       None \<Rightarrow> Some False
     | Some values \<Rightarrow> do {
         values \<leftarrow> r_put_mapped (\<lambda>c. drop_bit 5 c) (take hrp_len hrp) values 0;
         values \<leftarrow> wr8 values hrp_len 0;
         values \<leftarrow> r_put_mapped (\<lambda>c. c AND 31) (take hrp_len hrp) values (hrp_len + 1);
         d \<leftarrow> rd_bytes data 0 data_len;
         values \<leftarrow> wr_bytes values (hrp_len + 1 + hrp_len) d;
         Some (r_bech32_polymod values = 1) })"

text \<open>The inner \<open>while (bits >= 8)\<close> of the bit regrouping, and the loop over the input.\<close>

fun r_convert_drain ::
  "u32 \<Rightarrow> nat \<Rightarrow> nat \<Rightarrow> byte list \<Rightarrow> nat \<Rightarrow> (nat \<times> nat \<times> byte list) stat" where
  "r_convert_drain acc bits pos out out_cap =
    (if bits \<ge> 8 then
       (let bits = bits - 8 in
        if pos \<ge> out_cap then Some (Inl ())
        else do {
          out \<leftarrow> wr8 out pos (ucast (drop_bit bits acc AND 0xFF));
          r_convert_drain acc bits (pos + 1) out out_cap })
     else Some (Inr (bits, pos, out)))"

declare r_convert_drain.simps [simp del]

fun r_convert_loop ::
  "byte list \<Rightarrow> u32 \<Rightarrow> nat \<Rightarrow> nat \<Rightarrow> byte list \<Rightarrow> nat \<Rightarrow> (u32 \<times> nat \<times> nat \<times> byte list) stat" where
  "r_convert_loop [] acc bits pos out out_cap = Some (Inr (acc, bits, pos, out))"
| "r_convert_loop (value # vs) acc bits pos out out_cap =
    (if drop_bit 5 value \<noteq> 0 then Some (Inl ())
     else (let acc = (push_bit 5 acc OR ucast value) AND 0x0FFF in
       do {
         r \<leftarrow> r_convert_drain acc (bits + 5) pos out out_cap;
         case r of
           Inl e \<Rightarrow> Some (Inl ())
         | Inr (bits, pos, out) \<Rightarrow> r_convert_loop vs acc bits pos out out_cap }))"

definition r_convert_bits_5_to_8_no_pad ::
  "byte list \<Rightarrow> nat \<Rightarrow> byte list \<Rightarrow> nat \<Rightarrow> (byte list \<times> nat) stat" where
  "r_convert_bits_5_to_8_no_pad inp in_len out out_cap =
    do {
      inp \<leftarrow> rd_bytes inp 0 in_len;
      r \<leftarrow> r_convert_loop inp 0 0 0 out out_cap;
      case r of
        Inl e \<Rightarrow> Some (Inl ())
      | Inr (acc, bits, pos, out) \<Rightarrow>
          if bits \<ge> 5 then Some (Inl ())
          else if push_bit (8 - bits) acc AND 0xFF \<noteq> 0 then Some (Inl ())
          else Some (Inr (out, pos)) }"

subsection \<open>Credential payload\<close>

definition r_read_le64_local :: "byte list \<Rightarrow> nat \<Rightarrow> u64 option" where
  "r_read_le64_local p i =
    do { b0 \<leftarrow> rd8 p i; b1 \<leftarrow> rd8 p (i + 1); b2 \<leftarrow> rd8 p (i + 2); b3 \<leftarrow> rd8 p (i + 3);
         b4 \<leftarrow> rd8 p (i + 4); b5 \<leftarrow> rd8 p (i + 5); b6 \<leftarrow> rd8 p (i + 6); b7 \<leftarrow> rd8 p (i + 7);
         Some (ucast b0 OR push_bit 8 (ucast b1) OR push_bit 16 (ucast b2) OR push_bit 24 (ucast b3)
           OR push_bit 32 (ucast b4) OR push_bit 40 (ucast b5) OR push_bit 48 (ucast b6)
           OR push_bit 56 (ucast b7)) }"

definition r_read_le32_local :: "byte list \<Rightarrow> nat \<Rightarrow> u32 option" where
  "r_read_le32_local p i =
    do { b0 \<leftarrow> rd8 p i; b1 \<leftarrow> rd8 p (i + 1); b2 \<leftarrow> rd8 p (i + 2); b3 \<leftarrow> rd8 p (i + 3);
         Some (ucast b0 OR push_bit 8 (ucast b1) OR push_bit 16 (ucast b2)
           OR push_bit 24 (ucast b3)) }"

definition R_CREDENTIAL_FORMAT_VERSION :: byte where "R_CREDENTIAL_FORMAT_VERSION = 1"
definition R_CREDENTIAL_KEY_ID_OFFSET :: nat where "R_CREDENTIAL_KEY_ID_OFFSET = 1"
definition R_CREDENTIAL_SECRET_LEN :: nat where "R_CREDENTIAL_SECRET_LEN = 32"
definition R_CREDENTIAL_SECRET_OFFSET :: nat where
  "R_CREDENTIAL_SECRET_OFFSET = R_CREDENTIAL_KEY_ID_OFFSET + 8"
definition R_CREDENTIAL_QUOTA_OFFSET :: nat where
  "R_CREDENTIAL_QUOTA_OFFSET = R_CREDENTIAL_SECRET_OFFSET + R_CREDENTIAL_SECRET_LEN"
definition R_CREDENTIAL_QUOTA_LEN :: nat where "R_CREDENTIAL_QUOTA_LEN = 4"
definition R_CREDENTIAL_PAYLOAD_LEN :: nat where
  "R_CREDENTIAL_PAYLOAD_LEN = R_CREDENTIAL_QUOTA_OFFSET + R_CREDENTIAL_QUOTA_LEN"

lemmas credential_layout = R_CREDENTIAL_KEY_ID_OFFSET_def R_CREDENTIAL_SECRET_LEN_def
  R_CREDENTIAL_SECRET_OFFSET_def R_CREDENTIAL_QUOTA_OFFSET_def R_CREDENTIAL_QUOTA_LEN_def
  R_CREDENTIAL_PAYLOAD_LEN_def R_CREDENTIAL_FORMAT_VERSION_def

definition r_decode_quota_word :: "u32 \<Rightarrow> r_bech32_quotas option" where
  "r_decode_quota_word word =
    (let rate_exp = word AND 0x1f;
         latency_exp = drop_bit 5 word AND 0x1f;
         labels_exp = drop_bit 10 word AND 0x1f;
         buffer_exp = drop_bit 15 word AND 0x0f;
         dedup_units = drop_bit 19 word AND 0xff;
         window_exp = drop_bit 27 word AND 0x1f
     in if rate_exp > 24 \<or> latency_exp > 24 \<or> dedup_units < 1 \<or> dedup_units > 200 then None
        else Some \<lparr>
          format_version = R_CREDENTIAL_FORMAT_VERSION,
          rate_buckets_max = push_bit (unat rate_exp) 1,
          latency_services_max = push_bit (unat latency_exp) 1,
          metrics_labels_max = push_bit (unat labels_exp) 1,
          latency_buffer_size_max = push_bit (unat buffer_exp) 1,
          dedup_ttl_ms_max = dedup_units * 10,
          rate_window_size_ms_max =
            (if window_exp = 31 then UINT32_MAX else push_bit (unat window_exp) 1)\<rparr>)"

subsection \<open>Content identities\<close>

type_synonym hash_fn = "byte list \<Rightarrow> byte list option"

definition r_hash_content_id_blake2s_128 ::
  "hash_fn \<Rightarrow> byte list option \<Rightarrow> byte list option \<Rightarrow> u32 list \<Rightarrow> byte list option" where
  "r_hash_content_id_blake2s_128 blake2s256 domain name flds =
    (case domain of
       None \<Rightarrow> None
     | Some domain \<Rightarrow>
         (let name_bytes = (case name of None \<Rightarrow> [] | Some n \<Rightarrow> n) in
          if domain = [] \<or> length name_bytes > unat UINT32_MAX then None
          else
            (case blake2s256
                (domain @ le_bytes 4 (of_nat (length name_bytes) :: u32) @ name_bytes
                 @ concat (map (\<lambda>field. le_bytes 4 field) flds)) of
               None \<Rightarrow> None
             | Some digest \<Rightarrow> if length digest < 16 then None else Some (take 16 digest))))"

subsection \<open>Decoding a credential\<close>

definition islower :: "byte \<Rightarrow> bool" where "islower c \<longleftrightarrow> 97 \<le> c \<and> c \<le> 122"
definition isupper :: "byte \<Rightarrow> bool" where "isupper c \<longleftrightarrow> 65 \<le> c \<and> c \<le> 90"
definition tolower :: "byte \<Rightarrow> byte" where "tolower c = (if isupper c then c + 32 else c)"

text \<open>\<open>strrchr\<close>: the index of the last occurrence of a character in a C string.\<close>

fun strrchr :: "byte list \<Rightarrow> byte \<Rightarrow> nat option" where
  "strrchr [] c = None"
| "strrchr (x # xs) c =
    (case strrchr xs c of Some i \<Rightarrow> Some (i + 1) | None \<Rightarrow> if x = c then Some 0 else None)"

text \<open>The scan of the characters: \<open>None\<close> is the early return \<open>-1\<close>.\<close>

fun r_scan_case :: "byte list \<Rightarrow> bool \<Rightarrow> bool \<Rightarrow> (bool \<times> bool) option" where
  "r_scan_case [] has_lower has_upper = Some (has_lower, has_upper)"
| "r_scan_case (c # cs) has_lower has_upper =
    (if c < 33 \<or> c > 126 then None
     else r_scan_case cs (has_lower \<or> islower c) (has_upper \<or> isupper c))"

text \<open>The loop that fills \<open>data\<close>; \<open>n\<close> counts the remaining characters.\<close>

fun r_data_loop :: "byte list \<Rightarrow> nat \<Rightarrow> nat \<Rightarrow> nat \<Rightarrow> byte list \<Rightarrow> byte list stat" where
  "r_data_loop s sep i 0 data = Some (Inr data)"
| "r_data_loop s sep i (Suc n) data =
    do {
      c \<leftarrow> rd8 s (sep + (1 + i));
      case r_bech32_char_value c of
        None \<Rightarrow> Some (Inl ())
      | Some v \<Rightarrow> do { data \<leftarrow> wr8 data i v; r_data_loop s sep (i + 1) n data } }"

text \<open>The out parameters of the decoder; they keep what was written before a late failure.\<close>

record api_key_out =
  out_type :: r_auth_type
  out_key_id :: u64
  out_secret :: "byte list"
  out_secret_len :: nat

text \<open>The part behind the Bech32 layer: interpretation of the payload bytes.\<close>

definition r_decode_payload ::
  "byte list \<Rightarrow> byte list \<Rightarrow> nat \<Rightarrow> nat \<Rightarrow> api_key_out
     \<Rightarrow> (bool \<times> api_key_out \<times> r_bech32_quotas option) option" where
  "r_decode_payload s payload payload_len out_secret_cap out =
    (case (if strcmp_eq s (cstr ''rl-cookie'') then Some R_AUTH_COOKIE
           else if strcmp_eq s (cstr ''rl-aes'') then Some R_AUTH_AES_GCM
           else None) of
       None \<Rightarrow> Some (False, out, None)
     | Some auth_type \<Rightarrow>
         if payload_len \<noteq> R_CREDENTIAL_PAYLOAD_LEN then Some (False, out, None)
         else do {
           v \<leftarrow> rd8 payload 0;
           if v \<noteq> R_CREDENTIAL_FORMAT_VERSION then Some (False, out, None)
           else do {
             key_id \<leftarrow> r_read_le64_local payload R_CREDENTIAL_KEY_ID_OFFSET;
             if R_CREDENTIAL_SECRET_LEN > out_secret_cap then Some (False, out, None)
             else do {
               secret \<leftarrow> rd_bytes payload R_CREDENTIAL_SECRET_OFFSET R_CREDENTIAL_SECRET_LEN;
               buf \<leftarrow> wr_bytes (out_secret out) 0 secret;
               let out = \<lparr>out_type = auth_type, out_key_id = key_id, out_secret = buf,
                          out_secret_len = R_CREDENTIAL_SECRET_LEN\<rparr>;
               if payload_len < R_CREDENTIAL_QUOTA_OFFSET + R_CREDENTIAL_QUOTA_LEN
               then Some (False, out, None)
               else do {
                 w \<leftarrow> r_read_le32_local payload R_CREDENTIAL_QUOTA_OFFSET;
                 case r_decode_quota_word w of
                   None \<Rightarrow> Some (False, out, None)
                 | Some q \<Rightarrow> Some (True, out, Some q) }}}})"

text \<open>The part behind \<open>strrchr\<close>: \<open>s\<close> is the lower-case copy and \<open>hrp_len\<close> the separator's index.\<close>

definition r_decode_separated ::
  "allocs \<Rightarrow> byte list \<Rightarrow> nat \<Rightarrow> nat \<Rightarrow> nat \<Rightarrow> api_key_out
     \<Rightarrow> (bool \<times> api_key_out \<times> r_bech32_quotas option) option" where
  "r_decode_separated al s enc_len hrp_len out_secret_cap out =
    (let fail = Some (False, out, None) in
     if hrp_len < 1 then fail
     else let data_chars_len = enc_len - hrp_len - 1 in
     if data_chars_len < 6 then fail
     else do {
       s \<leftarrow> wr8 s hrp_len 0;
       case malloc al 1 data_chars_len of
         None \<Rightarrow> fail
       | Some data \<Rightarrow> do {
           r \<leftarrow> r_data_loop s hrp_len 0 data_chars_len data;
           case r of
             Inl e \<Rightarrow> fail
           | Inr data \<Rightarrow> do {
               ok \<leftarrow> r_bech32_verify_checksum al s data data_chars_len;
               if \<not> ok then fail
               else
                 let payload5_len = data_chars_len - 6;
                     payload_cap = (payload5_len * 5) div 8 + 2 in
                 case malloc al 3 payload_cap of
                   None \<Rightarrow> fail
                 | Some payload \<Rightarrow> do {
                     r \<leftarrow> r_convert_bits_5_to_8_no_pad data payload5_len payload payload_cap;
                     case r of
                       Inl e \<Rightarrow> fail
                     | Inr (payload, payload_len) \<Rightarrow>
                         r_decode_payload s payload payload_len out_secret_cap out }}}})"

definition r_decode_api_key_bech32_with_quotas ::
  "allocs \<Rightarrow> byte list option \<Rightarrow> nat \<Rightarrow> api_key_out
     \<Rightarrow> (bool \<times> api_key_out \<times> r_bech32_quotas option) option" where
  "r_decode_api_key_bech32_with_quotas al encoded out_secret_cap out =
    (let fail = Some (False, out, None) in
     case encoded of
       None \<Rightarrow> fail
     | Some encoded \<Rightarrow>
        let enc = c_string encoded; enc_len = strlen encoded in
        if enc_len = 0 then fail
        else case r_scan_case enc False False of
          None \<Rightarrow> fail
        | Some (has_lower, has_upper) \<Rightarrow>
           if has_lower \<and> has_upper then fail
           else case malloc al 0 (enc_len + 1) of
             None \<Rightarrow> fail
           | Some s \<Rightarrow> do {
               s \<leftarrow> r_put_mapped tolower enc s 0;
               s \<leftarrow> wr8 s enc_len 0;
               case strrchr (c_string s) (of_char (CHR ''1'')) of
                 None \<Rightarrow> fail
               | Some hrp_len \<Rightarrow> r_decode_separated al s enc_len hrp_len out_secret_cap out })"

definition r_decode_api_key_bech32 ::
  "allocs \<Rightarrow> byte list option \<Rightarrow> nat \<Rightarrow> api_key_out \<Rightarrow> (bool \<times> api_key_out) option" where
  "r_decode_api_key_bech32 al encoded out_secret_cap out =
    do {
      (ok, out, _) \<leftarrow> r_decode_api_key_bech32_with_quotas al encoded out_secret_cap out;
      Some (ok, out) }"

subsection \<open>Packet cipher\<close>

text \<open>
  \<open>evp_encrypt key nonce aad plain\<close> is the ciphertext and the tag of the AES-256-GCM call sequence
  of OpenSSL, \<open>evp_decrypt key nonce aad tag cipher\<close> the plaintext when the tag verifies.
\<close>

type_synonym evp_encrypt = "byte list \<Rightarrow> byte list \<Rightarrow> byte list \<Rightarrow> byte list \<Rightarrow> (byte list \<times> byte list) option"
type_synonym evp_decrypt = "byte list \<Rightarrow> byte list \<Rightarrow> byte list \<Rightarrow> byte list \<Rightarrow> byte list \<Rightarrow> byte list option"

definition r_encrypt_pdu_aes_gcm ::
  "evp_encrypt \<Rightarrow> byte list option \<Rightarrow> byte list \<Rightarrow> byte list \<Rightarrow> byte list \<Rightarrow> byte list \<Rightarrow> nat
     \<Rightarrow> (byte list \<times> nat \<times> byte list \<times> byte list) stat" where
  "r_encrypt_pdu_aes_gcm evp_enc rand12 pdu key aad_prefix cipher cipher_cap =
    (if cipher_cap < length pdu then Some (Inl ())
     else case rand12 of
       None \<Rightarrow> Some (Inl ())
     | Some nonce \<Rightarrow>
         (case evp_enc key nonce (aad_prefix @ nonce) pdu of
            None \<Rightarrow> Some (Inl ())
          | Some (c, tag) \<Rightarrow> do {
              cipher \<leftarrow> wr_bytes cipher 0 c;
              Some (Inr (cipher, length c, nonce, tag)) }))"

definition r_decrypt_pdu_aes_gcm ::
  "evp_decrypt \<Rightarrow> byte list \<Rightarrow> byte list \<Rightarrow> byte list \<Rightarrow> byte list \<Rightarrow> byte list \<Rightarrow> byte list \<Rightarrow> nat
     \<Rightarrow> (byte list \<times> nat) stat" where
  "r_decrypt_pdu_aes_gcm evp_dec cipher key nonce tag aad out out_cap =
    (if out_cap < length cipher then Some (Inl ())
     else case evp_dec key nonce aad tag cipher of
       None \<Rightarrow> Some (Inl ())
     | Some plain \<Rightarrow> do {
         out \<leftarrow> wr_bytes out 0 plain;
         Some (Inr (out, length plain)) })"

subsection \<open>Facts: string and checksum loops\<close>

lemma r_put_mapped_eq:
  "pos \<le> length buf \<Longrightarrow> r_put_mapped f cs buf pos = wr_bytes buf pos (map f cs)"
proof (induction cs arbitrary: buf pos)
  case Nil
  then show ?case by (simp add: wr_bytes_Nil)
next
  case (Cons c cs)
  have "r_put_mapped f (c # cs) buf pos
      = (wr8 buf pos (f c) \<bind> (\<lambda>b. wr_bytes b (pos + length [f c]) (map f cs)))"
  proof (cases "wr8 buf pos (f c)")
    case None
    then show ?thesis by simp
  next
    case (Some b)
    then have "pos + 1 \<le> length buf" by (auto simp: wr_bytes_def split: if_splits)
    then show ?thesis using Some wr_bytes_length [OF Some] by (simp add: Cons.IH)
  qed
  then show ?case by (simp only: wr_bytes_append) simp
qed

definition hrp_expand :: "byte list \<Rightarrow> byte list" where
  "hrp_expand hrp = map (\<lambda>c. drop_bit 5 c) hrp @ [0] @ map (\<lambda>c. c AND 31) hrp"

lemma strlen_c_string: "length (c_string s) = strlen s"
  by (simp add: strlen_def c_string_def)

lemma r_bech32_verify_checksum_eq:
  assumes "data_len \<le> length data"
  shows "r_bech32_verify_checksum al hrp data data_len =
    Some (al 2 \<noteq> None \<and> r_bech32_polymod (hrp_expand (c_string hrp) @ take data_len data) = 1)"
proof (cases "malloc al 2 (strlen hrp * 2 + 1 + data_len)")
  case None
  then show ?thesis
    by (auto simp: r_bech32_verify_checksum_def malloc_def split: option.splits)
next
  case (Some vals)
  let ?h = "c_string hrp" let ?n = "strlen hrp"
  have al: "al 2 \<noteq> None" using Some by (auto simp: malloc_def split: option.splits)
  have l: "length vals = ?n * 2 + 1 + data_len" using Some by (rule malloc_length)
  have h: "take ?n hrp = ?h" by (simp add: c_string_take)
  have hl: "length ?h = ?n" by (rule strlen_c_string)
  let ?v1 = "map (\<lambda>c. drop_bit 5 c) ?h @ drop ?n vals"
  let ?v2 = "map (\<lambda>c. drop_bit 5 c) ?h @ [0] @ drop (?n + 1) vals"
  let ?v3 = "hrp_expand ?h @ drop (?n + 1 + ?n) vals"
  have 1: "r_put_mapped (\<lambda>c. drop_bit 5 c) ?h vals 0 = Some ?v1"
    using l hl by (simp add: r_put_mapped_eq wr_bytes_def)
  have 2: "wr8 ?v1 ?n 0 = Some ?v2" using l hl by (simp add: wr_bytes_def)
  have 3: "r_put_mapped (\<lambda>c. c AND 31) ?h ?v2 (?n + 1) = Some ?v3"
    using l hl by (simp add: r_put_mapped_eq wr_bytes_def hrp_expand_def)
  have 4: "wr_bytes ?v3 (?n + 1 + ?n) (take data_len data) = Some (hrp_expand ?h @ take data_len data)"
    using l hl assms by (simp add: wr_bytes_def hrp_expand_def)
  have 5: "rd_bytes data 0 data_len = Some (take data_len data)"
    using assms by (simp add: rd_bytes_def)
  show ?thesis
    unfolding r_bech32_verify_checksum_def Let_def Some
    by (simp only: option.case h 1 2 3 4 5 bind.bind_lunit al simp_thms)
qed

lemma r_data_loop_eq:
  assumes "sep + 1 + i + n \<le> length s" and "i + n \<le> length data"
  shows "r_data_loop s sep i n data =
    Some (case those (map r_bech32_char_value (take n (drop (sep + 1 + i) s))) of
      None \<Rightarrow> Inl ()
    | Some vs \<Rightarrow> Inr (take i data @ vs @ drop (i + n) data))"
  using assms
proof (induction n arbitrary: i data)
  case 0
  then show ?case by simp
next
  case (Suc n)
  let ?c = "s ! (sep + (1 + i))"
  have t: "take (Suc n) (drop (sep + 1 + i) s) = ?c # take n (drop (sep + 1 + (i + 1)) s)"
    using Suc.prems take_drop_Cons [of "sep + 1 + i" s n] by (simp add: ac_simps)
  have r: "rd8 s (sep + (1 + i)) = Some ?c" using Suc.prems by (simp add: rd8_def)
  show ?case
  proof (cases "r_bech32_char_value ?c")
    case None
    then show ?thesis using r t by simp
  next
    case (Some v)
    let ?d = "take i data @ [v] @ drop (i + 1) data"
    have w: "wr8 data i v = Some ?d" using Suc.prems by (simp add: wr_bytes_def)
    have ih: "r_data_loop s sep (i + 1) n ?d =
      Some (case those (map r_bech32_char_value (take n (drop (sep + 1 + (i + 1)) s))) of
        None \<Rightarrow> Inl ()
      | Some vs \<Rightarrow> Inr (take (i + 1) ?d @ vs @ drop (i + 1 + n) ?d))"
      using Suc.prems by (intro Suc.IH) auto
    have "take (i + 1) ?d = take i data @ [v]" "drop (i + 1 + n) ?d = drop (i + Suc n) data"
      using Suc.prems by (simp_all add: ac_simps)
    then show ?thesis using r t w ih Some
      by (simp only: r_data_loop.simps bind.bind_lunit option.case list.map those.simps)
        (simp split: option.splits)
  qed
qed

subsection \<open>Facts: regrouping of bits\<close>

text \<open>The number that a list of \<open>k\<close>-bit digits denotes, most significant digit first.\<close>

definition be_nat :: "nat \<Rightarrow> byte list \<Rightarrow> nat" where
  "be_nat k xs = foldl (\<lambda>a x. 2 ^ k * a + unat x) 0 xs"

primrec be_digits :: "nat \<Rightarrow> nat \<Rightarrow> nat \<Rightarrow> byte list" where
  "be_digits k 0 v = []"
| "be_digits k (Suc n) v = be_digits k n (v div 2 ^ k) @ [of_nat (v mod 2 ^ k)]"

abbreviation below :: "nat \<Rightarrow> byte list \<Rightarrow> bool" where
  "below k xs \<equiv> list_all (\<lambda>x. unat x < 2 ^ k) xs"

lemma be_nat_Nil [simp]: "be_nat k [] = 0"
  by (simp add: be_nat_def)

lemma be_nat_snoc [simp]: "be_nat k (xs @ [x]) = 2 ^ k * be_nat k xs + unat x"
  by (simp add: be_nat_def)

lemma be_nat_append: "be_nat k (xs @ ys) = be_nat k xs * 2 ^ (k * length ys) + be_nat k ys"
proof (induction ys rule: rev_induct)
  case Nil
  then show ?case by simp
next
  case (snoc y ys)
  have "be_nat k (xs @ ys @ [y]) = 2 ^ k * be_nat k (xs @ ys) + unat y"
    using be_nat_snoc [of k "xs @ ys" y] by simp
  then show ?case using snoc by (simp add: power_add algebra_simps)
qed

lemma be_nat_Cons: "be_nat k (x # ys) = unat x * 2 ^ (k * length ys) + be_nat k ys"
  using be_nat_append [of k "[x]" ys] be_nat_snoc [of k "[]" x] by simp

lemma be_nat_less: "below k xs \<Longrightarrow> be_nat k xs < 2 ^ (k * length xs)"
proof (induction xs rule: rev_induct)
  case Nil
  then show ?case by simp
next
  case (snoc x xs)
  then have "be_nat k xs + 1 \<le> 2 ^ (k * length xs)" and x: "unat x < 2 ^ k" by auto
  then have "2 ^ k * (be_nat k xs + 1) \<le> 2 ^ k * 2 ^ (k * length xs)"
    by (intro mult_le_mono2)
  then have "2 ^ k * be_nat k xs + 2 ^ k \<le> 2 ^ (k * length (xs @ [x]))"
    by (simp add: power_add algebra_simps)
  then show ?case using x be_nat_snoc [of k xs x] by linarith
qed

lemma length_be_digits [simp]: "length (be_digits k n v) = n"
  by (induction n arbitrary: v) auto

lemma unat_of_nat_digit: "k \<le> 8 \<Longrightarrow> unat (of_nat (v mod 2 ^ k) :: byte) = v mod 2 ^ k"
proof -
  assume "k \<le> 8"
  then have "(2::nat) ^ k \<le> 2 ^ 8" by (rule power_increasing) simp
  moreover have "v mod 2 ^ k < 2 ^ k" by simp
  ultimately have "v mod 2 ^ k < 2 ^ 8" by (rule less_le_trans [rotated])
  then show ?thesis by (simp add: unat_of_nat take_bit_nat_eq_self)
qed

lemma below_be_digits: "k \<le> 8 \<Longrightarrow> below k (be_digits k n v)"
  by (induction n arbitrary: v) (auto simp: unat_of_nat_digit)

lemma be_nat_be_digits: "k \<le> 8 \<Longrightarrow> be_nat k (be_digits k n v) = v mod 2 ^ (k * n)"
proof (induction n arbitrary: v)
  case 0
  then show ?case by simp
next
  case (Suc n)
  then show ?case
    by (simp add: unat_of_nat_digit power_add mod_mult2_eq)
qed

lemma be_digits_be_nat: "below k xs \<Longrightarrow> be_digits k (length xs) (be_nat k xs) = xs"
  by (induction xs rule: rev_induct) auto

lemma unat_small_byte: "drop_bit 5 (v :: byte) = 0 \<longleftrightarrow> unat v < 32"
  by (auto simp: drop_bit_eq_div word_unat_eq_iff unat_div div_eq_0_iff)

text \<open>One round of the loop on the accumulator, as arithmetic.\<close>

lemma convert_acc:
  assumes "unat (acc :: u32) < 2 ^ 12" and "unat (v :: byte) < 32"
  shows "unat ((push_bit 5 acc OR ucast v) AND 0x0FFF) = (unat acc * 32 + unat v) mod 2 ^ 12"
proof -
  have m: "(0x0FFF :: u32) = mask 12" by (simp add: mask_eq_exp_minus_1)
  have "push_bit 5 acc OR ucast v = push_bit 5 acc + ucast v"
  proof (rule disjunctive_add_eq_or [symmetric])
    show "push_bit 5 acc AND ucast v = 0"
    proof (rule bit_word_eqI)
      fix n assume "n < LENGTH(32)"
      have "5 \<le> n \<Longrightarrow> \<not> bit v n"
      proof -
        assume "5 \<le> n"
        have "drop_bit 5 v = 0" using assms(2) by (simp add: unat_small_byte)
        then have "\<not> bit (drop_bit 5 v) (n - 5)" by simp
        then show ?thesis using \<open>5 \<le> n\<close> by (simp add: bit_simps)
      qed
      then show "bit (push_bit 5 acc AND ucast v) n = bit (0 :: u32) n"
        by (auto simp: bit_simps)
    qed
  qed
  moreover have "unat (push_bit 5 acc + ucast v :: u32) = unat acc * 32 + unat v"
    using assms by (simp add: push_bit_eq_mult unat_word_ariths unsigned_ucast_eq take_bit_eq_mod unat_word_ariths)
  ultimately show ?thesis
    unfolding m take_bit_eq_mask [symmetric] unsigned_take_bit_eq by (simp only: take_bit_eq_mod)
qed

lemma unat_shift_byte:
  fixes a :: u32
  shows "unat (ucast (drop_bit b a) :: byte) = unat a div 2 ^ b mod 2 ^ 8"
proof -
  have "unat (drop_bit b a) = unat a div 2 ^ b"
    unfolding unat_drop_bit_eq by (rule drop_bit_eq_div)
  then show ?thesis by (simp add: unsigned_ucast_eq take_bit_eq_mod)
qed

lemma r_convert_drain_eq:
  assumes "bits < 16" and "pos + bits div 8 \<le> out_cap" and "out_cap \<le> length out"
  shows "r_convert_drain acc bits pos out out_cap =
    Some (Inr (if bits \<ge> 8
       then (bits - 8, pos + 1, take pos out @ [ucast (drop_bit (bits - 8) acc)] @ drop (pos + 1) out)
       else (bits, pos, out)))"
proof (cases "bits \<ge> 8")
  case True
  then have "bits div 8 = 1" "\<not> 8 \<le> bits - 8" using assms(1) by auto
  then show ?thesis using True assms
    by (simp add: r_convert_drain.simps [of acc bits] r_convert_drain.simps [of acc "bits - 8"]
        wr_bytes_def Let_def)
next
  case False
  then show ?thesis by (simp add: r_convert_drain.simps)
qed

lemma split_acc:
  fixes a v :: nat
  assumes "bits \<le> 7" and "v < 32"
  shows "((a * 32 + v) mod 2 ^ 12) mod 2 ^ (bits + 5) = (a mod 2 ^ bits) * 32 + v"
proof -
  have "(2::nat) ^ (bits + 5) dvd 2 ^ 12" using assms(1) by (intro le_imp_power_dvd) simp
  then have "((a * 32 + v) mod 2 ^ 12) mod 2 ^ (bits + 5) = (a * 32 + v) mod (32 * 2 ^ bits)"
    by (simp add: mod_mod_cancel power_add mult.commute)
  also have "\<dots> = 32 * ((a * 32 + v) div 32 mod 2 ^ bits) + (a * 32 + v) mod 32"
    by (rule mod_mult2_eq)
  finally show ?thesis using assms(2) by simp
qed

lemma split_byte: "(a::nat) mod 2 ^ (b + 8) = (a div 2 ^ b mod 2 ^ 8) * 2 ^ b + a mod 2 ^ b"
  by (simp add: power_add mod_mult2_eq)

lemma carry_digit:
  fixes q v x m :: nat
  assumes "q * 32 + v = x * 2 ^ b + m"
  shows "q * 2 ^ (5 * Suc n) + (v * 2 ^ (5 * n) + r) = x * 2 ^ (b + 5 * n) + (m * 2 ^ (5 * n) + r)"
proof -
  have "q * 2 ^ (5 * Suc n) + v * 2 ^ (5 * n) = (q * 32 + v) * 2 ^ (5 * n)"
    by (simp add: power_add algebra_simps)
  then show ?thesis unfolding assms by (simp add: power_add algebra_simps)
qed

text \<open>
  The loop invariant: the bytes written so far followed by the low \<open>bits\<close> bits of the accumulator
  are the digits read so far.
\<close>

lemma r_convert_loop_ok:
  assumes "below 5 vs" and "bits < 8" and "unat acc < 2 ^ 12"
    and "pos + (bits + 5 * length vs) div 8 \<le> out_cap" and "out_cap \<le> length out"
  shows "\<exists>acc' bs. r_convert_loop vs acc bits pos out out_cap =
      Some (Inr (acc', (bits + 5 * length vs) mod 8, pos + length bs,
                 take pos out @ bs @ drop (pos + length bs) out))
    \<and> length bs = (bits + 5 * length vs) div 8 \<and> unat acc' < 2 ^ 12
    \<and> (unat acc mod 2 ^ bits) * 2 ^ (5 * length vs) + be_nat 5 vs
        = be_nat 8 bs * 2 ^ ((bits + 5 * length vs) mod 8)
          + unat acc' mod 2 ^ ((bits + 5 * length vs) mod 8)"
  using assms
proof (induction vs arbitrary: acc bits pos out)
  case Nil
  then show ?case by (intro exI [of _ acc] exI [of _ "[]"]) simp
next
  case (Cons v vs)
  define a1 :: u32 where "a1 = (push_bit 5 acc OR ucast v) AND 0x0FFF"
  have v: "unat v < 32" "drop_bit 5 v = 0" and vs: "below 5 vs"
    using Cons.prems(1) by (auto simp: unat_small_byte)
  have a: "unat a1 = (unat acc * 32 + unat v) mod 2 ^ 12"
    unfolding a1_def using Cons.prems(3) v(1) by (rule convert_acc)
  have a12: "unat a1 < 2 ^ 12" by (simp only: a) simp
  have am: "unat a1 mod 2 ^ (bits + 5) = unat acc mod 2 ^ bits * 32 + unat v"
    unfolding a using Cons.prems(2) v(1) by (intro split_acc) auto
  have loop: "r_convert_loop (v # vs) acc bits pos out out_cap =
      r_convert_loop vs a1 b p o' out_cap"
    if "r_convert_drain a1 (bits + 5) pos out out_cap = Some (Inr (b, p, o'))" for b p o'
    using that v(2) by (simp add: Let_def a1_def [symmetric])
  show ?case
  proof (cases "bits + 5 \<ge> 8")
    case False
    have n: "bits + 5 * length (v # vs) = bits + 5 + 5 * length vs" by simp
    have b: "bits + 5 < 8" using False by simp
    have d: "r_convert_drain a1 (bits + 5) pos out out_cap = Some (Inr (bits + 5, pos, out))"
      using False Cons.prems by (subst r_convert_drain_eq) auto
    have "unat acc mod 2 ^ bits * 2 ^ (5 * length (v # vs)) + be_nat 5 (v # vs)
        = unat a1 mod 2 ^ (bits + 5) * 2 ^ (5 * length vs) + be_nat 5 vs"
      unfolding am by (simp add: be_nat_Cons power_add algebra_simps)
    then show ?thesis
      using Cons.IH [OF vs b a12 Cons.prems(4) [unfolded n] Cons.prems(5)]
      unfolding loop [OF d] n by (simp only:)
  next
    case True
    define x :: byte where "x = ucast (drop_bit (bits - 3) a1)"
    let ?b = "bits - 3" let ?o = "take pos out @ [x] @ drop (pos + 1) out"
    have b: "bits + 5 - 8 = ?b" "?b + 8 = bits + 5" "?b < 8" using True Cons.prems(2) by auto
    have "bits + 5 * length (v # vs) = (?b + 5 * length vs) + 8" using b by simp
    then have n: "(bits + 5 * length (v # vs)) div 8 = Suc ((?b + 5 * length vs) div 8)"
      "(bits + 5 * length (v # vs)) mod 8 = (?b + 5 * length vs) mod 8"
      by (simp_all only: div_add_self2 mod_add_self2)
    have p: "pos + 1 + (?b + 5 * length vs) div 8 \<le> out_cap" using Cons.prems(4) unfolding n by simp
    have d: "r_convert_drain a1 (bits + 5) pos out out_cap = Some (Inr (?b, pos + 1, ?o))"
      using True Cons.prems p b by (subst r_convert_drain_eq) (auto simp: x_def)
    have ol: "out_cap \<le> length ?o" using p Cons.prems(5) by simp
    from Cons.IH [OF vs b(3) a12 p ol]
    obtain acc' bs where ih: "r_convert_loop vs a1 ?b (pos + 1) ?o out_cap =
        Some (Inr (acc', (?b + 5 * length vs) mod 8, pos + 1 + length bs,
                 take (pos + 1) ?o @ bs @ drop (pos + 1 + length bs) ?o))"
      "length bs = (?b + 5 * length vs) div 8" "unat acc' < 2 ^ 12"
      "(unat a1 mod 2 ^ ?b) * 2 ^ (5 * length vs) + be_nat 5 vs
        = be_nat 8 bs * 2 ^ ((?b + 5 * length vs) mod 8)
          + unat acc' mod 2 ^ ((?b + 5 * length vs) mod 8)"
      by (elim exE conjE) (rule that)
    have to: "take (pos + 1) ?o @ bs @ drop (pos + 1 + length bs) ?o
        = take pos out @ (x # bs) @ drop (pos + length (x # bs)) out"
      using p Cons.prems(5) by (simp add: add.commute)
    have "unat acc mod 2 ^ bits * 32 + unat v = unat x * 2 ^ ?b + unat a1 mod 2 ^ ?b"
      using am split_byte [of "unat a1" ?b] unfolding b x_def unat_shift_byte by simp
    then have "unat acc mod 2 ^ bits * 2 ^ (5 * length (v # vs)) + be_nat 5 (v # vs)
        = unat x * 2 ^ (?b + 5 * length vs) + ((unat a1 mod 2 ^ ?b) * 2 ^ (5 * length vs) + be_nat 5 vs)"
      unfolding be_nat_Cons length_Cons by (rule carry_digit)
    also have "2 ^ (?b + 5 * length vs) = 2 ^ (8 * length bs) * (2::nat) ^ ((?b + 5 * length vs) mod 8)"
      unfolding ih(2) by (simp add: power_add [symmetric])
    finally have "unat acc mod 2 ^ bits * 2 ^ (5 * length (v # vs)) + be_nat 5 (v # vs)
        = be_nat 8 (x # bs) * 2 ^ ((?b + 5 * length vs) mod 8)
          + unat acc' mod 2 ^ ((?b + 5 * length vs) mod 8)"
      unfolding ih(4) by (simp add: be_nat_Cons algebra_simps)
    then show ?thesis unfolding loop [OF d] n ih(1) to
      by (intro exI [of _ acc'] exI [of _ "x # bs"]) (use ih(2,3) in simp)
  qed
qed

lemma r_convert_drain_bounds:
  assumes "bits < 16" and "pos + bits div 8 \<le> out_cap" and "out_cap \<le> length out"
  shows "\<exists>o'. r_convert_drain acc bits pos out out_cap = Some (Inr (bits mod 8, pos + bits div 8, o'))
    \<and> length o' = length out"
proof (cases "bits \<ge> 8")
  case True
  then have "bits mod 8 = bits - 8" "bits div 8 = 1" using assms(1) by (simp_all add: mod_if)
  then show ?thesis using assms by (simp add: r_convert_drain_eq True)
next
  case False
  then show ?thesis using assms by (simp add: r_convert_drain_eq)
qed

lemma div_add_split: "(a + b) div 8 = a div 8 + (a mod 8 + b) div (8::nat)"
proof -
  have "a + b = (a mod 8 + b) + 8 * (a div 8)" by simp
  then show ?thesis by (simp only: div_mult_self2)
qed

text \<open>A digit of more than five bits stops the loop with the error value.\<close>

lemma r_convert_loop_bad:
  assumes "\<not> below 5 vs" and "bits < 8"
    and "pos + (bits + 5 * length vs) div 8 \<le> out_cap" and "out_cap \<le> length out"
  shows "r_convert_loop vs acc bits pos out out_cap = Some (Inl ())"
  using assms
proof (induction vs arbitrary: acc bits pos out)
  case (Cons v vs)
  show ?case
  proof (cases "unat v < 32")
    case True
    then have bad: "\<not> below 5 vs" and d0: "drop_bit 5 v = 0"
      using Cons.prems(1) by (auto simp: unat_small_byte)
    let ?acc = "(push_bit 5 acc OR ucast v) AND 0x0FFF :: u32"
    have c: "pos + (bits + 5) div 8 \<le> out_cap"
      using Cons.prems(3) div_le_mono [of "bits + 5" "bits + 5 * length (v # vs)" 8] by simp
    have "bits + 5 < 16" using Cons.prems(2) by simp
    then obtain o' where
      dr: "r_convert_drain ?acc (bits + 5) pos out out_cap
             = Some (Inr ((bits + 5) mod 8, pos + (bits + 5) div 8, o'))"
      and l: "length o' = length out"
      using r_convert_drain_bounds c Cons.prems(4) by blast
    have p: "pos + (bits + 5) div 8 + ((bits + 5) mod 8 + 5 * length vs) div 8 \<le> out_cap"
      using Cons.prems(3) div_add_split [of "bits + 5" "5 * length vs"] by (simp add: ac_simps)
    show ?thesis using dr d0 Cons.IH [OF bad _ p, of o'] l Cons.prems(4) by (simp add: Let_def)
  next
    case False
    then show ?thesis by (simp add: unat_small_byte)
  qed
qed simp

lemma pad_zero_iff:
  assumes "unat (acc :: u32) < 2 ^ 12" and "bits \<le> 8"
  shows "push_bit (8 - bits) acc AND 0xFF = 0 \<longleftrightarrow> unat acc mod 2 ^ bits = 0"
proof -
  have m: "(0xFF :: u32) = mask 8" by (simp add: mask_eq_exp_minus_1)
  have "push_bit (8 - bits) acc AND 0xFF = push_bit (8 - bits) (take_bit bits acc)"
    unfolding m take_bit_eq_mask [symmetric] using assms(2) by (simp add: take_bit_push_bit)
  moreover have "push_bit (8 - bits) (take_bit bits acc) = 0 \<longleftrightarrow> take_bit bits acc = 0"
  proof
    assume z: "push_bit (8 - bits) (take_bit bits acc) = 0"
    show "take_bit bits acc = 0"
    proof (rule bit_word_eqI)
      fix n assume "n < LENGTH(32)"
      have "\<not> bit (push_bit (8 - bits) (take_bit bits acc)) (n + (8 - bits))" by (simp add: z)
      then show "bit (take_bit bits acc) n = bit (0 :: u32) n"
        using assms(2) by (auto simp: bit_simps)
    qed
  qed simp
  moreover have "take_bit bits acc = 0 \<longleftrightarrow> unat acc mod 2 ^ bits = 0"
    unfolding word_unat_eq_iff unsigned_take_bit_eq by (simp add: take_bit_eq_mod)
  ultimately show ?thesis by simp
qed

lemma r_convert_bits_eq:
  assumes "in_len \<le> length inp" and "5 * in_len div 8 \<le> out_cap" and "out_cap \<le> length out"
    and "vs = take in_len inp" and "pad = 5 * in_len mod 8" and "n = 5 * in_len div 8"
  shows "r_convert_bits_5_to_8_no_pad inp in_len out out_cap =
    Some (if below 5 vs \<and> pad < 5 \<and> be_nat 5 vs mod 2 ^ pad = 0
          then Inr (be_digits 8 n (be_nat 5 vs div 2 ^ pad) @ drop n out, n)
          else Inl ())"
proof -
  have l: "length vs = in_len" and r: "rd_bytes inp 0 in_len = Some vs"
    using assms by (simp_all add: rd_bytes_def)
  show ?thesis
  proof (cases "below 5 vs")
    case False
    then have "r_convert_loop vs 0 0 0 out out_cap = Some (Inl ())"
      using assms l by (intro r_convert_loop_bad) auto
    then show ?thesis using False r by (simp add: r_convert_bits_5_to_8_no_pad_def)
  next
    case True
    obtain acc' bs where c: "r_convert_loop vs 0 0 0 out out_cap =
        Some (Inr (acc', pad, length bs, bs @ drop (length bs) out))"
      and bl: "length bs = n" and a: "unat acc' < 2 ^ 12"
      and v: "be_nat 5 vs = be_nat 8 bs * 2 ^ pad + unat acc' mod 2 ^ pad"
      using r_convert_loop_ok [OF True, of 0 0 0 out_cap out] assms l by auto
    have "below 8 bs" by (simp add: list_all_iff unsigned_less [where 'b=8, simplified])
    then have "be_digits 8 n (be_nat 5 vs div 2 ^ pad) = bs"
      using be_digits_be_nat [of 8 bs] bl v by simp
    moreover have "be_nat 5 vs mod 2 ^ pad = unat acc' mod 2 ^ pad" using v by simp
    moreover have "pad \<le> 8" using assms(5) by (simp add: less_imp_le)
    ultimately show ?thesis using True r c bl pad_zero_iff [OF a, of pad]
      by (simp add: r_convert_bits_5_to_8_no_pad_def)
  qed
qed

subsection \<open>Facts: the checksum polynomial\<close>

definition bech32_mix :: "u32 \<Rightarrow> u32" where
  "bech32_mix b =
    (if bit b 0 then 0x3B6A57B2 else 0) XOR (if bit b 1 then 0x26508E6D else 0) XOR
    (if bit b 2 then 0x1EA119FA else 0) XOR (if bit b 3 then 0x3D4233DD else 0) XOR
    (if bit b 4 then 0x2A1462B3 else 0)"

lemma drop_bit_and_one: "drop_bit j b AND 1 \<noteq> (0 :: u32) \<longleftrightarrow> bit b j"
  by (simp add: and_one_eq bit_iff_odd_drop_bit mod_2_eq_odd)

lemma r_bech32_step_eq:
  "r_bech32_step chk v = push_bit 5 (take_bit 25 chk) XOR ucast v XOR bech32_mix (drop_bit 25 chk)"
proof -
  have m: "(0x1FFFFFF :: u32) = mask 25" by (simp add: mask_eq_exp_minus_1)
  have u: "[0..<5] = [0, 1, 2, 3, 4::nat]" by (simp add: upt_rec)
  show ?thesis
    unfolding r_bech32_step_def Let_def u drop_bit_and_one m take_bit_eq_mask bech32_mix_def
    by (simp add: k_bech32_gen_def xor.assoc)
qed

lemma bech32_mix_xor: "bech32_mix (a XOR b) = bech32_mix a XOR bech32_mix b"
proof -
  have t: "(if bit (a XOR b) j then g else 0) = (if bit a j then g else 0) XOR (if bit b j then g else 0)"
    for j :: nat and g :: u32
    by (simp add: bit_simps)
  show ?thesis unfolding bech32_mix_def t by (simp only: ac_simps)
qed

text \<open>The checksum step is linear over bitwise exclusive or.\<close>

lemma r_bech32_step_xor:
  "r_bech32_step (a XOR b) (v XOR w) = r_bech32_step a v XOR r_bech32_step b w"
proof -
  have "push_bit 5 (take_bit 25 (a XOR b)) = push_bit 5 (take_bit 25 a) XOR push_bit 5 (take_bit 25 b)"
    "ucast (v XOR w) = (ucast v XOR ucast w :: u32)"
    "drop_bit 25 (a XOR b) = drop_bit 25 a XOR drop_bit 25 b"
    by (rule bit_word_eqI, auto simp: bit_simps)+
  then show ?thesis unfolding r_bech32_step_eq by (simp only: bech32_mix_xor ac_simps)
qed

lemma bech32_mix_30: "take_bit 30 (bech32_mix b) = bech32_mix b"
  unfolding bech32_mix_def take_bit_xor by (simp add: if_distrib [of "take_bit 30"])

lemma bech32_mix_bits: "bit (bech32_mix b) n \<Longrightarrow> n < 30"
  using bit_take_bit_iff [of 30 "bech32_mix b" n] unfolding bech32_mix_30 by simp

lemma r_bech32_step_bits: "bit (r_bech32_step a v) n \<Longrightarrow> n < 30"
  unfolding r_bech32_step_eq bit_xor_iff
  by (auto simp: bit_simps dest: bech32_mix_bits bit_imp_le_length)

lemma mix_low_kernel: "list_all (\<lambda>b. take_bit 5 (bech32_mix (of_nat b)) = 0 \<longrightarrow> b = 0) [0..<32]"
  by (simp add: upt_rec bech32_mix_def bit_iff_odd take_bit_eq_mod)

lemma bech32_mix_0: "bech32_mix 0 = 0"
  by (simp add: bech32_mix_def)

lemma word_zero_of_parts:
  assumes "take_bit 25 d = 0" and "drop_bit 25 d = 0"
  shows "(d :: u32) = 0"
  using bits_ident [of 25 d] assms by simp

lemma r_bech32_step_kernel:
  assumes z: "r_bech32_step d 0 = 0" and d: "\<And>n. bit d n \<Longrightarrow> n < 30"
  shows "d = 0"
proof -
  let ?b = "drop_bit 25 d"
  have "take_bit 5 (r_bech32_step d 0) = take_bit 5 (bech32_mix ?b)"
    unfolding r_bech32_step_eq take_bit_xor by (simp add: take_bit_push_bit)
  then have m: "take_bit 5 (bech32_mix ?b) = 0" using z by simp
  have "take_bit 5 ?b = ?b"
    by (rule bit_word_eqI) (use d in \<open>fastforce simp: bit_simps\<close>)
  then have "unat ?b = take_bit 5 (unat ?b)" by (metis unsigned_take_bit_eq)
  then have "unat ?b < 32" using take_bit_nat_less_exp [of 5 "unat ?b"] by simp
  then have "unat ?b = 0"
    using mix_low_kernel [unfolded list_all_iff, THEN bspec, of "unat ?b"] m by simp
  then have b: "?b = 0" by (simp add: unat_eq_0)
  then have "push_bit 5 (take_bit 25 d) = 0"
    using z by (simp add: r_bech32_step_eq bech32_mix_0)
  then have "take_bit 25 d = 0"
  proof (intro bit_word_eqI)
    fix n assume "push_bit 5 (take_bit 25 d) = 0" "n < LENGTH(32)"
    then have "\<not> bit (push_bit 5 (take_bit 25 d)) (n + 5)" by simp
    then show "bit (take_bit 25 d) n = bit (0 :: u32) n" by (auto simp: bit_simps)
  qed
  then show ?thesis using b by (rule word_zero_of_parts)
qed

lemma xor_0_imp_eq: "a XOR b = 0 \<Longrightarrow> a = (b :: 'a::len word)"
  by (metis xor.assoc xor.left_neutral xor.right_neutral xor_self_eq)

lemma r_bech32_step_inj:
  assumes "r_bech32_step a v = r_bech32_step b v"
    and "\<And>n. bit a n \<Longrightarrow> n < 30" and "\<And>n. bit b n \<Longrightarrow> n < 30"
  shows "a = b"
proof -
  have "r_bech32_step (a XOR b) 0 = 0"
    using assms(1) r_bech32_step_xor [of a b v v] by simp
  then have "a XOR b = 0"
    by (rule r_bech32_step_kernel) (use assms(2,3) in \<open>auto simp: bit_xor_iff\<close>)
  then show ?thesis by (rule xor_0_imp_eq)
qed

lemma foldl_step_inj:
  assumes "foldl r_bech32_step a vs = foldl r_bech32_step b vs"
    and "\<And>n. bit a n \<Longrightarrow> n < 30" and "\<And>n. bit b n \<Longrightarrow> n < 30"
  shows "a = b"
  using assms
proof (induction vs arbitrary: a b)
  case (Cons v vs)
  then show ?case
    by (metis foldl_Cons r_bech32_step_bits r_bech32_step_inj)
qed simp

lemma ucast_byte_inj:
  assumes "(ucast a :: u32) = ucast (b :: byte)"
  shows "a = b"
proof (rule bit_word_eqI)
  fix n assume n: "n < LENGTH(8)"
  have "bit (ucast a :: u32) n = bit (ucast b :: u32) n" using assms by simp
  then show "bit a n = bit b n" using n by (simp add: bit_simps)
qed

text \<open>Changing one symbol of a checksummed sequence changes its remainder.\<close>

lemma r_bech32_polymod_single:
  assumes "v \<noteq> w"
  shows "r_bech32_polymod (xs @ v # ys) \<noteq> r_bech32_polymod (xs @ w # ys)"
proof
  let ?s = "foldl r_bech32_step 1 xs"
  assume "r_bech32_polymod (xs @ v # ys) = r_bech32_polymod (xs @ w # ys)"
  then have "r_bech32_step ?s v = r_bech32_step ?s w"
    unfolding r_bech32_polymod_def foldl_append foldl_Cons
    by (rule foldl_step_inj) (rule r_bech32_step_bits, assumption)+
  then have "r_bech32_step 0 (v XOR w) = 0"
    using r_bech32_step_xor [of ?s ?s v w] by simp
  then have "(ucast (v XOR w) :: u32) = ucast (0 :: byte)"
    by (simp add: r_bech32_step_eq bech32_mix_0)
  then have "v XOR w = 0" by (rule ucast_byte_inj)
  then show False using assms xor_0_imp_eq by blast
qed

text \<open>Six symbols that make the remainder 1 exist for every prefix.\<close>

definition bech32_checksum :: "byte list \<Rightarrow> byte list" where
  "bech32_checksum pre = be_digits 5 6 (unat (r_bech32_polymod (pre @ replicate 6 0) XOR 1))"

lemma unat_step_small:
  assumes "unat x < 2 ^ 25" and "unat v < 32"
  shows "unat (r_bech32_step x v) = 32 * unat x + unat v"
proof -
  have x: "take_bit 25 x = x" "drop_bit 25 x = 0"
    using assms(1) by (simp_all add: word_unat_eq_iff unsigned_take_bit_eq take_bit_nat_eq_self
        unat_drop_bit_eq drop_bit_eq_div unat_div)
  have v: "drop_bit 5 v = 0" using assms(2) by (simp add: unat_small_byte)
  have "push_bit 5 x AND ucast v = 0"
  proof (rule bit_word_eqI)
    fix n assume "n < LENGTH(32)"
    have "\<not> bit (drop_bit 5 v) (n - 5)" using v by simp
    then show "bit (push_bit 5 x AND ucast v) n = bit (0 :: u32) n"
      by (auto simp: bit_simps)
  qed
  then have "r_bech32_step x v = push_bit 5 x + ucast v"
    unfolding r_bech32_step_eq x bech32_mix_0 by (simp add: disjunctive_add_eq_xor)
  then show ?thesis using assms
    by (simp add: push_bit_eq_mult unat_word_ariths unsigned_ucast_eq take_bit_eq_mod)
qed

lemma foldl_step_digits:
  assumes "below 5 cs" and "length cs \<le> 6"
  shows "unat (foldl r_bech32_step 0 cs) = be_nat 5 cs"
  using assms
proof (induction cs rule: rev_induct)
  case (snoc c cs)
  have "be_nat 5 cs < 2 ^ (5 * length cs)" using snoc.prems by (intro be_nat_less) simp
  also have "(2::nat) ^ (5 * length cs) \<le> 2 ^ 25" using snoc.prems by (intro power_increasing) auto
  finally show ?case using snoc by (simp add: unat_step_small)
qed simp

lemma foldl_step_xor:
  "length vs = length ws \<Longrightarrow> foldl r_bech32_step (a XOR b) (map2 (XOR) vs ws)
     = foldl r_bech32_step a vs XOR foldl r_bech32_step b ws"
  by (induction vs ws arbitrary: a b rule: list_induct2) (simp_all add: r_bech32_step_xor)

lemma bech32_checksum_valid: "r_bech32_polymod (pre @ bech32_checksum pre) = 1"
proof -
  let ?s = "foldl r_bech32_step 1 pre"
  let ?p = "r_bech32_polymod (pre @ replicate 6 0) XOR 1"
  have "take_bit 30 ?p = ?p"
  proof (rule bit_word_eqI)
    fix n assume "n < LENGTH(32)"
    have "pre @ replicate 6 0 = (pre @ replicate 5 0) @ [0]" by (simp add: numeral_eq_Suc)
    then have "bit (r_bech32_polymod (pre @ replicate 6 0)) n \<Longrightarrow> n < 30"
      by (simp add: r_bech32_polymod_def r_bech32_step_bits)
    then show "bit (take_bit 30 ?p) n = bit ?p n" by (auto simp: bit_simps)
  qed
  then have "unat ?p = take_bit 30 (unat ?p)" by (metis unsigned_take_bit_eq)
  then have p: "unat ?p mod 2 ^ 30 = unat ?p" by (simp add: take_bit_eq_mod)
  have "map2 (XOR) (replicate 6 0) (bech32_checksum pre) = bech32_checksum pre"
    by (rule nth_equalityI) (simp_all add: bech32_checksum_def)
  then have "foldl r_bech32_step ?s (bech32_checksum pre)
      = foldl r_bech32_step ?s (replicate 6 0) XOR foldl r_bech32_step 0 (bech32_checksum pre)"
    using foldl_step_xor [of "replicate 6 0" "bech32_checksum pre" ?s 0]
    by (simp add: bech32_checksum_def)
  moreover have "foldl r_bech32_step 0 (bech32_checksum pre) = ?p"
    unfolding word_unat_eq_iff bech32_checksum_def
    using p foldl_step_digits [OF below_be_digits, of 6 "unat ?p"] be_nat_be_digits [of 5 6 "unat ?p"]
    by simp
  ultimately show ?thesis
    by (simp add: r_bech32_polymod_def xor.left_commute)
qed

subsection \<open>Facts: decoding a credential\<close>

lemma r_read_local_eq:
  "r_read_le64_local p i = r_le64 p i" "r_read_le32_local p i = r_le32 p i"
  by (simp_all add: r_read_le64_local_def r_le64_def r_read_le32_local_def r_le32_def)

lemma r_scan_case_range:
  "r_scan_case cs lo up = Some r \<Longrightarrow> c \<in> set cs \<Longrightarrow> 33 \<le> c \<and> c \<le> 126"
  by (induction cs arbitrary: lo up) (auto split: if_splits simp: not_less)

lemma tolower_nonzero: "33 \<le> c \<Longrightarrow> c \<le> 126 \<Longrightarrow> tolower c \<noteq> 0"
  by (auto simp: tolower_def isupper_def word_le_nat_alt word_unat_eq_iff unat_word_ariths)

lemma strrchr_Some:
  "strrchr s c = Some i \<Longrightarrow> i < length s \<and> s ! i = c \<and> c \<notin> set (drop (i + 1) s)"
proof (induction s arbitrary: i)
  case (Cons x xs)
  have none: "strrchr ys c = None \<Longrightarrow> c \<notin> set ys" for ys
    by (induction ys) (auto split: option.splits if_splits)
  show ?case using Cons none [of xs] by (fastforce split: option.splits if_splits)
qed simp

definition bech32_text :: "byte list \<Rightarrow> (byte list \<times> byte list) option" where
  "bech32_text e =
    do {
      (lo, up) \<leftarrow> r_scan_case e False False;
      if lo \<and> up then None else do {
        h \<leftarrow> strrchr (map tolower e) (of_char (CHR ''1''));
        if h < 1 \<or> length e - h - 1 < 6 then None else do {
          vs \<leftarrow> those (map r_bech32_char_value (drop (h + 1) (map tolower e)));
          Some (take h (map tolower e), vs) }}}"

definition regroup :: "byte list \<Rightarrow> byte list option" where
  "regroup ds = (let pad = 5 * length ds mod 8 in
    if below 5 ds \<and> pad < 5 \<and> be_nat 5 ds mod 2 ^ pad = 0
    then Some (be_digits 8 (5 * length ds div 8) (be_nat 5 ds div 2 ^ pad)) else None)"

definition hrp_type :: "byte list \<Rightarrow> r_auth_type option" where
  "hrp_type hrp = (if hrp = cstr ''rl-cookie'' then Some R_AUTH_COOKIE
     else if hrp = cstr ''rl-aes'' then Some R_AUTH_AES_GCM else None)"

definition payload_result ::
  "byte list \<Rightarrow> byte list \<Rightarrow> nat \<Rightarrow> api_key_out \<Rightarrow> bool \<times> api_key_out \<times> r_bech32_quotas option" where
  "payload_result hrp P cap out =
    (case hrp_type hrp of
       None \<Rightarrow> (False, out, None)
     | Some ty \<Rightarrow>
         if length P \<noteq> 45 \<or> P ! 0 \<noteq> 1 \<or> cap < 32 then (False, out, None)
         else let out' = \<lparr>out_type = ty, out_key_id = le_word (take 8 (drop 1 P)),
                          out_secret = take 32 (drop 9 P) @ drop 32 (out_secret out),
                          out_secret_len = 32\<rparr>;
                  q = r_decode_quota_word (le_word (take 4 (drop 41 P)))
              in (q \<noteq> None, out', q))"

lemma c_string_cut: "0 \<notin> set s \<Longrightarrow> c_string (s @ 0 # rest) = s"
  by (induction s) (auto simp: c_string_def)

lemma cstr_no_nul: "0 \<notin> set (cstr ''rl-cookie'')" "0 \<notin> set (cstr ''rl-aes'')"
  by (simp_all add: cstr_def)

lemma r_decode_payload_eq:
  assumes "0 \<notin> set hrp" and "cap \<le> length (out_secret out)"
  shows "r_decode_payload (hrp @ 0 # junk) (P @ rest) (length P) cap out
    = Some (payload_result hrp P cap out)"
proof -
  have t: "(if strcmp_eq (hrp @ 0 # junk) (cstr ''rl-cookie'') then Some R_AUTH_COOKIE
      else if strcmp_eq (hrp @ 0 # junk) (cstr ''rl-aes'') then Some R_AUTH_AES_GCM else None)
      = hrp_type hrp"
    using assms(1) by (simp add: strcmp_eq_def hrp_type_def c_string_cut c_string_no_nul cstr_no_nul)
  show ?thesis
  proof (cases "length P = 45")
    case True
    then have "P \<noteq> []" by auto
    then show ?thesis unfolding r_decode_payload_def payload_result_def t r_read_local_eq
      using assms(2) True
      by (auto simp: credential_layout mem_simps wr_bytes_def Let_def nth_append
          split: option.splits)
  next
    case False
    then show ?thesis unfolding r_decode_payload_def payload_result_def t
      by (simp add: credential_layout split: option.splits)
  qed
qed

definition allocated :: "allocs \<Rightarrow> bool" where
  "allocated al \<longleftrightarrow> (\<forall>k \<in> {0, 1, 2, 3}. al k \<noteq> None)"

lemma those_length: "those (map f xs) = Some ys \<Longrightarrow> length ys = length xs"
  by (induction xs arbitrary: ys) (auto split: option.splits)

lemma malloc_cases: "malloc al k n = None \<longleftrightarrow> al k = None"
  by (simp add: malloc_def split: option.splits)

text \<open>The part of the decoder behind the separator, once the text has been copied.\<close>

lemma decode_tail:
  assumes "t = map tolower e" and "0 \<notin> set t" and "strrchr t (of_char (CHR ''1'')) = Some h"
    and "s = take h t @ 0 # drop (h + 1) t @ [0]" and "m = length e - h - 1"
  shows "r_data_loop s h 0 m (map junk [0..<m]) =
      Some (case those (map r_bech32_char_value (drop (h + 1) t)) of None \<Rightarrow> Inl () | Some vs \<Rightarrow> Inr vs)"
    and "c_string s = take h t"
proof -
  have h: "h < length t" using strrchr_Some [OF assms(3)] by simp
  have "drop (h + 1) s = drop (h + 1) t @ [0]" using h assms(4) by simp
  then have d: "take m (drop (h + 1 + 0) s) = drop (h + 1) t"
    using assms(1,5) by simp
  show "r_data_loop s h 0 m (map junk [0..<m]) =
      Some (case those (map r_bech32_char_value (drop (h + 1) t)) of None \<Rightarrow> Inl () | Some vs \<Rightarrow> Inr vs)"
    using h assms(1,4,5) by (subst r_data_loop_eq) (simp_all add: d split: option.splits)
  have "0 \<notin> set (take h t)" using assms(2) by (meson in_set_takeD)
  then show "c_string s = take h t" unfolding assms(4) by (rule c_string_cut)
qed

lemma decode_copy:
  assumes "r_scan_case e False False = Some r" and "malloc al 0 (length e + 1) = Some s"
    and "t = map tolower e"
  shows "(r_put_mapped tolower e s 0 \<bind> (\<lambda>s. wr8 s (length e) 0 \<bind> k)) = k (t @ [0])"
    and "0 \<notin> set t"
proof -
  have l: "length s = length e + 1" using assms(2) by (rule malloc_length)
  then show "(r_put_mapped tolower e s 0 \<bind> (\<lambda>s. wr8 s (length e) 0 \<bind> k)) = k (t @ [0])"
    unfolding assms(3) by (simp add: r_put_mapped_eq wr_bytes_def)
  show "0 \<notin> set t"
    using r_scan_case_range [OF assms(1)] tolower_nonzero unfolding assms(3) by fastforce
qed

lemma decode_convert:
  assumes "length vs = m" and "6 \<le> m" and "ds = take (m - 6) vs" and "cap = ((m - 6) * 5) div 8 + 2"
    and "length buf = cap"
  shows "r_convert_bits_5_to_8_no_pad vs (m - 6) buf cap =
    Some (case regroup ds of None \<Rightarrow> Inl () | Some P \<Rightarrow> Inr (P @ drop (length P) buf, length P))"
proof -
  have l: "length ds = m - 6" using assms by simp
  have "5 * (m - 6) div 8 \<le> cap" unfolding assms(4) by (simp add: mult.commute)
  then show ?thesis
    using r_convert_bits_eq [of "m - 6" vs cap buf ds] assms l
    by (simp add: regroup_def Let_def)
qed

lemma r_decode_separated_eq:
  assumes t: "t = map tolower e" and z: "0 \<notin> set t"
    and h: "strrchr t (of_char (CHR ''1'')) = Some h"
    and cap: "cap \<le> length (out_secret out)"
  shows "r_decode_separated al (t @ [0]) (length e) h cap out =
    Some (if h < 1 \<or> length e - h - 1 < 6 then (False, out, None)
      else case those (map r_bech32_char_value (drop (h + 1) t)) of
        None \<Rightarrow> (False, out, None)
      | Some vs \<Rightarrow>
        if al 1 \<noteq> None \<and> al 2 \<noteq> None \<and> al 3 \<noteq> None
           \<and> r_bech32_polymod (hrp_expand (take h t) @ vs) = 1
        then (case regroup (take (length vs - 6) vs) of
                None \<Rightarrow> (False, out, None)
              | Some P \<Rightarrow> payload_result (take h t) P cap out)
        else (False, out, None))"
  supply One_nat_def [simp del] diff_diff_left [simp del]
proof -
  let ?m = "length e - h - 1" let ?s = "take h t @ 0 # drop (h + 1) t @ [0]"
  have hl: "h < length t" using strrchr_Some [OF h] by simp
  have w: "wr8 (t @ [0]) h 0 = Some ?s" using hl by (simp add: wr_bytes_def One_nat_def)
  note tail = decode_tail [OF t z h refl refl]
  have z': "0 \<notin> set (take h t)" using z by (meson in_set_takeD)
  show ?thesis
  proof (cases "h < 1 \<or> ?m < 6 \<or> al 1 = None")
    case True
    then show ?thesis
      by (auto simp: r_decode_separated_def w malloc_def Let_def split: option.splits)
  next
    case False
    then obtain junk where a1: "al 1 = Some junk" and m: "6 \<le> ?m" and h1: "\<not> h < 1" by auto
    have d: "malloc al 1 ?m = Some (map junk [0..<?m])" using a1 by (simp add: malloc_def)
    show ?thesis
    proof (cases "those (map r_bech32_char_value (drop (h + 1) t))")
      case None
      then show ?thesis using m h1 tail(1) [of junk]
        by (simp add: r_decode_separated_def w d Let_def)
    next
      case (Some vs)
      have l: "length vs = ?m" using those_length [OF Some] t by simp
      have v: "r_bech32_verify_checksum al ?s vs ?m =
          Some (al 2 \<noteq> None \<and> r_bech32_polymod (hrp_expand (take h t) @ vs) = 1)"
        using r_bech32_verify_checksum_eq [of ?m vs al ?s] l tail(2) by simp
      show ?thesis
      proof (cases "al 3")
        case None
        then show ?thesis using m h1 tail(1) [of junk] Some v
          by (simp add: r_decode_separated_def w Let_def malloc_def a1)
      next
        case (Some junk3)
        let ?c = "(?m - 6) * 5 div 8 + 2"
        have p: "malloc al 3 ?c = Some (map junk3 [0..<?c])" using Some by (simp add: malloc_def)
        note conv = decode_convert [OF l m refl refl, of "map junk3 [0..<?c]"]
        show ?thesis using m h1 tail(1) [of junk] \<open>those _ = Some vs\<close> v p conv l a1 Some
          by (simp add: r_decode_separated_def w d Let_def r_decode_payload_eq [OF z' cap]
              split: option.splits)
      qed
    qed
  qed
qed

lemma r_decode_api_key_eq:
  assumes cap: "cap \<le> length (out_secret out)"
  shows "r_decode_api_key_bech32_with_quotas al (Some encoded) cap out =
    Some (case bech32_text (c_string encoded) of
      None \<Rightarrow> (False, out, None)
    | Some (hrp, vs) \<Rightarrow>
        if allocated al \<and> r_bech32_polymod (hrp_expand hrp @ vs) = 1
        then (case regroup (take (length vs - 6) vs) of
                None \<Rightarrow> (False, out, None)
              | Some P \<Rightarrow> payload_result hrp P cap out)
        else (False, out, None))"
proof -
  define e where "e = c_string encoded"
  define t where "t = map tolower e"
  have n: "strlen encoded = length e" by (simp add: e_def strlen_c_string)
  show ?thesis
  proof (cases "r_scan_case e False False")
    case None
    then show ?thesis
      by (simp add: r_decode_api_key_bech32_with_quotas_def bech32_text_def Let_def n e_def [symmetric])
  next
    case (Some r)
    then obtain lo up where scan: "r_scan_case e False False = Some (lo, up)" by (cases r) auto
    show ?thesis
    proof (cases "(lo \<and> up) \<or> e = [] \<or> al 0 = None")
      case True
      then have "r_decode_api_key_bech32_with_quotas al (Some encoded) cap out = Some (False, out, None)"
        using scan by (auto simp: r_decode_api_key_bech32_with_quotas_def Let_def n
            e_def [symmetric] malloc_def)
      moreover have "bech32_text e = None" if "(lo \<and> up) \<or> e = []"
        using that scan by (auto simp: bech32_text_def)
      moreover have "\<not> allocated al" if "al 0 = None" using that by (simp add: allocated_def)
      ultimately show ?thesis using True
        by (auto simp: e_def [symmetric] split: option.splits)
    next
      case False
      then obtain s where s: "malloc al 0 (length e + 1) = Some s" by (auto simp: malloc_def)
      have nlu: "(lo \<and> up) = False" and a0: "al 0 \<noteq> None" using False by auto
      note copy = decode_copy [OF scan s t_def]
      have c: "c_string (t @ [0]) = t" using c_string_cut [OF copy(2), of "[]"] .
      have main: "r_decode_api_key_bech32_with_quotas al (Some encoded) cap out =
        (case strrchr t (of_char (CHR ''1'')) of None \<Rightarrow> Some (False, out, None)
         | Some h \<Rightarrow> r_decode_separated al (t @ [0]) (length e) h cap out)"
        using scan s False unfolding r_decode_api_key_bech32_with_quotas_def
        by (auto simp: e_def [symmetric] n Let_def copy(1) c)
      show ?thesis
      proof (cases "strrchr t (of_char (CHR ''1''))")
        case None
        then show ?thesis using scan False
          by (simp add: main e_def [symmetric] bech32_text_def t_def [symmetric])
      next
        case (Some h)
        then show ?thesis
          using scan a0 r_decode_separated_eq [OF t_def copy(2) Some cap, of al]
          by (simp add: nlu main e_def [symmetric] bech32_text_def t_def [symmetric] allocated_def
              split: option.splits)
      qed
    qed
  qed
qed

subsection \<open>Facts: quotas and the character table\<close>
lemma unat_shifted_one:
  assumes "n < 32"
  shows "unat (push_bit n 1 :: u32) = 2 ^ n"
proof -
  have "push_bit n (1 :: u32) = of_nat (2 ^ n)" by (simp add: push_bit_eq_mult)
  moreover have "(2::nat) ^ n < 2 ^ 32" using assms by (intro power_strict_increasing) auto
  ultimately show ?thesis by (simp only: unat_of_nat) (simp add: take_bit_nat_eq_self)
qed

lemma unat_and_le: "unat (w AND m :: u32) \<le> unat m"
  by (simp add: word_and_le1 flip: word_le_nat_alt)

definition bech32_char :: "byte \<Rightarrow> byte" where
  "bech32_char v = of_char (fst (bech32_cases ! unat v))"

lemma bech32_char_table:
  "list_all (\<lambda>n. r_bech32_char_value (bech32_char (of_nat n)) = Some (of_nat n)
     \<and> 33 \<le> bech32_char (of_nat n) \<and> bech32_char (of_nat n) \<le> 126 \<and> bech32_char (of_nat n) \<noteq> 49
     \<and> \<not> isupper (bech32_char (of_nat n))) [0..<32]"
  by (simp add: upt_rec r_bech32_char_value_def bech32_char_def bech32_cases_def isupper_def)

definition quota_bounds :: "r_bech32_quotas \<Rightarrow> bool" where
  "quota_bounds q \<longleftrightarrow> 1 \<le> unat (rate_buckets_max q) \<and> unat (rate_buckets_max q) \<le> 2 ^ 24
     \<and> 1 \<le> unat (latency_services_max q) \<and> unat (latency_services_max q) \<le> 2 ^ 24
     \<and> 1 \<le> unat (metrics_labels_max q)
     \<and> 1 \<le> unat (latency_buffer_size_max q) \<and> unat (latency_buffer_size_max q) \<le> 2 ^ 15
     \<and> 10 \<le> unat (dedup_ttl_ms_max q) \<and> unat (dedup_ttl_ms_max q) \<le> 2000
     \<and> 10 dvd unat (dedup_ttl_ms_max q)
     \<and> 1 \<le> unat (rate_window_size_ms_max q)"

lemma quota_exponent:
  assumes "unat e \<le> n" and "n < 32"
  shows "1 \<le> unat (push_bit (unat e) 1 :: u32)" and "unat (push_bit (unat e) 1 :: u32) \<le> 2 ^ n"
proof -
  have "unat e < 32" using assms by simp
  note s = unat_shifted_one [OF this]
  show "1 \<le> unat (push_bit (unat e) 1 :: u32)" unfolding s by simp
  show "unat (push_bit (unat e) 1 :: u32) \<le> 2 ^ n" unfolding s using assms(1) by (simp add: power_increasing)
qed

lemma r_decode_quota_word_bounds:
  assumes "r_decode_quota_word w = Some q"
  shows "quota_bounds q"
proof -
  let ?r = "w AND 0x1f" and ?l = "drop_bit 5 w AND 0x1f" and ?m = "drop_bit 10 w AND 0x1f"
    and ?b = "drop_bit 15 w AND 0x0f" and ?d = "drop_bit 19 w AND 0xff"
    and ?x = "drop_bit 27 w AND 0x1f"
  have g: "\<not> ?r > 24" "\<not> ?l > 24" "\<not> ?d < 1" "\<not> ?d > 200"
    using assms by (auto simp: r_decode_quota_word_def Let_def split: if_splits)
  have q: "q = \<lparr>format_version = R_CREDENTIAL_FORMAT_VERSION,
      rate_buckets_max = push_bit (unat ?r) 1, latency_services_max = push_bit (unat ?l) 1,
      metrics_labels_max = push_bit (unat ?m) 1, latency_buffer_size_max = push_bit (unat ?b) 1,
      dedup_ttl_ms_max = ?d * 10,
      rate_window_size_ms_max = (if ?x = 31 then UINT32_MAX else push_bit (unat ?x) 1)\<rparr>"
    using assms g by (simp add: r_decode_quota_word_def Let_def)
  have r: "unat ?r \<le> 24" "unat ?l \<le> 24" using g(1,2) by (simp_all add: word_less_nat_alt)
  have m: "unat ?m \<le> 31" "unat ?x \<le> 31" "unat ?b \<le> 15"
    using unat_and_le [of "drop_bit 10 w" "0x1f"] unat_and_le [of "drop_bit 27 w" "0x1f"]
      unat_and_le [of "drop_bit 15 w" "0x0f"] by simp_all
  have d: "1 \<le> unat ?d" "unat ?d \<le> 200" using g(3,4) by (simp_all add: word_less_nat_alt)
  then have t: "unat (?d * 10) = unat ?d * 10" by (simp add: unat_word_ariths)
  have w: "1 \<le> unat (if ?x = 31 then UINT32_MAX else push_bit (unat ?x) 1)"
    using quota_exponent(1) [OF m(2)] by (simp add: UINT32_MAX_def)
  show ?thesis unfolding quota_bounds_def q r_bech32_quotas.simps t
    using quota_exponent [OF r(1)] quota_exponent [OF r(2)] quota_exponent [OF m(1)]
      quota_exponent [OF m(3)] d w by simp
qed

lemma bech32_char:
  assumes "unat v < 32"
  shows "r_bech32_char_value (bech32_char v) = Some v"
    and "33 \<le> bech32_char v" and "bech32_char v \<le> 126" and "bech32_char v \<noteq> 49"
    and "\<not> isupper (bech32_char v)"
  using bech32_char_table [unfolded list_all_iff, THEN bspec, of "unat v"] assms by simp_all

lemma those_chars: "below 5 vs \<Longrightarrow> those (map r_bech32_char_value (map bech32_char vs)) = Some vs"
  by (induction vs) (auto simp: bech32_char)

lemma strrchr_mid: "c \<notin> set ys \<Longrightarrow> strrchr (xs @ c # ys) c = Some (length xs)"
proof (induction xs)
  case Nil
  have "strrchr ys c = None" using Nil by (induction ys) auto
  then show ?case by simp
qed simp

lemma r_scan_case_lower:
  assumes "\<And>c. c \<in> set cs \<Longrightarrow> 33 \<le> c \<and> c \<le> 126 \<and> \<not> isupper c"
  shows "\<exists>lo'. r_scan_case cs lo False = Some (lo', False)"
  using assms
proof (induction cs arbitrary: lo)
  case (Cons c cs)
  have "\<not> (c < 33 \<or> 126 < c)" "\<not> isupper c" using Cons.prems [of c] by (simp_all add: not_less)
  then show ?case using Cons.IH [of "lo \<or> islower c"] Cons.prems by simp
qed simp

lemma map_tolower_id: "(\<And>c. c \<in> set cs \<Longrightarrow> \<not> isupper c) \<Longrightarrow> map tolower cs = cs"
  by (rule map_idI) (simp add: tolower_def)

text \<open>A lower-case text with the separator splits into its two parts.\<close>

lemma bech32_text_encode:
  assumes "below 5 vs" and "6 \<le> length vs" and "hrp \<noteq> []"
    and "\<And>c. c \<in> set hrp \<Longrightarrow> 33 \<le> c \<and> c \<le> 126 \<and> \<not> isupper c"
  shows "bech32_text (hrp @ 49 # map bech32_char vs) = Some (hrp, vs)"
proof -
  let ?e = "hrp @ 49 # map bech32_char vs"
  have v: "unat v < 32" if "v \<in> set vs" for v using assms(1) that by (auto simp: list_all_iff)
  have ok: "33 \<le> c \<and> c \<le> 126 \<and> \<not> isupper c" if "c \<in> set ?e" for c
    using that assms(4) bech32_char [OF v] by (auto simp: isupper_def)
  obtain lo where "r_scan_case ?e False False = Some (lo, False)"
    using r_scan_case_lower [of ?e False] ok by blast
  moreover have t: "map tolower ?e = ?e" using ok by (intro map_tolower_id) blast
  moreover have "49 \<notin> set (map bech32_char vs)" using bech32_char(4) [OF v] by auto
  ultimately show ?thesis
    using assms(2,3) those_chars [OF assms(1)]
    unfolding bech32_text_def t by (simp add: strrchr_mid del: map_map)
qed

text \<open>The issuer's side: the text of a credential.\<close>

definition credential_payload :: "u64 \<Rightarrow> byte list \<Rightarrow> u32 \<Rightarrow> byte list" where
  "credential_payload key secret quota = [1] @ le_bytes 8 key @ secret @ le_bytes 4 quota"

definition credential_hrp :: "r_auth_type \<Rightarrow> byte list" where
  "credential_hrp ty = (case ty of R_AUTH_COOKIE \<Rightarrow> cstr ''rl-cookie'' | R_AUTH_AES_GCM \<Rightarrow> cstr ''rl-aes'')"

definition credential_text :: "r_auth_type \<Rightarrow> u64 \<Rightarrow> byte list \<Rightarrow> u32 \<Rightarrow> byte list" where
  "credential_text ty key secret quota =
    (let hrp = credential_hrp ty;
         ds = be_digits 5 72 (be_nat 8 (credential_payload key secret quota))
     in hrp @ 49 # map bech32_char (ds @ bech32_checksum (hrp_expand hrp @ ds)))"

lemma regroup_digits:
  assumes "length P = 45"
  shows "regroup (be_digits 5 72 (be_nat 8 P)) = Some P"
proof -
  have b: "below 8 P" by (simp add: list_all_iff unsigned_less [where 'b=8, simplified])
  have "be_nat 8 P < 2 ^ (8 * length P)" using b by (rule be_nat_less)
  then have "be_nat 5 (be_digits 5 72 (be_nat 8 P)) = be_nat 8 P"
    using be_nat_be_digits [of 5 72 "be_nat 8 P"] assms by simp
  then show ?thesis
    using be_digits_be_nat [OF b] below_be_digits [of 5 72 "be_nat 8 P"] assms
    by (simp add: regroup_def Let_def)
qed

lemma payload_result_credential:
  assumes "length secret = 32" and "32 \<le> cap" and "r_decode_quota_word quota = Some q"
  shows "payload_result (credential_hrp ty) (credential_payload key secret quota) cap out =
    (True, \<lparr>out_type = ty, out_key_id = key, out_secret = secret @ drop 32 (out_secret out),
            out_secret_len = 32\<rparr>, Some q)"
proof -
  have "hrp_type (credential_hrp ty) = Some ty"
    by (cases ty) (simp_all add: hrp_type_def credential_hrp_def cstr_def)
  moreover have "take 8 (drop 1 (credential_payload key secret quota)) = le_bytes 8 key"
    "take 32 (drop 9 (credential_payload key secret quota)) = secret"
    "take 4 (drop 41 (credential_payload key secret quota)) = le_bytes 4 quota"
    using assms(1) by (simp_all add: credential_payload_def)
  ultimately show ?thesis using assms
    by (simp add: payload_result_def Let_def le_word_le_bytes) (simp add: credential_payload_def)
qed

lemma those_split:
  "those (us @ w # ws) = Some vs \<longleftrightarrow>
    (\<exists>vx va vy. those us = Some vx \<and> w = Some va \<and> those ws = Some vy \<and> vs = vx @ va # vy)"
proof (induction us arbitrary: vs)
  case Nil
  then show ?case by (auto split: option.splits)
next
  case (Cons u us)
  show ?case
  proof (cases u)
    case (Some v)
    have "those ((u # us) @ w # ws) = Some vs \<longleftrightarrow> (\<exists>zs. those (us @ w # ws) = Some zs \<and> vs = v # zs)"
      using Some by (auto split: option.splits)
    also have "\<dots> \<longleftrightarrow> (\<exists>vx va vy. those us = Some vx \<and> w = Some va \<and> those ws = Some vy
        \<and> vs = v # vx @ va # vy)"
      unfolding Cons.IH by blast
    finally show ?thesis using Some by (auto split: option.splits)
  qed simp
qed

lemma r_bech32_char_value_inj:
  assumes "r_bech32_char_value c = Some v" shows "c = bech32_char v"
proof -
  have "(c, v) \<in> set (map (\<lambda>(ch, v). (of_char ch, v)) bech32_cases)"
    using assms unfolding r_bech32_char_value_def by (rule map_of_SomeD)
  then show ?thesis by (auto simp: bech32_cases_def bech32_char_def)
qed

lemma tolower_sep: "tolower c = 49 \<longleftrightarrow> c = 49"
proof (cases "isupper c")
  case True
  then have u: "65 \<le> unat c" "unat c \<le> 90" by (simp_all add: isupper_def word_le_nat_alt)
  then have "unat (c + 32) = unat c + 32" by (simp add: unat_word_ariths)
  then have "unat (c + 32) \<noteq> unat (49 :: byte)" using u(1) by simp
  then have "c + 32 \<noteq> 49" by metis
  moreover have "c \<noteq> 49" using u(1) by auto
  ultimately show ?thesis using True by (simp add: tolower_def)
qed (simp add: tolower_def)

lemma bech32_text_split:
  assumes "49 \<notin> set cs" and "bech32_text (h @ 49 # cs) = Some (hrp, vs)"
  shows "hrp = map tolower h \<and> those (map r_bech32_char_value (map tolower cs)) = Some vs"
proof -
  have t: "map tolower (h @ 49 # cs) = map tolower h @ 49 # map tolower cs"
    using tolower_sep [of 49] by simp
  have n: "49 \<notin> set (map tolower cs)" using assms(1) tolower_sep by fastforce
  show ?thesis
    using assms(2) unfolding bech32_text_def t
    by (auto simp: strrchr_mid [OF n] Let_def simp del: map_map
        split: if_splits prod.splits Option.bind_splits)
qed

lemma decode_credential_text:
  assumes "length secret = 32" and "r_decode_quota_word quota = Some q"
    and "\<forall>k < 4. al k \<noteq> None" and "32 \<le> cap" and "cap \<le> length (out_secret out)"
  shows "r_decode_api_key_bech32_with_quotas al (Some (credential_text ty key secret quota)) cap out =
    Some (True, \<lparr>out_type = ty, out_key_id = key, out_secret = secret @ drop 32 (out_secret out),
                 out_secret_len = 32\<rparr>, Some q)"
proof -
  let ?P = "credential_payload key secret quota" let ?hrp = "credential_hrp ty"
  let ?ds = "be_digits 5 72 (be_nat 8 ?P)"
  let ?vs = "?ds @ bech32_checksum (hrp_expand ?hrp @ ?ds)"
  have h: "33 \<le> c \<and> c \<le> 126 \<and> \<not> isupper c" if "c \<in> set ?hrp" for c
    using that by (cases ty) (auto simp: credential_hrp_def cstr_def isupper_def)
  have hn: "?hrp \<noteq> []" by (cases ty) (simp_all add: credential_hrp_def cstr_def)
  have b: "below 5 ?vs" using below_be_digits [of 5] by (simp add: bech32_checksum_def)
  have l: "length ?vs = 78" by (simp add: bech32_checksum_def)
  have tx: "bech32_text (credential_text ty key secret quota) = Some (?hrp, ?vs)"
    unfolding credential_text_def Let_def using bech32_text_encode [OF b _ hn h] l by simp
  have "0 \<notin> set (credential_text ty key secret quota)"
  proof
    assume z: "0 \<in> set (credential_text ty key secret quota)"
    have "\<exists>lo up. r_scan_case (credential_text ty key secret quota) False False = Some (lo, up)"
      using tx by (auto simp: bech32_text_def split: Option.bind_splits)
    then show False using r_scan_case_range z by fastforce
  qed
  then have c: "c_string (credential_text ty key secret quota) = credential_text ty key secret quota"
    by (rule c_string_no_nul)
  have P: "length ?P = 45" using assms(1) by (simp add: credential_payload_def)
  have chk: "r_bech32_polymod (hrp_expand ?hrp @ ?vs) = 1"
    using bech32_checksum_valid [of "hrp_expand ?hrp @ ?ds"] by simp
  have "take (length ?vs - 6) ?vs = ?ds" unfolding l by simp
  then have "regroup (take (length ?vs - 6) ?vs) = Some ?P" using regroup_digits [OF P] by simp
  moreover have "allocated al" using assms(3) by (simp add: allocated_def)
  ultimately show ?thesis
    using payload_result_credential [OF assms(1,4,2)] chk
    unfolding r_decode_api_key_eq [OF assms(5)] c tx by simp
qed

subsection \<open>Properties of the credential decoder\<close>

lemma decode_api_key_total:
  assumes "cap \<le> length (out_secret out)"
  shows "\<exists>ok out' q. r_decode_api_key_bech32_with_quotas al encoded cap out = Some (ok, out', q)
    \<and> length (out_secret out') = length (out_secret out)
    \<and> (if ok then (\<exists>qs. q = Some qs \<and> quota_bounds qs) \<and> out_secret_len out' = 32 \<and> 32 \<le> cap
       else q = None)"
proof (cases encoded)
  case None
  then show ?thesis
    by (intro exI [of _ False] exI [of _ out] exI [of _ None])
      (simp add: r_decode_api_key_bech32_with_quotas_def)
next
  case (Some e)
  define post where "post = (\<lambda>(ok, out' :: api_key_out, q). length (out_secret out') = length (out_secret out)
    \<and> (if ok then (\<exists>qs. q = Some qs \<and> quota_bounds qs) \<and> out_secret_len out' = 32 \<and> 32 \<le> cap
       else q = None))"
  have p: "post (payload_result hrp P cap out)" for hrp P
    using assms r_decode_quota_word_bounds
    by (auto simp: post_def payload_result_def Let_def split: option.splits)
  have f: "post (False, out, None)" by (simp add: post_def)
  obtain r where "r_decode_api_key_bech32_with_quotas al encoded cap out = Some r" "post r"
    unfolding Some r_decode_api_key_eq [OF assms] using p f by (auto split: option.splits prod.splits)
  then show ?thesis by (cases r) (auto simp: post_def)
qed


definition sample_out :: api_key_out where
  "sample_out = \<lparr>out_type = R_AUTH_COOKIE, out_key_id = 0, out_secret = replicate 32 0,
     out_secret_len = 0\<rparr>"


text \<open>
  (C15) Every credential text that an issuer produces (a human-readable part, 72 data symbols for
  the version, key identity, secret and quota word, six checksum symbols) is decoded to exactly the
  key type, key identity, secret and quotas that went into it.
\<close>

theorem credential_roundtrip:
  assumes "length secret = 32" and "r_decode_quota_word quota = Some q"
    and "\<forall>k < 4. al k \<noteq> None" and "32 \<le> cap" and "cap \<le> length (out_secret out)"
  shows "r_decode_api_key_bech32_with_quotas al (Some (credential_text ty key secret quota)) cap out =
    Some (True, \<lparr>out_type = ty, out_key_id = key, out_secret = secret @ drop 32 (out_secret out),
                 out_secret_len = 32\<rparr>, Some q)"
  using assms by (rule decode_credential_text)

theorem credential_roundtrip_witness:
  "r_decode_api_key_bech32_with_quotas (\<lambda>k. Some (\<lambda>i. 0))
     (Some (credential_text R_AUTH_AES_GCM 7 (replicate 32 5) 0x00080000)) 32 sample_out =
   Some (True, \<lparr>out_type = R_AUTH_AES_GCM, out_key_id = 7, out_secret = replicate 32 5,
                out_secret_len = 32\<rparr>,
     Some \<lparr>format_version = 1, rate_buckets_max = 1, latency_services_max = 1,
           metrics_labels_max = 1, latency_buffer_size_max = 1, dedup_ttl_ms_max = 10,
           rate_window_size_ms_max = 1\<rparr>)"
proof -
  have "r_decode_quota_word 0x00080000 = Some \<lparr>format_version = 1, rate_buckets_max = 1,
      latency_services_max = 1, metrics_labels_max = 1, latency_buffer_size_max = 1,
      dedup_ttl_ms_max = 10, rate_window_size_ms_max = 1\<rparr>"
    by (simp add: r_decode_quota_word_def Let_def R_CREDENTIAL_FORMAT_VERSION_def drop_bit_eq_div)
  from credential_roundtrip [OF _ this, of "replicate 32 5" "\<lambda>k. Some (\<lambda>i. 0)" 32 sample_out]
  show ?thesis by (simp add: sample_out_def)
qed


definition sample_data :: "byte list" where
  "sample_data = (let ds = be_digits 5 72 (be_nat 8 (credential_payload 7 (replicate 32 5) 0x00080000))
     in map bech32_char (ds @ bech32_checksum (hrp_expand (cstr ''rl-cookie'') @ ds)))"

definition sample_typo :: byte where
  "sample_typo = (if hd sample_data = of_char (CHR ''q'') then of_char (CHR ''p'') else of_char (CHR ''q''))"


end
