(* ===== verification/Policy.thy ===== *)
theory Policy
  imports Crypto
begin

text \<open>
  The request policy: \<^verbatim>\<open>src/r_policy.c\<close> and the policy functions of \<^verbatim>\<open>src/r_client.c\<close> (schedule of the
  replay rounds, total deduplication time, window quota).  The client pointer of the C functions is
  replaced by the two members they read, the policy and the credential's quotas (\<open>has_quotas\<close> with
  \<open>quotas\<close>, as an option).
\<close>

datatype r_ha_schedule_kind =
    R_HA_SCHEDULE_FIXED
  | R_HA_SCHEDULE_LINEAR
  | R_HA_SCHEDULE_EXPONENTIAL
  | R_HA_SCHEDULE_OTHER int

text \<open>
  The last constructor stands for the enum values without a name, which a caller may store.  The
  two members of the union \<open>growth\<close> are one 32-bit word.
\<close>

record r_ha_schedule =
  kind :: r_ha_schedule_kind
  initial_units :: u32
  max_units :: u32
  growth :: u32

record r_request_policy =
  unit_ms :: u64
  replay_count :: u32
  replay_gap :: r_ha_schedule
  final_receive_units :: u32
  completion_delivery :: bool

definition R_CLIENT_HA_MAX_REPLAY_COUNT :: u32 where
  "R_CLIENT_HA_MAX_REPLAY_COUNT = 65535"

definition r_client_default_request_policy :: r_request_policy where
  "r_client_default_request_policy = \<lparr>
     unit_ms = 20,
     replay_count = 1,
     replay_gap = \<lparr>kind = R_HA_SCHEDULE_FIXED, initial_units = 1, max_units = 1, growth = 0\<rparr>,
     final_receive_units = 1,
     completion_delivery = True\<rparr>"

definition r_rate_window_size_quota :: "r_bech32_quotas option \<Rightarrow> u32 option" where
  "r_rate_window_size_quota quotas = (case quotas of
     None \<Rightarrow> None
   | Some q \<Rightarrow> Some (rate_window_size_ms_max q))"

text \<open>The \<open>while\<close> loop of the exponential schedule; the counter is the C variable \<open>round\<close>.\<close>

fun r_ha_exponential_loop :: "u32 \<Rightarrow> u32 \<Rightarrow> u32 \<Rightarrow> nat \<Rightarrow> u32" where
  "r_ha_exponential_loop factor max_u val 0 = val"
| "r_ha_exponential_loop factor max_u val (Suc round) =
    (if val < max_u then
       r_ha_exponential_loop factor max_u
         (if val > max_u div factor then max_u else val * factor) round
     else val)"

definition r_ha_schedule_units :: "r_ha_schedule \<Rightarrow> u32 \<Rightarrow> bool \<Rightarrow> r_client_error + u32" where
  "r_ha_schedule_units schedule round allow_zero =
    (if (\<not> allow_zero \<and> initial_units schedule = 0) \<or> initial_units schedule > max_units schedule
     then Inl RCLIENT_ERR_CONFIG
     else
       let val = initial_units schedule in
       case kind schedule of
         R_HA_SCHEDULE_FIXED \<Rightarrow> Inr val
       | R_HA_SCHEDULE_LINEAR \<Rightarrow>
           (let step = growth schedule in
            if step = 0 then Inl RCLIENT_ERR_CONFIG
            else
              let room = max_units schedule - val in
              if round > room div step then Inr (max_units schedule)
              else Inr (val + round * step))
       | R_HA_SCHEDULE_EXPONENTIAL \<Rightarrow>
           (let factor = growth schedule in
            if factor < 2 then Inl RCLIENT_ERR_CONFIG
            else Inr (r_ha_exponential_loop factor (max_units schedule) val (unat round)))
       | R_HA_SCHEDULE_OTHER _ \<Rightarrow> Inl RCLIENT_ERR_CONFIG)"

text \<open>The \<open>for\<close> loop over the rounds; \<open>n\<close> counts the iterations that are left.\<close>

fun r_ttl_loop :: "r_request_policy \<Rightarrow> u64 \<Rightarrow> u32 \<Rightarrow> nat \<Rightarrow> u64 \<Rightarrow> r_client_error + u64" where
  "r_ttl_loop policy max_ttl_ms round 0 total_units = Inr total_units"
| "r_ttl_loop policy max_ttl_ms round (Suc n) total_units =
    (case r_ha_schedule_units (replay_gap policy) round False of
       Inl _ \<Rightarrow> Inl RCLIENT_ERR_CONFIG
     | Inr gap_units \<Rightarrow>
         if total_units > UINT64_MAX - ucast gap_units then Inl RCLIENT_ERR_CONFIG
         else
           let total_units = total_units + ucast gap_units in
           if total_units > max_ttl_ms div unit_ms policy then Inl RCLIENT_ERR_CONFIG
           else r_ttl_loop policy max_ttl_ms (round + 1) n total_units)"

definition r_request_policy_ttl_ms ::
  "r_request_policy \<Rightarrow> r_bech32_quotas option \<Rightarrow> r_client_error + u32" where
  "r_request_policy_ttl_ms policy quotas =
    (if unit_ms policy = 0 \<or> replay_count policy > R_CLIENT_HA_MAX_REPLAY_COUNT
     then Inl RCLIENT_ERR_CONFIG
     else
       let max_ttl_ms = (case quotas of
             None \<Rightarrow> ucast UINT32_MAX
           | Some q \<Rightarrow> if dedup_ttl_ms_max q > 0 then ucast (dedup_ttl_ms_max q) else ucast UINT32_MAX) in
       if unit_ms policy > max_ttl_ms then Inl RCLIENT_ERR_CONFIG
       else case r_ttl_loop policy max_ttl_ms 0 (unat (replay_count policy) + 1) 0 of
         Inl e \<Rightarrow> Inl e
       | Inr total_units \<Rightarrow>
           if total_units > UINT64_MAX - ucast (final_receive_units policy)
           then Inl RCLIENT_ERR_CONFIG
           else
             let total_units = total_units + ucast (final_receive_units policy) in
             if total_units = 0
                \<or> total_units > ucast UINT32_MAX div unit_ms policy
                \<or> total_units > max_ttl_ms div unit_ms policy
             then Inl RCLIENT_ERR_CONFIG
             else Inr (ucast (total_units * unit_ms policy)))"

fun r_windows_within :: "u32 \<Rightarrow> r_resource_request list \<Rightarrow> r_client_error" where
  "r_windows_within limit [] = RCLIENT_OK"
| "r_windows_within limit (r # rs) =
    (if window_size_ms r > limit then RCLIENT_ERR_PROTOCOL else r_windows_within limit rs)"

definition r_validate_resource_windows ::
  "r_bech32_quotas option \<Rightarrow> r_resource_request list \<Rightarrow> r_client_error" where
  "r_validate_resource_windows quotas resources =
    (case r_rate_window_size_quota quotas of
       None \<Rightarrow> RCLIENT_OK
     | Some limit \<Rightarrow> r_windows_within limit resources)"

subsection \<open>Facts: schedules\<close>

definition schedule_valid :: "bool \<Rightarrow> r_ha_schedule \<Rightarrow> bool" where
  "schedule_valid allow_zero s \<longleftrightarrow> (allow_zero \<or> initial_units s \<noteq> 0)
     \<and> initial_units s \<le> max_units s
     \<and> (case kind s of R_HA_SCHEDULE_FIXED \<Rightarrow> True
        | R_HA_SCHEDULE_LINEAR \<Rightarrow> growth s \<noteq> 0
        | R_HA_SCHEDULE_EXPONENTIAL \<Rightarrow> 2 \<le> growth s
        | R_HA_SCHEDULE_OTHER _ \<Rightarrow> False)"

text \<open>The duration of round \<open>k\<close>, in units, without machine arithmetic.\<close>

definition schedule_value :: "r_ha_schedule \<Rightarrow> nat \<Rightarrow> nat" where
  "schedule_value s k = (case kind s of
      R_HA_SCHEDULE_LINEAR \<Rightarrow> min (unat (max_units s)) (unat (initial_units s) + k * unat (growth s))
    | R_HA_SCHEDULE_EXPONENTIAL \<Rightarrow> min (unat (max_units s)) (unat (initial_units s) * unat (growth s) ^ k)
    | _ \<Rightarrow> unat (initial_units s))"

lemma unat_bound: "unat (w :: 'a::len word) < 2 ^ LENGTH('a)"
  by (rule unsigned_less)

lemma unat_of_nat_fits: "n < 2 ^ LENGTH('a) \<Longrightarrow> unat (of_nat n :: 'a::len word) = n"
  by (simp add: unat_of_nat take_bit_nat_eq_self)

lemma unat_mult_fits: "unat a * unat b < 2 ^ LENGTH('a) \<Longrightarrow> unat (a * b :: 'a::len word) = unat a * unat b"
  by (simp add: unat_word_ariths)

lemma unat_add_fits: "unat a + unat b < 2 ^ LENGTH('a) \<Longrightarrow> unat (a + b :: 'a::len word) = unat a + unat b"
  by (simp add: unat_word_ariths)

lemma r_ha_exponential_loop_eq:
  assumes "2 \<le> f" and "v \<le> m"
  shows "unat (r_ha_exponential_loop f m v n) = min (unat m) (unat v * unat f ^ n)"
  using assms(2)
proof (induction n arbitrary: v)
  case 0
  then show ?case by (simp add: word_le_nat_alt)
next
  case (Suc n)
  have f: "2 \<le> unat f" using assms(1) by (simp add: word_le_nat_alt)
  then have f1: "1 \<le> unat f ^ k" for k by simp
  have vm: "unat v \<le> unat m" using Suc.prems by (simp add: word_le_nat_alt)
  consider "v < m" "v > m div f" | "v < m" "\<not> v > m div f" | "v = m"
    using Suc.prems by force
  then show ?case
  proof cases
    case 1
    then have "unat m div unat f < unat v" by (simp add: word_less_nat_alt unat_div)
    then have "unat m < unat v * unat f" using f by (simp add: div_less_iff_less_mult)
    then have "unat m \<le> unat v * unat f * unat f ^ n"
      using f1 [of n] by (metis less_imp_le mult_le_mono nat_mult_1_right)
    moreover have "unat m \<le> unat m * unat f ^ n" using f1 [of n] by simp
    ultimately show ?thesis using 1 Suc.IH [of m] by (simp add: mult.assoc)
  next
    case 2
    then have "unat v \<le> unat m div unat f" by (simp add: not_less word_le_nat_alt unat_div)
    then have le: "unat v * unat f \<le> unat m"
      using f by (simp add: less_eq_div_iff_mult_less_eq)
    then have vf: "unat (v * f) = unat v * unat f"
      using unat_mult_fits [of v f] unat_bound [of m] by simp
    then have "v * f \<le> m" using le by (simp add: word_le_nat_alt)
    then show ?thesis using 2 Suc.IH [of "v * f"] vf by (simp add: mult.assoc)
  next
    case 3
    have "unat m \<le> unat m * unat f ^ Suc n" using f1 [of "Suc n"] by (metis mult_le_mono2 nat_mult_1_right)
    then show ?thesis using 3 by simp
  qed
qed

lemma r_ha_schedule_units_eq:
  "r_ha_schedule_units s k allow_zero =
    (if schedule_valid allow_zero s then Inr (of_nat (schedule_value s (unat k)))
     else Inl RCLIENT_ERR_CONFIG)"
proof (cases "schedule_valid allow_zero s")
  case False
  then show ?thesis
    by (auto simp: r_ha_schedule_units_def schedule_valid_def Let_def not_le
        split: r_ha_schedule_kind.splits)
next
  case True
  let ?i = "initial_units s" and ?m = "max_units s" and ?g = "growth s"
  have im: "unat ?i \<le> unat ?m" and g: "\<not> ((\<not> allow_zero \<and> ?i = 0) \<or> ?i > ?m)"
    using True by (auto simp: schedule_valid_def word_le_nat_alt word_less_nat_alt)
  show ?thesis
  proof (cases "kind s")
    case R_HA_SCHEDULE_FIXED
    then show ?thesis using True g
      by (simp add: r_ha_schedule_units_def Let_def schedule_value_def)
  next
    case R_HA_SCHEDULE_LINEAR
    have s0: "?g \<noteq> 0" using True R_HA_SCHEDULE_LINEAR by (simp add: schedule_valid_def)
    then have sp: "0 < unat ?g" by (simp add: unat_gt_0)
    have room: "unat (?m - ?i) = unat ?m - unat ?i"
      using im by (simp add: unat_sub word_le_nat_alt)
    have c: "k > (?m - ?i) div ?g \<longleftrightarrow> unat ?m < unat ?i + unat k * unat ?g"
      using sp im unfolding word_less_nat_alt unat_div room
      by (auto simp: div_less_iff_less_mult)
    have "?i + k * ?g = of_nat (unat ?i + unat k * unat ?g)" by simp
    then show ?thesis using True g c s0 R_HA_SCHEDULE_LINEAR
      by (auto simp: r_ha_schedule_units_def Let_def schedule_value_def min_def)
  next
    case R_HA_SCHEDULE_EXPONENTIAL
    then have "2 \<le> ?g" "?i \<le> ?m" using True by (simp_all add: schedule_valid_def)
    then have u: "unat (r_ha_exponential_loop ?g ?m ?i (unat k)) = schedule_value s (unat k)"
      using r_ha_exponential_loop_eq [of ?g ?i ?m "unat k"] R_HA_SCHEDULE_EXPONENTIAL
      by (simp add: schedule_value_def)
    have "r_ha_exponential_loop ?g ?m ?i (unat k) = of_nat (unat (r_ha_exponential_loop ?g ?m ?i (unat k)))"
      by simp
    then show ?thesis unfolding u using True g R_HA_SCHEDULE_EXPONENTIAL \<open>2 \<le> ?g\<close>
      by (simp add: r_ha_schedule_units_def Let_def not_less)
  next
    case (R_HA_SCHEDULE_OTHER x)
    then show ?thesis using True by (simp add: schedule_valid_def)
  qed
qed

lemma schedule_value_bounds:
  assumes "schedule_valid az s"
  shows "unat (initial_units s) \<le> schedule_value s k" and "schedule_value s k \<le> unat (max_units s)"
    and "schedule_value s k < 2 ^ 32"
proof -
  have im: "unat (initial_units s) \<le> unat (max_units s)"
    using assms by (simp add: schedule_valid_def word_le_nat_alt)
  have "unat (initial_units s) \<le> unat (initial_units s) * unat (growth s) ^ k"
    if "kind s = R_HA_SCHEDULE_EXPONENTIAL"
  proof -
    have "2 \<le> unat (growth s)" using assms that by (simp add: schedule_valid_def word_le_nat_alt)
    then show ?thesis by simp
  qed
  with im show "unat (initial_units s) \<le> schedule_value s k"
    using assms by (auto simp: schedule_value_def schedule_valid_def split: r_ha_schedule_kind.splits)
  show m: "schedule_value s k \<le> unat (max_units s)"
    using im by (simp add: schedule_value_def split: r_ha_schedule_kind.splits)
  then show "schedule_value s k < 2 ^ 32" using unat_bound [of "max_units s"] by simp
qed

lemma schedule_value_mono:
  assumes "schedule_valid az s" and "j \<le> k"
  shows "schedule_value s j \<le> schedule_value s k"
proof -
  have "unat (growth s) ^ j \<le> unat (growth s) ^ k" if "kind s = R_HA_SCHEDULE_EXPONENTIAL"
    using assms that by (intro power_increasing) (auto simp: schedule_valid_def word_le_nat_alt)
  then show ?thesis using assms(2)
    by (auto simp: schedule_value_def min_le_iff_disj intro: min.coboundedI2
        split: r_ha_schedule_kind.splits) 
qed

subsection \<open>Facts: the deduplication time\<close>

definition max_ttl :: "r_bech32_quotas option \<Rightarrow> nat" where
  "max_ttl quotas = (case quotas of
     None \<Rightarrow> 2 ^ 32 - 1
   | Some q \<Rightarrow> if dedup_ttl_ms_max q = 0 then 2 ^ 32 - 1 else unat (dedup_ttl_ms_max q))"

text \<open>The total of the policy in units: all the rounds and the final receive time.\<close>

definition policy_rounds :: "r_request_policy \<Rightarrow> nat \<Rightarrow> nat" where
  "policy_rounds p n = (\<Sum>k<n. schedule_value (replay_gap p) k)"

definition policy_units :: "r_request_policy \<Rightarrow> nat" where
  "policy_units p = policy_rounds p (unat (replay_count p) + 1) + unat (final_receive_units p)"

definition policy_valid :: "r_request_policy \<Rightarrow> r_bech32_quotas option \<Rightarrow> bool" where
  "policy_valid p quotas \<longleftrightarrow> unit_ms p \<noteq> 0 \<and> unat (replay_count p) \<le> 65535
     \<and> schedule_valid False (replay_gap p)
     \<and> unat (unit_ms p) * policy_units p \<le> max_ttl quotas"

lemma unat_ucast_u64: "unat (ucast (w :: u32) :: u64) = unat w"
proof -
  have "unat w < 2 ^ 64" using unat_bound [of w] by simp
  then show ?thesis by (simp add: unsigned_ucast_eq take_bit_nat_eq_self)
qed

lemma r_ttl_loop_eq:
  assumes "schedule_valid False (replay_gap p)" and "unit_ms p \<noteq> 0" and "unat M < 2 ^ 32"
    and "unat r + n < 2 ^ 32" and "unat t \<le> unat M div unat (unit_ms p)"
  shows "r_ttl_loop p M r n t =
    (if unat t + (\<Sum>i<n. schedule_value (replay_gap p) (unat r + i)) \<le> unat M div unat (unit_ms p)
     then Inr (t + of_nat (\<Sum>i<n. schedule_value (replay_gap p) (unat r + i)))
     else Inl RCLIENT_ERR_CONFIG)"
  using assms(4,5)
proof (induction n arbitrary: r t)
  case 0
  then show ?case by simp
next
  case (Suc n)
  let ?L = "unat M div unat (unit_ms p)" and ?s = "replay_gap p"
  define v where "v = schedule_value ?s (unat r)"
  have v32: "v < 2 ^ 32" unfolding v_def using schedule_value_bounds(3) [OF assms(1)] .
  have g: "r_ha_schedule_units ?s r False = Inr (of_nat v)"
    using assms(1) by (simp add: r_ha_schedule_units_eq v_def)
  have c: "(ucast (of_nat v :: u32) :: u64) = of_nat v" "unat (of_nat v :: u64) = v"
    using v32 by (simp_all add: word_unat_eq_iff unat_ucast_u64 unat_of_nat take_bit_nat_eq_self)
  have L: "?L < 2 ^ 32" using assms(3) div_le_dividend [of "unat M" "unat (unit_ms p)"] by linarith
  have t32: "unat t < 2 ^ 32" using Suc.prems(2) L by linarith
  have tv: "unat (t + of_nat v) = unat t + v"
    using t32 v32 unat_add_fits [of t "of_nat v"] unfolding c by simp
  have "unat (UINT64_MAX - of_nat v) = 2 ^ 64 - 1 - v"
    using v32 by (subst unat_sub) (simp_all add: word_le_nat_alt c UINT64_MAX_def)
  then have no: "\<not> t > UINT64_MAX - of_nat v"
    using t32 v32 by (simp add: word_less_nat_alt)
  have lim: "t + of_nat v > M div unit_ms p \<longleftrightarrow> ?L < unat t + v"
    by (simp only: word_less_nat_alt unat_div tv)
  have r1: "unat (r + 1) = unat r + 1" using Suc.prems(1) unat_add_fits [of r 1] by simp
  have sum: "(\<Sum>i<Suc n. schedule_value ?s (unat r + i)) = v + (\<Sum>i<n. schedule_value ?s (unat (r + 1) + i))"
    unfolding sum.lessThan_Suc_shift r1 v_def by simp
  show ?case
  proof (cases "?L < unat t + v")
    case True
    then show ?thesis unfolding sum using g no lim by (simp add: c Let_def)
  next
    case False
    then have "r_ttl_loop p M (r + 1) n (t + of_nat v) =
      (if unat (t + of_nat v) + (\<Sum>i<n. schedule_value ?s (unat (r + 1) + i)) \<le> ?L
       then Inr (t + of_nat v + of_nat (\<Sum>i<n. schedule_value ?s (unat (r + 1) + i)))
       else Inl RCLIENT_ERR_CONFIG)"
      using Suc.prems(1) r1 tv by (intro Suc.IH) simp_all
    then show ?thesis unfolding sum using g no lim False
      by (simp add: c Let_def tv add.assoc)
  qed
qed

lemma r_ttl_loop_invalid:
  "\<not> schedule_valid False (replay_gap p) \<Longrightarrow> r_ttl_loop p M r (Suc n) t = Inl RCLIENT_ERR_CONFIG"
  by (simp add: r_ha_schedule_units_eq)

lemma policy_units_pos:
  assumes "schedule_valid False (replay_gap p)" shows "1 \<le> policy_units p"
proof -
  have "1 \<le> schedule_value (replay_gap p) 0"
    using schedule_value_bounds(1) [OF assms, of 0] assms
    by (metis One_nat_def Suc_leI le_trans schedule_valid_def unat_gt_0)
  then show ?thesis
    unfolding policy_units_def policy_rounds_def Suc_eq_plus1 [symmetric] sum.lessThan_Suc_shift by simp
qed

lemma r_request_policy_ttl_ms_eq:
  "r_request_policy_ttl_ms p quotas =
    (if policy_valid p quotas then Inr (of_nat (unat (unit_ms p) * policy_units p))
     else Inl RCLIENT_ERR_CONFIG)"
proof (cases "unit_ms p = 0 \<or> 65535 < unat (replay_count p) \<or> \<not> schedule_valid False (replay_gap p)")
  case True
  have R: "replay_count p > R_CLIENT_HA_MAX_REPLAY_COUNT \<longleftrightarrow> 65535 < unat (replay_count p)"
    by (simp add: word_less_nat_alt R_CLIENT_HA_MAX_REPLAY_COUNT_def)
  show ?thesis using True
    unfolding r_request_policy_ttl_ms_def policy_valid_def R Let_def Suc_eq_plus1 [symmetric]
    by (auto simp: r_ttl_loop_invalid simp del: r_ttl_loop.simps)
next
  case False
  let ?U = "unat (unit_ms p)" and ?F = "unat (final_receive_units p)"
  let ?N = "unat (replay_count p) + 1" and ?L = "max_ttl quotas div unat (unit_ms p)"
  define M :: u64 where "M = (case quotas of
      None \<Rightarrow> ucast UINT32_MAX
    | Some q \<Rightarrow> if dedup_ttl_ms_max q > 0 then ucast (dedup_ttl_ms_max q) else ucast UINT32_MAX)"
  have M: "unat M = max_ttl quotas"
    by (auto simp: M_def max_ttl_def unat_ucast_u64 UINT32_MAX_def word_greater_zero_iff split: option.splits)
  have M32: "unat M < 2 ^ 32"
    unfolding M using unat_bound [where 'a=32] by (auto simp: max_ttl_def split: option.splits)
  have sv: "schedule_valid False (replay_gap p)" and U0: "unit_ms p \<noteq> 0" and R: "unat (replay_count p) \<le> 65535"
    using False by auto
  then have Up: "0 < ?U" by (simp add: unat_gt_0)
  define S where "S = policy_rounds p ?N"
  have units: "policy_units p = S + ?F" by (simp add: policy_units_def S_def)
  have pos: "1 \<le> S + ?F" using policy_units_pos [OF sv] units by simp
  have loop: "r_ttl_loop p M 0 ?N 0 = (if S \<le> ?L then Inr (of_nat S) else Inl RCLIENT_ERR_CONFIG)"
    using r_ttl_loop_eq [OF sv U0 M32, of 0 ?N 0] R M by (simp add: S_def policy_rounds_def)
  have L: "?L < 2 ^ 32" using M32 unfolding M by (meson div_le_dividend le_less_trans)
  have valid: "policy_valid p quotas \<longleftrightarrow> S + ?F \<le> ?L"
    using sv U0 R Up by (simp add: policy_valid_def units less_eq_div_iff_mult_less_eq mult.commute)
  have R': "\<not> replay_count p > R_CLIENT_HA_MAX_REPLAY_COUNT"
    using R by (simp add: word_less_nat_alt R_CLIENT_HA_MAX_REPLAY_COUNT_def)
  have big: "unit_ms p > M \<Longrightarrow> ?L = 0"
    using M by (simp add: word_less_nat_alt)
  note start = r_request_policy_ttl_ms_def Let_def M_def [symmetric] loop
  show ?thesis
  proof (cases "unit_ms p > M \<or> \<not> S \<le> ?L")
    case True
    then have "\<not> policy_valid p quotas" using valid big pos by auto
    then show ?thesis using True U0 R' unfolding start by auto
  next
    case False
    let ?f = "ucast (final_receive_units p) :: u64"
    have S: "S < 2 ^ 32" "unat (of_nat S :: u64) = S"
      using False L by (simp_all add: unat_of_nat take_bit_nat_eq_self)
    have F: "unat ?f = ?F" "?F < 2 ^ 32" using unat_bound [of "final_receive_units p"]
      by (simp_all add: unat_ucast_u64)
    have "unat (UINT64_MAX - ?f) = 2 ^ 64 - 1 - ?F"
      using F by (subst unat_sub) (simp_all add: word_le_nat_alt UINT64_MAX_def)
    then have no: "\<not> of_nat S > UINT64_MAX - ?f" using S F by (simp add: word_less_nat_alt)
    have tot: "unat (of_nat S + ?f) = S + ?F"
      using S F unat_add_fits [of "of_nat S" ?f] by simp
    have nz: "of_nat S + ?f \<noteq> 0" using tot pos by (metis not_one_le_zero unsigned_0)
    have l1: "of_nat S + ?f > M div unit_ms p \<longleftrightarrow> ?L < S + ?F"
      by (simp only: word_less_nat_alt unat_div tot M)
    have "unat M \<le> unat (ucast UINT32_MAX :: u64)"
      using M32 by (simp add: unat_ucast_u64 UINT32_MAX_def)
    then have l2: "of_nat S + ?f > ucast UINT32_MAX div unit_ms p \<Longrightarrow> ?L < S + ?F"
      unfolding word_less_nat_alt unat_div tot M [symmetric] by (meson div_le_mono le_less_trans)
    have res: "ucast ((of_nat S + ?f) * unit_ms p) = (of_nat (?U * (S + ?F)) :: u32)" if "S + ?F \<le> ?L"
    proof -
      have "?U * (S + ?F) < 2 ^ 32"
        using that M32 Up unfolding M by (simp add: less_eq_div_iff_mult_less_eq mult.commute)
      then have "unat ((of_nat S + ?f) * unit_ms p) = ?U * (S + ?F)"
        using tot unat_mult_fits [of "of_nat S + ?f" "unit_ms p"] by (simp add: mult.commute)
      then show ?thesis by (metis of_nat_unat)
    qed
    show ?thesis using False U0 R' no nz l1 l2 res unfolding start valid units by auto
  qed
qed

subsection \<open>Properties of the request policy\<close>

text \<open>
  (C17) The duration of a round is the closed form of its schedule, capped at the maximum: constant,
  \<open>initial + k * step\<close> or \<open>initial * factor ^ k\<close>, with no wrap-around for any round number; it never
  shrinks from one round to a later one.  A malformed schedule is the configuration error.
\<close>

theorem schedule_units_closed_form:
  "r_ha_schedule_units s k allow_zero = Inl RCLIENT_ERR_CONFIG \<and> \<not> schedule_valid allow_zero s \<or>
   (\<exists>w. r_ha_schedule_units s k allow_zero = Inr w \<and> schedule_valid allow_zero s
      \<and> unat w = (case kind s of
            R_HA_SCHEDULE_LINEAR \<Rightarrow> min (unat (max_units s)) (unat (initial_units s) + unat k * unat (growth s))
          | R_HA_SCHEDULE_EXPONENTIAL \<Rightarrow>
              min (unat (max_units s)) (unat (initial_units s) * unat (growth s) ^ unat k)
          | _ \<Rightarrow> unat (initial_units s))
      \<and> (\<forall>j \<le> unat k. schedule_value s j \<le> unat w))"
proof (cases "schedule_valid allow_zero s")
  case True
  then have "unat (of_nat (schedule_value s (unat k)) :: u32) = schedule_value s (unat k)"
    using schedule_value_bounds(3) [OF True, of "unat k"] by (simp add: unat_of_nat take_bit_nat_eq_self)
  then show ?thesis using True schedule_value_mono [OF True]
    by (simp add: r_ha_schedule_units_eq) (simp add: schedule_value_def)
qed (simp add: r_ha_schedule_units_eq)

theorem schedule_units_closed_form_witness:
  "\<exists>w. r_ha_schedule_units \<lparr>kind = R_HA_SCHEDULE_EXPONENTIAL, initial_units = 3, max_units = 100, growth = 2\<rparr>
        20 False = Inr w \<and> unat w = 100
      \<and> (\<forall>j \<le> 20. schedule_value \<lparr>kind = R_HA_SCHEDULE_EXPONENTIAL, initial_units = 3, max_units = 100, growth = 2\<rparr> j
           \<le> unat w)"
proof -
  let ?s = "\<lparr>kind = R_HA_SCHEDULE_EXPONENTIAL, initial_units = 3, max_units = 100, growth = 2\<rparr> :: r_ha_schedule"
  have v: "schedule_valid False ?s" by (simp add: schedule_valid_def)
  show ?thesis using schedule_units_closed_form [of ?s 20 False] v by auto
qed

text \<open>
  (C18) The deduplication time of a policy is exactly its unit times the sum of all its rounds and
  the final receive time, computed without wrap-around, positive, and within the credential's
  quota.  The function fails, with the configuration error, precisely when the policy is malformed
  or that product exceeds the quota.
\<close>

theorem policy_ttl_exact:
  "(\<forall>ttl. r_request_policy_ttl_ms p quotas = Inr ttl \<longleftrightarrow>
      unit_ms p \<noteq> 0 \<and> unat (replay_count p) \<le> 65535 \<and> schedule_valid False (replay_gap p)
      \<and> unat ttl = unat (unit_ms p)
          * ((\<Sum>k \<le> unat (replay_count p). schedule_value (replay_gap p) k) + unat (final_receive_units p))
      \<and> unat ttl \<le> max_ttl quotas
      \<and> unat (unit_ms p) * policy_units p \<le> max_ttl quotas \<and> 0 < ttl)
   \<and> (\<forall>e. r_request_policy_ttl_ms p quotas = Inl e \<longrightarrow> e = RCLIENT_ERR_CONFIG)"
proof -
  have u: "policy_units p
      = (\<Sum>k \<le> unat (replay_count p). schedule_value (replay_gap p) k) + unat (final_receive_units p)"
    by (simp add: policy_units_def policy_rounds_def lessThan_Suc_atMost)
  have m: "max_ttl quotas < 2 ^ 32"
    using unat_bound [where 'a=32] by (auto simp: max_ttl_def split: option.splits)
  define t where "t = unat (unit_ms p) * policy_units p"
  have f: "unat (of_nat t :: u32) = t" if "t \<le> max_ttl quotas"
    using that m unat_of_nat_fits [of t, where 'a=32] by simp
  have pos: "0 < t" if "policy_valid p quotas"
    using that policy_units_pos [of p] by (simp add: t_def policy_valid_def unat_gt_0)
  show ?thesis unfolding r_request_policy_ttl_ms_eq u [symmetric] t_def [symmetric]
    using f pos by (auto simp: policy_valid_def t_def [symmetric] word_unat_eq_iff word_less_nat_alt)
qed

theorem policy_ttl_exact_witness:
  "r_request_policy_ttl_ms r_client_default_request_policy None = Inr 60"
proof -
  let ?p = r_client_default_request_policy
  have s: "schedule_valid False (replay_gap ?p)" "schedule_value (replay_gap ?p) k = 1" for k
    by (simp_all add: r_client_default_request_policy_def schedule_valid_def schedule_value_def)
  show ?thesis
    using policy_ttl_exact [of ?p None, THEN conjunct1, THEN spec, of 60] s
    by (simp add: max_ttl_def policy_units_def policy_rounds_def)
      (simp add: r_client_default_request_policy_def)
qed

end
