(* ===== verification/Client_State.thy ===== *)
theory Client_State
  imports Policy
begin

text \<open>
  The state of a client of \<^verbatim>\<open>src/r_client.c\<close>, the host hooks of \<^verbatim>\<open>include/r_client_io.h\<close>, and the
  helper functions that work on one request or on one address.

  A system state \<open>'w sys\<close> holds the client object (\<open>None\<close> once it has been freed), the two kinds of
  DNS heap objects as stores from addresses to objects, the host's own state \<open>'w\<close>, and a trace of
  the hook calls made so far.  The trace is what properties about sends and callbacks speak of; no
  operation reads it.  Hooks of the host (sockets, clock, resolver, random numbers, allocation)
  are functions on \<open>'w\<close>; the completion callback is a function on the whole system state, since a
  callback may call the API again.

  A request is identified by a handle; using a handle that is not in flight is undefined behaviour.
  Freed arrays are not represented: an array is the list of its elements.
\<close>

subsection \<open>Addresses, endpoints, results\<close>

record r_addr =
  sa :: "byte list"
  sa_len :: nat

record r_server_endpoint =
  ep_addr :: r_addr
  ep_server_id :: u64
  has_server_id :: bool

record r_rate_limit_result =
  success :: bool
  result_server_id :: u64
  result_steering_feedback :: bool
  result_guards :: "r_guard_result list"
  result_resources :: "r_resource_result list"

datatype r_request_phase = R_REQUEST_PHASE_ROUND | R_REQUEST_PHASE_FINAL

datatype r_request_completion_phase = R_REQUEST_COMPLETION_ROUND | R_REQUEST_COMPLETION_FINAL_RECEIVE

record r_request_profile =
  wait_ms :: u64
  profile_round :: u32
  profile_phase :: r_request_completion_phase
  profile_status :: r_client_error
  response_selected :: bool

record r_srv_record =
  srv_target :: "byte list option"
  srv_port :: u16
  srv_ttl_ms :: u32

subsection \<open>Requests and the client\<close>

text \<open>\<open>best\<close> is the candidate: \<open>None\<close> is \<open>has == false\<close>.\<close>

record r_client_req =
  handle :: nat
  request_id :: "byte list"
  user :: nat
  rq_resources :: "r_resource_request list"
  rq_guards :: "r_latency_guard list"
  rq_metrics_label :: "byte list option"
  rq_metrics_label_len :: nat
  targets :: "r_server_endpoint list"
  allowed_ids :: "u64 list"
  start_ms :: u64
  attempt_deadline_ms :: u64
  dedup_deadline_ms :: u64
  dedup_ttl_ms :: u32
  phase :: r_request_phase
  ha_round :: u32
  ha_round_start_ms :: u64
  ha_preference_deadline_ms :: u64
  ha_round_deadline_ms :: u64
  seen_addrs :: "r_addr list"
  seen_addr_cap :: nat
  seen_server_ids :: "u64 list"
  seen_server_id_cap :: nat
  steering_rebind :: bool
  packet :: "byte list"
  packet_len :: nat
  best :: "r_rate_limit_result option"

record r_dns_refresh_policy =
  refresh_interval_ms :: u64
  forced_refresh_min_interval_ms :: u64
  forced_refresh_jitter_ms :: u64

text \<open>
  The authentication type is kept as the raw enum value (1 cookie, 2 AES-GCM, 0 not set), since the
  code tests for values outside the enum.  \<open>cookie\<close> and \<open>aes_key\<close> are \<open>None\<close> when the corresponding
  \<open>has_\<close> flag is false, \<open>quotas\<close> likewise.
\<close>

record r_client =
  cl_key_id :: u64
  auth_type :: nat
  dns_policy :: r_dns_refresh_policy
  policy :: r_request_policy
  dns_name :: "byte list"
  quotas :: "r_bech32_quotas option"
  cookie :: "byte list option"
  aes_key :: "byte list option"
  servers :: "r_server_endpoint list"
  send_failure_count :: u64
  last_dns_refresh_ms :: u64
  dns_refresh_ttl_ms :: u64
  dns_refresh_inflight :: bool
  inflight :: "r_client_req list"
  steering_rebind_pending :: bool
  dns_refresh :: "nat option"

text \<open>The DNS objects; \<open>attached\<close> is \<open>client != NULL\<close>, \<open>lookups\<close> the linked list as addresses.\<close>

record r_dns_refresh =
  attached :: bool
  detached :: bool
  pending :: nat
  scheduling :: nat
  rf_lookups :: "nat list"
  endpoints :: "r_server_endpoint list"
  endpoint_cap :: nat
  min_ttl_ms :: u64

record r_dns_lookup_ctx =
  lk_refresh :: "nat option"
  lk_req_id :: "u64 option"
  completed :: bool
  in_resolver_call :: bool
  lk_port :: u16
  lk_server_id :: u64
  lk_has_server_id :: bool

subsection \<open>The system and the hooks\<close>

datatype event =
    Ev_Now u64
  | Ev_Send r_addr "byte list" bool
  | Ev_Profile r_request_profile
  | Ev_Callback nat "nat option" r_client_error "r_rate_limit_result option"
  | Ev_Steering bool
  | Ev_Resolve_Srv "byte list"
  | Ev_Resolve_Addrs "byte list"
  | Ev_Dns_Cancel u64

record 'w sys =
  client :: "r_client option"
  refreshes :: "nat \<Rightarrow> r_dns_refresh option"
  lookups :: "nat \<Rightarrow> r_dns_lookup_ctx option"
  next_ptr :: nat
  world :: 'w
  trace :: "event list"

text \<open>
  A resolver call returns whether it was accepted (\<open>rc == 0\<close>), the request id it stored, and the
  arguments of the callback when it invoked it synchronously.  A cancellation returns whether it
  invoked the callback of the cancelled lookup.  \<open>h_alloc\<close> is the outcome of one allocation,
  \<open>h_allocs\<close> the outcomes of the numbered allocations of the credential decoder.
\<close>

record 'w hooks =
  h_udp_send :: "(r_addr \<Rightarrow> byte list \<Rightarrow> 'w \<Rightarrow> bool \<times> 'w) option"
  h_now_ms :: "('w \<Rightarrow> u64 \<times> 'w) option"
  h_on_steering_feedback :: "(bool \<Rightarrow> 'w \<Rightarrow> 'w) option"
  h_resolve_srv :: "byte list \<Rightarrow> 'w \<Rightarrow> (bool \<times> u64 \<times> (bool \<times> r_srv_record list) option) \<times> 'w"
  h_resolve_addrs :: "byte list \<Rightarrow> 'w \<Rightarrow> (bool \<times> u64 \<times> (bool \<times> r_addr list) option) \<times> 'w"
  h_cancel :: "(u64 \<Rightarrow> 'w \<Rightarrow> bool \<times> 'w) option"
  h_rand_bytes :: "nat \<Rightarrow> 'w \<Rightarrow> byte list option \<times> 'w"
  h_alloc :: "'w \<Rightarrow> bool \<times> 'w"
  h_allocs :: "'w \<Rightarrow> allocs \<times> 'w"
  h_evp_encrypt :: evp_encrypt
  h_evp_decrypt :: evp_decrypt
  h_profile_cb :: "(r_request_profile \<Rightarrow> 'w \<Rightarrow> 'w) option"
  h_cb :: "nat \<Rightarrow> nat option \<Rightarrow> r_client_error \<Rightarrow> r_rate_limit_result option \<Rightarrow> 'w sys \<Rightarrow> 'w sys option"

definition emit :: "event \<Rightarrow> 'w sys \<Rightarrow> 'w sys" where
  "emit e s = s\<lparr>trace := trace s @ [e]\<rparr>"

definition r_now_ms :: "'w hooks \<Rightarrow> 'w sys \<Rightarrow> u64 \<times> 'w sys" where
  "r_now_ms hk s = (case h_now_ms hk of
     None \<Rightarrow> (0, s)
   | Some now \<Rightarrow> let (t, w) = now (world s) in (t, emit (Ev_Now t) (s\<lparr>world := w\<rparr>)))"

definition alloc :: "'w hooks \<Rightarrow> 'w sys \<Rightarrow> bool \<times> 'w sys" where
  "alloc hk s = (let (ok, w) = h_alloc hk (world s) in (ok, s\<lparr>world := w\<rparr>))"

definition rand_bytes :: "'w hooks \<Rightarrow> nat \<Rightarrow> 'w sys \<Rightarrow> byte list option \<times> 'w sys" where
  "rand_bytes hk n s = (let (b, w) = h_rand_bytes hk n (world s) in (b, s\<lparr>world := w\<rparr>))"

subsection \<open>Helpers of the client\<close>

definition r_addr_equal :: "r_addr \<Rightarrow> r_addr \<Rightarrow> bool" where
  "r_addr_equal a b \<longleftrightarrow> sa_len a = sa_len b \<and> take (sa_len a) (sa a) = take (sa_len a) (sa b)"

definition R_SERVER_ID_EPOCH_S_2025 :: u64 where
  "R_SERVER_ID_EPOCH_S_2025 = 1735689600"

definition r_server_start_s_from_id :: "u64 \<Rightarrow> u64" where
  "r_server_start_s_from_id server_id = R_SERVER_ID_EPOCH_S_2025 + drop_bit 23 server_id"

text \<open>
  The two seen-sets are arrays that grow by doubling; when growing fails, the entry is dropped.
  \<open>grow\<close> is the outcome of \<open>realloc\<close>, consulted only when the array is full.
\<close>

definition r_seen_addr_add :: "bool \<Rightarrow> r_client_req \<Rightarrow> r_addr \<Rightarrow> bool \<times> r_client_req" where
  "r_seen_addr_add grow req addr =
    (if list_ex (\<lambda>a. r_addr_equal a addr) (seen_addrs req) then (True, req)
     else if length (seen_addrs req) = seen_addr_cap req then
       (let next_cap = if seen_addr_cap req = 0 then 4 else seen_addr_cap req * 2 in
        if \<not> grow then (False, req)
        else (True, req\<lparr>seen_addr_cap := next_cap, seen_addrs := seen_addrs req @ [addr]\<rparr>))
     else (True, req\<lparr>seen_addrs := seen_addrs req @ [addr]\<rparr>))"

definition r_seen_server_add :: "bool \<Rightarrow> r_client_req \<Rightarrow> u64 \<Rightarrow> bool \<times> r_client_req" where
  "r_seen_server_add grow req server_id =
    (if list_ex (\<lambda>i. i = server_id) (seen_server_ids req) then (True, req)
     else if length (seen_server_ids req) = seen_server_id_cap req then
       (let next_cap = if seen_server_id_cap req = 0 then 4 else seen_server_id_cap req * 2 in
        if \<not> grow then (False, req)
        else (True, req\<lparr>seen_server_id_cap := next_cap,
                        seen_server_ids := seen_server_ids req @ [server_id]\<rparr>))
     else (True, req\<lparr>seen_server_ids := seen_server_ids req @ [server_id]\<rparr>))"

definition r_server_is_older :: "u64 \<Rightarrow> u64 \<Rightarrow> bool" where
  "r_server_is_older candidate_id current_id =
    (let candidate_start_s = r_server_start_s_from_id candidate_id;
         current_start_s = r_server_start_s_from_id current_id
     in candidate_start_s < current_start_s
        \<or> (candidate_start_s = current_start_s \<and> candidate_id < current_id))"

fun r_none_older :: "u64 list \<Rightarrow> u64 \<Rightarrow> bool" where
  "r_none_older [] server_id = True"
| "r_none_older (cand # ids) server_id =
    (if cand = server_id then r_none_older ids server_id
     else
       let cand_start = r_server_start_s_from_id cand;
           server_start = r_server_start_s_from_id server_id in
       if cand_start < server_start \<or> (cand_start = server_start \<and> cand < server_id) then False
       else r_none_older ids server_id)"

definition r_is_oldest_known_server :: "r_client_req \<Rightarrow> u64 \<Rightarrow> bool" where
  "r_is_oldest_known_server req server_id = r_none_older (allowed_ids req) server_id"

definition r_candidate_set ::
  "u64 \<Rightarrow> bool \<Rightarrow> bool \<Rightarrow> r_guard_result list \<Rightarrow> r_resource_result list \<Rightarrow> r_rate_limit_result option" where
  "r_candidate_set server_id steering ok gs rs =
    Some \<lparr>success = ok, result_server_id = server_id, result_steering_feedback = steering,
          result_guards = gs, result_resources = rs\<rparr>"

definition r_candidate_try_update_best ::
  "r_rate_limit_result option \<Rightarrow> r_rate_limit_result \<Rightarrow> r_guard_result list \<Rightarrow> r_resource_result list
     \<Rightarrow> bool \<times> r_rate_limit_result option" where
  "r_candidate_try_update_best bst result gs rs =
    (let upd = r_candidate_set (result_server_id result) (result_steering_feedback result)
                 (success result) gs rs in
     case bst of
       None \<Rightarrow> (True, upd)
     | Some b \<Rightarrow>
         if r_server_is_older (result_server_id result) (result_server_id b) then (True, upd)
         else (False, bst))"

definition r_allowed_server_id :: "r_client_req \<Rightarrow> u64 \<Rightarrow> bool" where
  "r_allowed_server_id req server_id \<longleftrightarrow>
     allowed_ids req = [] \<or> list_ex (\<lambda>i. i = server_id) (allowed_ids req)"

text \<open>\<open>r_request_remove\<close> unlinks the first list element with the handle.\<close>

fun r_request_remove :: "nat \<Rightarrow> r_client_req list \<Rightarrow> bool \<times> r_client_req list" where
  "r_request_remove h [] = (False, [])"
| "r_request_remove h (q # qs) =
    (if handle q = h then (True, qs)
     else let (found, qs') = r_request_remove h qs in (found, q # qs'))"

definition r_generate_request_id :: "'w hooks \<Rightarrow> 'w sys \<Rightarrow> (r_client_error + byte list) \<times> 'w sys" where
  "r_generate_request_id hk s =
    (let (r, s) = rand_bytes hk 16 s in
     case r of
       None \<Rightarrow> (Inl RCLIENT_ERR_AUTH, s)
     | Some b \<Rightarrow>
         (Inr (b[6 := (b ! 6 AND 0x0F) OR 0x40, 8 := (b ! 8 AND 0x3F) OR 0x80]), s))"

text \<open>\<open>RAND_bytes\<close> fills the object representation of \<open>value\<close>, little-endian on the targets.\<close>

definition r_rand_range :: "'w hooks \<Rightarrow> u64 \<Rightarrow> 'w sys \<Rightarrow> (u64 \<times> 'w sys) option" where
  "r_rand_range hk mx s =
    (if mx = 0 then Some (0, s)
     else
       let (r, s) = rand_bytes hk 8 s in
       case r of
         None \<Rightarrow> Some (0, s)
       | Some b \<Rightarrow> if mx + 1 = 0 then None else Some (le_word b mod (mx + 1), s))"

fun r_parse_decimal :: "byte list \<Rightarrow> u64 \<Rightarrow> u64 option" where
  "r_parse_decimal [] val = Some val"
| "r_parse_decimal (c # cs) val =
    (if c < 48 \<or> c > 57 then None else r_parse_decimal cs (val * 10 + ucast (c - 48)))"

text \<open>\<open>None\<close> is \<open>*ok == false\<close>.\<close>

definition r_parse_server_id_from_target :: "byte list option \<Rightarrow> u64 option" where
  "r_parse_server_id_from_target target = (case target of
     None \<Rightarrow> None
   | Some t \<Rightarrow>
       let label = takeWhile (\<lambda>c. c \<noteq> of_char (CHR ''.'')) (c_string t) in
       if length label < 3 then None
       else if label ! 0 \<noteq> of_char (CHR ''s'') \<or> label ! 1 \<noteq> of_char (CHR ''-'') then None
       else r_parse_decimal (drop 2 label) 0)"

text \<open>
  Socket addresses have the layout of Linux: the family in host order in bytes 0 and 1, the port
  in network order in bytes 2 and 3.
\<close>

definition AF_INET :: u16 where "AF_INET = 2"
definition AF_INET6 :: u16 where "AF_INET6 = 10"

definition r_addr_set_port :: "r_addr \<Rightarrow> u16 \<Rightarrow> r_addr option" where
  "r_addr_set_port addr port = do {
     fam \<leftarrow> r_le16 (sa addr) 0;
     if fam = AF_INET then do {
       b \<leftarrow> wr_bytes (sa addr) 2 [ucast (drop_bit 8 port), ucast port];
       Some \<lparr>sa = b, sa_len = 16\<rparr> }
     else if fam = AF_INET6 then do {
       b \<leftarrow> wr_bytes (sa addr) 2 [ucast (drop_bit 8 port), ucast port];
       Some \<lparr>sa = b, sa_len = 28\<rparr> }
     else Some addr }"

subsection \<open>The order of servers\<close>

text \<open>
  The client prefers the answer of the server that started first.  The interface below is what the
  candidate selection needs of the comparison: a strict linear order.  Its client is the update of
  the best candidate, which keeps a minimum of all the answers it has seen.
\<close>

locale oldest_first =
  fixes older :: "'i \<Rightarrow> 'i \<Rightarrow> bool"
  assumes older_irrefl: "\<not> older a a"
    and older_trans: "older a b \<Longrightarrow> older b c \<Longrightarrow> older a c"
    and older_total: "older a b \<or> a = b \<or> older b a"
begin

definition pick :: "'i option \<Rightarrow> 'i \<Rightarrow> 'i option" where
  "pick cur i = (case cur of None \<Rightarrow> Some i | Some b \<Rightarrow> if older i b then Some i else Some b)"

definition picks :: "'i list \<Rightarrow> 'i option" where
  "picks is = foldl pick None is"

definition is_oldest :: "'i set \<Rightarrow> 'i \<Rightarrow> bool" where
  "is_oldest I b \<longleftrightarrow> b \<in> I \<and> (\<forall>i \<in> I. \<not> older i b)"

lemma older_asym: "older a b \<Longrightarrow> \<not> older b a"
  using older_irrefl older_trans by blast

lemma is_oldest_unique: "is_oldest I a \<Longrightarrow> is_oldest I b \<Longrightarrow> a = b"
  using older_total unfolding is_oldest_def by blast

lemma pick_is_oldest:
  assumes "is_oldest I b"
  shows "\<exists>b'. pick (Some b) i = Some b' \<and> is_oldest (insert i I) b'"
proof (cases "older i b")
  case True
  then have "is_oldest (insert i I) i"
    using assms older_irrefl older_trans [of _ i b] unfolding is_oldest_def by blast
  then show ?thesis using True by (simp add: pick_def)
next
  case False
  then show ?thesis using assms by (auto simp: pick_def is_oldest_def)
qed

lemma picks_is_oldest:
  assumes "is \<noteq> []" shows "\<exists>b. picks is = Some b \<and> is_oldest (set is) b"
  using assms
proof (induction "is" rule: rev_induct)
  case (snoc i "is")
  show ?case
  proof (cases "is = []")
    case True
    then show ?thesis by (simp add: picks_def pick_def is_oldest_def older_irrefl)
  next
    case False
    then obtain b where "picks is = Some b" "is_oldest (set is) b" using snoc by blast
    then show ?thesis using pick_is_oldest [of "set is" b i] by (simp add: picks_def)
  qed
qed simp

end

lemma unat_start_s:
  "unat (r_server_start_s_from_id a) = 1735689600 + unat a div 2 ^ 23"
proof -
  have d: "unat (drop_bit 23 a) = unat a div 2 ^ 23"
    unfolding unat_drop_bit_eq by (rule drop_bit_eq_div)
  have "unat a < 2 ^ 64" using unat_bound [of a] by simp
  then have "unat a div 2 ^ 23 < 2 ^ 41" by (simp add: div_less_iff_less_mult)
  then show ?thesis
    unfolding r_server_start_s_from_id_def R_SERVER_ID_EPOCH_S_2025_def
    by (subst unat_add_fits) (simp_all only: d, simp_all)
qed

text \<open>The start time is the leading part of the identity, so the order is the numeric one.\<close>

lemma r_server_is_older_iff: "r_server_is_older a b \<longleftrightarrow> a < b"
proof -
  have "unat a div 2 ^ 23 < unat b div 2 ^ 23 \<Longrightarrow> unat a < unat b"
    by (metis div_le_mono leD leI)
  moreover have "unat b div 2 ^ 23 < unat a div 2 ^ 23 \<Longrightarrow> \<not> unat a < unat b"
    by (metis div_le_mono leD less_imp_le)
  ultimately show ?thesis
    unfolding r_server_is_older_def Let_def word_less_nat_alt word_unat_eq_iff unat_start_s by auto
qed

interpretation servers: oldest_first r_server_is_older
  by unfold_locales (auto simp: r_server_is_older_iff)

lemma r_none_older_iff: "r_none_older is b \<longleftrightarrow> (\<forall>i \<in> set is. \<not> r_server_is_older i b)"
  by (induction "is") (auto simp: Let_def r_server_is_older_def)

lemma r_candidate_try_update_best_id:
  "map_option result_server_id (snd (r_candidate_try_update_best bst res gs rs))
    = servers.pick (map_option result_server_id bst) (result_server_id res)"
  by (simp add: r_candidate_try_update_best_def servers.pick_def r_candidate_set_def Let_def
      split: option.split)

subsection \<open>The seen-sets\<close>

text \<open>
  Both arrays of answers are used as sets.  The interface says what a client of such an array may
  rely on: adding keeps what is there, adds nothing but the new element, and adds that element
  unless the array could not grow; no element is stored twice.
\<close>

locale growing_set =
  fixes add :: "bool \<Rightarrow> 'q \<Rightarrow> 'x \<Rightarrow> bool \<times> 'q"
    and elems :: "'q \<Rightarrow> 'x list"
    and same :: "'x \<Rightarrow> 'x \<Rightarrow> bool"
  assumes add_shape: "elems (snd (add g q x)) = elems q \<or>
      elems (snd (add g q x)) = elems q @ [x] \<and> \<not> (\<exists>y \<in> set (elems q). same y x)"
    and add_grow: "same x x \<Longrightarrow> fst (add g q x) \<Longrightarrow> \<exists>y \<in> set (elems (snd (add g q x))). same y x"
    and add_ok: "fst (add True q x)"
begin

definition apart :: "'q \<Rightarrow> bool" where
  "apart q \<longleftrightarrow> (\<forall>i < length (elems q). \<forall>j < i. \<not> same (elems q ! j) (elems q ! i))"

lemma add_keeps: "y \<in> set (elems q) \<Longrightarrow> y \<in> set (elems (snd (add g q x)))"
  using add_shape [of g q x] by auto

lemma add_nothing_else: "y \<in> set (elems (snd (add g q x))) \<Longrightarrow> y \<in> set (elems q) \<or> y = x"
  using add_shape [of g q x] by auto

lemma add_length: "length (elems (snd (add g q x))) \<le> length (elems q) + 1"
  using add_shape [of g q x] by auto

lemma add_apart: "apart q \<Longrightarrow> apart (snd (add g q x))"
  using add_shape [of g q x] by (auto simp: apart_def nth_append less_Suc_eq)

end

interpretation seen_addr: growing_set r_seen_addr_add seen_addrs r_addr_equal
  by unfold_locales (auto simp: r_seen_addr_add_def list_ex_iff Let_def split: if_splits)

interpretation seen_server: growing_set r_seen_server_add seen_server_ids "\<lambda>a b. a = b"
  by unfold_locales (auto simp: r_seen_server_add_def list_ex_iff Let_def split: if_splits)

subsection \<open>Properties of the helpers\<close>

definition update_all :: "r_rate_limit_result list \<Rightarrow> r_rate_limit_result option" where
  "update_all rs = foldl (\<lambda>b r. snd (r_candidate_try_update_best b r (result_guards r) (result_resources r)))
     None rs"

lemma update_all_ids: "map_option result_server_id (update_all rs) = servers.picks (map result_server_id rs)"
  unfolding update_all_def servers.picks_def
  by (induction rs rule: rev_induct) (simp_all add: r_candidate_try_update_best_id)

lemma update_all_member: "update_all rs = Some b \<Longrightarrow> b \<in> set rs"
proof (induction rs arbitrary: b rule: rev_induct)
  case (snoc r rs)
  then show ?case
    by (auto simp: update_all_def r_candidate_try_update_best_def r_candidate_set_def Let_def
        split: option.splits if_splits)
qed (simp add: update_all_def)

text \<open>
  (C19) Whatever the order in which answers arrive, the candidate that the client keeps is one of
  them, and it is the answer of the oldest server: the one with the smallest identity, which is the
  one that started first.
\<close>

theorem selection_keeps_oldest:
  assumes "rs \<noteq> []"
  shows "\<exists>b. update_all rs = Some b \<and> b \<in> set rs
    \<and> (\<forall>r \<in> set rs. result_server_id b \<le> result_server_id r
         \<and> r_server_start_s_from_id (result_server_id b) \<le> r_server_start_s_from_id (result_server_id r))"
proof -
  have "map result_server_id rs \<noteq> []" using assms by simp
  then obtain i where i: "map_option result_server_id (update_all rs) = Some i"
    "servers.is_oldest (set (map result_server_id rs)) i"
    using servers.picks_is_oldest update_all_ids by metis
  then obtain b where b: "update_all rs = Some b" "result_server_id b = i" by auto
  have le: "i \<le> result_server_id r" if "r \<in> set rs" for r
    using i(2) that by (auto simp: servers.is_oldest_def r_server_is_older_iff not_less)
  then have "r_server_start_s_from_id i \<le> r_server_start_s_from_id (result_server_id r)" if "r \<in> set rs" for r
    using that by (auto simp: word_le_nat_alt unat_start_s intro: div_le_mono)
  then show ?thesis using b le update_all_member by auto
qed

definition sample_result :: "u64 \<Rightarrow> r_rate_limit_result" where
  "sample_result i = \<lparr>success = True, result_server_id = i, result_steering_feedback = True,
     result_guards = [], result_resources = []\<rparr>"

theorem selection_keeps_oldest_witness:
  "\<exists>b. update_all [sample_result 9, sample_result 4, sample_result 7] = Some b \<and> result_server_id b = 4"
  using selection_keeps_oldest [of "[sample_result 9, sample_result 4, sample_result 7]"]
  by (auto simp: sample_result_def)

definition decimal :: "byte list \<Rightarrow> nat" where
  "decimal ds = foldl (\<lambda>a c. a * 10 + (unat c - 48)) 0 ds"

lemma r_parse_decimal_eq:
  assumes "\<forall>c \<in> set ds. 48 \<le> c \<and> c \<le> 57"
  shows "r_parse_decimal ds (of_nat a) = Some (of_nat (foldl (\<lambda>a c. a * 10 + (unat c - 48)) a ds))"
  using assms
proof (induction ds arbitrary: a)
  case (Cons c ds)
  have c: "48 \<le> c" "c \<le> 57" using Cons.prems by simp_all
  have "unat (c - 48) = unat c - 48" using c(1) by (simp add: unat_sub word_le_nat_alt)
  then have "(ucast (c - 48) :: u64) = of_nat (unat c - 48)" by (metis of_nat_unat)
  then have "(of_nat a :: u64) * 10 + ucast (c - 48) = of_nat (a * 10 + (unat c - 48))" by simp
  then show ?case using Cons c by (simp add: not_less del: of_nat_add of_nat_mult)
qed simp

text \<open>
  (C20) A DNS target whose first label is \<open>s-\<close> followed by decimal digits yields the decimal number
  reduced modulo \<open>2 ^ 64\<close>: identities that fit 64 bits are read exactly, larger ones wrap around
  silently instead of being refused.
\<close>

theorem server_id_of_target:
  assumes "ds \<noteq> []" and "\<forall>c \<in> set ds. 48 \<le> c \<and> c \<le> 57"
    and "rest = [] \<or> hd rest = of_char (CHR ''.'')"
  shows "r_parse_server_id_from_target (Some (cstr ''s-'' @ ds @ rest))
    = Some (of_nat (decimal ds mod 2 ^ 64))"
proof -
  let ?dot = "of_char (CHR ''.'') :: byte"
  have d: "c \<noteq> 0 \<and> c \<noteq> ?dot" if "c \<in> set ds" for c using assms(2) that by auto
  have "c_string (cstr ''s-'' @ ds @ rest) = cstr ''s-'' @ ds @ c_string rest"
    using d by (simp add: c_string_def cstr_def takeWhile_append2)
  moreover have "takeWhile (\<lambda>c. c \<noteq> ?dot) (cstr ''s-'' @ ds @ c_string rest) = cstr ''s-'' @ ds"
    using d assms(3) by (cases rest) (simp_all add: c_string_def cstr_def takeWhile_append2)
  moreover have "r_parse_decimal ds 0 = Some (of_nat (decimal ds))"
    using r_parse_decimal_eq [OF assms(2), of 0] by (simp add: decimal_def)
  moreover have "(of_nat (decimal ds) :: u64) = of_nat (decimal ds mod 2 ^ 64)"
    by (simp add: word_unat_eq_iff unat_of_nat take_bit_eq_mod)
  moreover have "\<not> length (cstr ''s-'' @ ds) < 3" using assms(1) by (cases ds) (simp_all add: cstr_def)
  ultimately show ?thesis by (simp add: r_parse_server_id_from_target_def cstr_def)
qed

theorem server_id_of_target_witness:
  "r_parse_server_id_from_target (Some (cstr ''s-18446744073709551617.example.org'')) = Some 1"
  using server_id_of_target [of "cstr ''18446744073709551617''" "cstr ''.example.org''"]
  by (simp add: cstr_def decimal_def)

text \<open>
  (C21) A random delay is drawn without undefined behaviour exactly when its bound is not the
  largest 64-bit number, and then lies within the bound; with that largest bound the modulus of the
  division wraps to zero.
\<close>

theorem rand_range_bounds:
  assumes "h_rand_bytes hk 8 (world s) = (Some b, w)"
  shows "(r_rand_range hk mx s = None \<longleftrightarrow> mx = UINT64_MAX)
    \<and> (\<forall>v s'. r_rand_range hk mx s = Some (v, s') \<longrightarrow> v \<le> mx)"
proof -
  have m: "mx + 1 = 0 \<longleftrightarrow> mx = UINT64_MAX"
    unfolding UINT64_MAX_max by (metis add.commute add_eq_0_iff)
  have u: "unat (mx + 1) = unat mx + 1" if "mx + 1 \<noteq> 0"
  proof -
    have "unat mx \<noteq> 2 ^ 64 - 1" using that m by (auto simp: word_unat_eq_iff UINT64_MAX_def)
    then show ?thesis using unat_bound [of mx] unat_add_fits [of mx 1] by simp
  qed
  have "v mod (mx + 1) \<le> mx" if "mx + 1 \<noteq> 0" for v
  proof -
    have "unat v mod (unat mx + 1) < unat mx + 1" by simp
    then show ?thesis unfolding word_le_nat_alt unat_mod u [OF that] by linarith
  qed
  then show ?thesis using assms m
    by (auto simp: r_rand_range_def rand_bytes_def UINT64_MAX_def split: if_splits)
qed

text \<open>A concrete host for the witnesses: its state is the clock, every send succeeds.\<close>

definition sample_hooks :: "nat hooks" where
  "sample_hooks = \<lparr>
     h_udp_send = Some (\<lambda>a b w. (True, w)),
     h_now_ms = Some (\<lambda>w. (of_nat w, w)),
     h_on_steering_feedback = Some (\<lambda>k w. w),
     h_resolve_srv = (\<lambda>n w. ((True, 1, None), w)),
     h_resolve_addrs = (\<lambda>n w. ((True, 2, None), w)),
     h_cancel = None,
     h_rand_bytes = (\<lambda>n w. (Some (replicate n 7), w)),
     h_alloc = (\<lambda>w. (True, w)),
     h_allocs = (\<lambda>w. (\<lambda>k. Some (\<lambda>i. 0), w)),
     h_evp_encrypt = (\<lambda>k n a p. Some (p, replicate 16 0)),
     h_evp_decrypt = (\<lambda>k n a t c. if t = replicate 16 0 then Some c else None),
     h_profile_cb = None,
     h_cb = (\<lambda>u h st r s. Some s)\<rparr>"

definition sample_addr :: r_addr where
  "sample_addr = \<lparr>sa = [2, 0, 0x1f, 0x90, 127, 0, 0, 1] @ replicate 120 0, sa_len = 16\<rparr>"

definition sample_client :: r_client where
  "sample_client = \<lparr>cl_key_id = 77, auth_type = 1,
     dns_policy = \<lparr>refresh_interval_ms = 0, forced_refresh_min_interval_ms = 0, forced_refresh_jitter_ms = 0\<rparr>,
     policy = r_client_default_request_policy, dns_name = cstr ''example.org'', quotas = None,
     cookie = Some (replicate 32 5), aes_key = None,
     servers = [\<lparr>ep_addr = sample_addr, ep_server_id = 4, has_server_id = True\<rparr>],
     send_failure_count = 0, last_dns_refresh_ms = 1000, dns_refresh_ttl_ms = 0,
     dns_refresh_inflight = False, inflight = [], steering_rebind_pending = False, dns_refresh = None\<rparr>"

definition sample_sys :: "nat sys" where
  "sample_sys = \<lparr>client = Some sample_client, refreshes = (\<lambda>_. None), lookups = (\<lambda>_. None),
     next_ptr = 0, world = 1000, trace = []\<rparr>"

theorem rand_range_bounds_witness:
  "r_rand_range sample_hooks UINT64_MAX sample_sys = None
   \<and> (\<exists>v s'. r_rand_range sample_hooks 5 sample_sys = Some (v, s') \<and> v \<le> 5)"
proof -
  have h: "h_rand_bytes sample_hooks 8 (world sample_sys) = (Some (replicate 8 7), 1000)"
    by (simp add: sample_hooks_def sample_sys_def)
  have "(5 :: u64) \<noteq> UINT64_MAX" by (simp add: UINT64_MAX_def)
  then show ?thesis
    using rand_range_bounds [OF h, of UINT64_MAX] rand_range_bounds [OF h, of 5] by fastforce
qed

end
