(* ===== verification/Packet.thy ===== *)
theory Packet
  imports Client_State
begin

text \<open>
  Packets of \<^verbatim>\<open>src/r_client.c\<close>: framing and authenticating an outgoing PDU, building a rate request,
  extracting the PDU of an incoming datagram, parsing a response into freshly allocated arrays.

  Local arrays have \<open>R_MAX_PACKET_SIZE\<close> bytes; what they hold before they are written is
  immaterial, which the exactness lemmas show by naming every byte of the packet.
\<close>

definition local_buf :: "byte list" where
  "local_buf = replicate R_MAX_PACKET_SIZE 0"

definition auth_code :: "r_auth_type \<Rightarrow> nat" where
  "auth_code t = (case t of R_AUTH_COOKIE \<Rightarrow> 1 | R_AUTH_AES_GCM \<Rightarrow> 2)"

text \<open>
  The part that the request builder and the latency report have in common: the tenant header, the
  authentication TLV for the client's credential and the PDU behind it.
\<close>

definition r_authenticate_packet ::
  "'w hooks \<Rightarrow> r_client \<Rightarrow> r_tenant_header \<Rightarrow> byte list \<Rightarrow> nat \<Rightarrow> byte list \<Rightarrow> nat \<Rightarrow> 'w sys
     \<Rightarrow> ((r_client_error + (byte list \<times> nat)) \<times> 'w sys) option" where
  "r_authenticate_packet hk c tenant pdu pdu_len out out_cap s =
    (if out_cap < R_TENANT_TLV_LEN then Some (Inl RCLIENT_ERR_PROTOCOL, s)
     else do {
       out \<leftarrow> r_tenant_header_write tenant out R_TENANT_TLV_LEN;
       let pos = R_TENANT_TLV_LEN;
       if auth_type c = auth_code R_AUTH_COOKIE then
         (case cookie c of
            None \<Rightarrow> Some (Inl RCLIENT_ERR_AUTH, s)
          | Some ck \<Rightarrow>
              if pos + 4 + 32 + pdu_len > out_cap then Some (Inl RCLIENT_ERR_PROTOCOL, s)
              else do {
                out \<leftarrow> r_write_le16 out pos R_TLV_AUTH_COOKIE;
                out \<leftarrow> r_write_le16 out (pos + 2) 36;
                ckb \<leftarrow> rd_bytes ck 0 32;
                out \<leftarrow> wr_bytes out (pos + 4) ckb;
                pb \<leftarrow> rd_bytes pdu 0 pdu_len;
                out \<leftarrow> wr_bytes out (pos + 4 + 32) pb;
                let pos = pos + 4 + 32 + pdu_len;
                Some (if pos > R_MAX_PACKET_SIZE then Inl RCLIENT_ERR_PROTOCOL else Inr (out, pos), s) })
       else if auth_type c = auth_code R_AUTH_AES_GCM then
         (case aes_key c of
            None \<Rightarrow> Some (Inl RCLIENT_ERR_AUTH, s)
          | Some key \<Rightarrow>
              if pos + 4 + 12 + 16 + pdu_len > out_cap then Some (Inl RCLIENT_ERR_PROTOCOL, s)
              else do {
                out \<leftarrow> r_write_le16 out pos R_TLV_AUTH_AES;
                out \<leftarrow> r_write_le16 out (pos + 2) 32;
                pb \<leftarrow> rd_bytes pdu 0 pdu_len;
                aad \<leftarrow> rd_bytes out 0 (pos + 4);
                let (nonce, s) = rand_bytes hk 12 s;
                r \<leftarrow> r_encrypt_pdu_aes_gcm (h_evp_encrypt hk) nonce pb key aad local_buf R_MAX_PACKET_SIZE;
                case r of
                  Inl _ \<Rightarrow> Some (Inl RCLIENT_ERR_AUTH, s)
                | Inr (cipher, cipher_len, nonce, tag) \<Rightarrow>
                    let pos = pos + 4 in
                    if pos + 12 + 16 + cipher_len > out_cap then Some (Inl RCLIENT_ERR_PROTOCOL, s)
                    else do {
                      nb \<leftarrow> rd_bytes nonce 0 12;
                      out \<leftarrow> wr_bytes out pos nb;
                      tb \<leftarrow> rd_bytes tag 0 16;
                      out \<leftarrow> wr_bytes out (pos + 12) tb;
                      cb \<leftarrow> rd_bytes cipher 0 cipher_len;
                      out \<leftarrow> wr_bytes out (pos + 12 + 16) cb;
                      let pos = pos + 12 + 16 + cipher_len;
                      Some (if pos > R_MAX_PACKET_SIZE then Inl RCLIENT_ERR_PROTOCOL else Inr (out, pos), s) } })
       else Some (Inl RCLIENT_ERR_CONFIG, s) })"

definition tenant_header_for :: "u64 \<Rightarrow> byte list \<Rightarrow> u64 \<Rightarrow> r_tenant_header" where
  "tenant_header_for kid uid ts =
    \<lparr>tlv_type = R_TLV_TENANT, tlv_size = of_nat R_TENANT_TLV_LEN, key_id = kid, unique_id = uid,
     time_stamp = ts, steering_feedback = 0, tenant_mgmt_flag = 0, padding = [0, 0]\<rparr>"

definition r_build_rate_request_packet ::
  "'w hooks \<Rightarrow> r_client \<Rightarrow> r_client_req \<Rightarrow> byte list \<Rightarrow> nat \<Rightarrow> 'w sys
     \<Rightarrow> ((r_client_error + (byte list \<times> nat)) \<times> 'w sys) option" where
  "r_build_rate_request_packet hk c req out out_cap s =
    do {
      rc \<leftarrow> r_build_rate_request_body (rq_resources req) (rq_guards req) (rq_metrics_label req)
              (rq_metrics_label_len req) local_buf R_MAX_PACKET_SIZE;
      case rc of
        Inl e \<Rightarrow> Some (Inl e, s)
      | Inr (body, body_len) \<Rightarrow> do {
          rc \<leftarrow> r_build_rate_request_pdu (dedup_ttl_ms req) body body_len local_buf R_MAX_PACKET_SIZE;
          case rc of
            Inl e \<Rightarrow> Some (Inl e, s)
          | Inr (pdu, pdu_len) \<Rightarrow>
              let (ts, s) = (if start_ms req \<noteq> 0 then (start_ms req, s) else r_now_ms hk s) in
              r_authenticate_packet hk c (tenant_header_for (cl_key_id c) (request_id req) ts)
                pdu pdu_len out out_cap s } }"

definition r_extract_pdu_data ::
  "evp_decrypt \<Rightarrow> r_client \<Rightarrow> byte list \<Rightarrow> nat \<Rightarrow> nat \<Rightarrow> nat \<Rightarrow> byte list ret" where
  "r_extract_pdu_data evp_dec c buf len pos pdu_cap =
    do {
      rc \<leftarrow> r_parse_auth_tlv_header buf len pos;
      case rc of
        Inl e \<Rightarrow> Some (Inl e)
      | Inr (ty, auth_size, auth_body, auth_body_len, pdu_pos) \<Rightarrow>
          (case (if auth_type c = auth_code R_AUTH_COOKIE then Some R_TLV_AUTH_COOKIE
                 else if auth_type c = auth_code R_AUTH_AES_GCM then Some R_TLV_AUTH_AES else None) of
             None \<Rightarrow> Some (Inl RCLIENT_ERR_CONFIG)
           | Some expected_type \<Rightarrow>
               if ty \<noteq> expected_type then Some (Inl RCLIENT_ERR_AUTH)
               else if ty = R_TLV_AUTH_COOKIE then
                 (if auth_size \<noteq> 36 \<or> auth_body_len \<noteq> 32 then Some (Inl RCLIENT_ERR_PROTOCOL)
                  else case cookie c of
                    None \<Rightarrow> Some (Inl RCLIENT_ERR_AUTH)
                  | Some ck \<Rightarrow> do {
                      ab \<leftarrow> rd_bytes buf auth_body 32;
                      ckb \<leftarrow> rd_bytes ck 0 32;
                      if ab \<noteq> ckb then Some (Inl RCLIENT_ERR_AUTH)
                      else do {
                        pdu \<leftarrow> rd_bytes buf pdu_pos (len - pdu_pos);
                        Some (Inr pdu) } })
               else if ty = R_TLV_AUTH_AES then
                 (if auth_size \<noteq> 32 \<or> auth_body_len \<noteq> 28 then Some (Inl RCLIENT_ERR_PROTOCOL)
                  else case aes_key c of
                    None \<Rightarrow> Some (Inl RCLIENT_ERR_AUTH)
                  | Some key \<Rightarrow>
                      if pdu_cap = 0 then Some (Inl RCLIENT_ERR_PROTOCOL)
                      else do {
                        nonce \<leftarrow> rd_bytes buf auth_body 12;
                        tag \<leftarrow> rd_bytes buf (auth_body + 12) 16;
                        let cipher_len = len - pdu_pos;
                        if cipher_len = 0 then Some (Inl RCLIENT_ERR_PROTOCOL)
                        else do {
                          cipher \<leftarrow> rd_bytes buf pdu_pos cipher_len;
                          aad \<leftarrow> rd_bytes buf 0 (pos + 4 + 12);
                          r \<leftarrow> r_decrypt_pdu_aes_gcm evp_dec cipher key nonce tag aad
                                 (replicate pdu_cap 0) pdu_cap;
                          case r of
                            Inl _ \<Rightarrow> Some (Inl RCLIENT_ERR_PROTOCOL)
                          | Inr (out, out_len) \<Rightarrow> do {
                              pdu \<leftarrow> rd_bytes out 0 out_len;
                              Some (Inr pdu) } } })
               else Some (Inl RCLIENT_ERR_PROTOCOL)) }"

definition r_parse_rate_response_alloc ::
  "'w hooks \<Rightarrow> byte list \<Rightarrow> nat \<Rightarrow> 'w sys
     \<Rightarrow> ((r_client_error + (r_guard_result list \<times> r_resource_result list \<times> bool)) \<times> 'w sys) option" where
  "r_parse_rate_response_alloc hk pdu pdu_len s =
    (if pdu_len < R_PDU_HEADER_LEN then Some (Inl RCLIENT_ERR_PROTOCOL, s)
     else do {
       pdu_type \<leftarrow> r_le16 pdu 0;
       if pdu_type \<noteq> R_PDU_RATE_RESPONSE then Some (Inl RCLIENT_ERR_PROTOCOL, s)
       else do {
         sz \<leftarrow> r_le16 pdu 2;
         let pdu_size = unat sz;
         if pdu_size < R_PDU_HEADER_LEN \<or> pdu_len < pdu_size then Some (Inl RCLIENT_ERR_PROTOCOL, s)
         else if pdu_size - R_PDU_HEADER_LEN < 4 then Some (Inl RCLIENT_ERR_PROTOCOL, s)
         else do {
           guard_count \<leftarrow> r_le16 pdu R_PDU_HEADER_LEN;
           res_count \<leftarrow> r_le16 pdu (R_PDU_HEADER_LEN + 2);
           let (ok, s) = (if guard_count > 0 then alloc hk s else (True, s));
           if \<not> ok then Some (Inl RCLIENT_ERR_NOMEM, s)
           else
             let (ok, s) = (if res_count > 0 then alloc hk s else (True, s)) in
             if \<not> ok then Some (Inl RCLIENT_ERR_NOMEM, s)
             else do {
               rc \<leftarrow> r_parse_rate_response_pdu pdu pdu_size (unat guard_count) (unat res_count);
               Some (rc, s) } } } })"

subsection \<open>Facts: authenticated packets\<close>

text \<open>What the code relies on of the cipher and of the random generator.\<close>

definition aead_laws :: "evp_encrypt \<Rightarrow> evp_decrypt \<Rightarrow> bool" where
  "aead_laws enc dec \<longleftrightarrow>
     (\<forall>key nonce aad plain c tag. enc key nonce aad plain = Some (c, tag) \<longrightarrow>
        length c = length plain \<and> length tag = 16 \<and> dec key nonce aad tag c = Some plain)
   \<and> (\<forall>key nonce aad tag c plain. dec key nonce aad tag c = Some plain \<longrightarrow> length plain = length c)"

definition rand_laws :: "'w hooks \<Rightarrow> bool" where
  "rand_laws hk \<longleftrightarrow> (\<forall>n w b w'. h_rand_bytes hk n w = (Some b, w') \<longrightarrow> length b = n)"

definition cookie_header :: "r_tenant_header \<Rightarrow> byte list" where
  "cookie_header h = tenant_bytes h @ le_bytes 2 R_TLV_AUTH_COOKIE @ le_bytes 2 (36 :: u16)"

definition cookie_packet :: "r_tenant_header \<Rightarrow> byte list \<Rightarrow> byte list \<Rightarrow> byte list" where
  "cookie_packet h ck pdu = cookie_header h @ ck @ pdu"

definition aes_header :: "r_tenant_header \<Rightarrow> byte list" where
  "aes_header h = tenant_bytes h @ le_bytes 2 R_TLV_AUTH_AES @ le_bytes 2 (32 :: u16)"

definition aes_packet ::
  "evp_encrypt \<Rightarrow> r_tenant_header \<Rightarrow> byte list \<Rightarrow> byte list \<Rightarrow> byte list \<Rightarrow> byte list option" where
  "aes_packet enc h key nonce pdu = do {
     (c, tag) \<leftarrow> enc key nonce (aes_header h @ nonce) pdu;
     Some (aes_header h @ nonce @ tag @ c) }"

lemma length_tenant_bytes: "wf_tenant h \<Longrightarrow> length (tenant_bytes h) = 40"
  by (rule tenant_wire.length_enc)

lemma length_auth_header:
  "wf_tenant h \<Longrightarrow> length (cookie_header h) = 44" "wf_tenant h \<Longrightarrow> length (aes_header h) = 44"
  by (simp_all add: cookie_header_def aes_header_def length_tenant_bytes)

lemma wf_tenant_header_for: "length uid = 16 \<Longrightarrow> wf_tenant (tenant_header_for kid uid ts)"
  by (simp add: wf_tenant_def tenant_header_for_def)

lemma auth_code_simps: "auth_code R_AUTH_COOKIE = 1" "auth_code R_AUTH_AES_GCM = 2"
  by (simp_all add: auth_code_def)

text \<open>Consecutive writes from the start of a buffer.\<close>

lemma wr_extend:
  assumes "i = length xs" and "j = i + length ys" and "j \<le> length out"
  shows "wr_bytes (xs @ drop i out) i ys = Some ((xs @ ys) @ drop j out)"
  using assms by (simp add: wr_bytes_def add.commute)

lemma r_authenticate_cookie:
  assumes "auth_type c = 1" and "cookie c = Some ck" and "length ck = 32" and "wf_tenant h"
    and "pdu_len \<le> length pdu" and "40 \<le> out_cap" and "out_cap \<le> length out"
    and "p = cookie_packet h ck (take pdu_len pdu)"
  shows "r_authenticate_packet hk c h pdu pdu_len out out_cap s =
    Some (if 76 + pdu_len \<le> out_cap \<and> 76 + pdu_len \<le> 1200
          then Inr (p @ drop (76 + pdu_len) out, 76 + pdu_len)
          else Inl RCLIENT_ERR_PROTOCOL, s)"
proof -
  let ?t = "tenant_bytes h" let ?ty = "le_bytes 2 R_TLV_AUTH_COOKIE" let ?sz = "le_bytes 2 (36 :: u16)"
  let ?b = "take pdu_len pdu"
  have lt: "length ?t = 40" using assms(4) by (rule length_tenant_bytes)
  have w0: "r_tenant_header_write h out 40 = Some (?t @ drop 40 out)"
    using assms(4,6,7) lt by (simp add: r_tenant_header_write_eq wire_lens wr_bytes_0)
  show ?thesis
  proof (cases "76 + pdu_len \<le> out_cap")
    case False
    then show ?thesis using assms w0
      by (simp add: r_authenticate_packet_def wire_lens auth_code_simps)
  next
    case True
    then have room: "76 + pdu_len \<le> length out" using assms(7) by simp
    have w1: "wr_bytes (?t @ drop 40 out) 40 ?ty = Some ((?t @ ?ty) @ drop 42 out)"
      by (rule wr_extend) (use room lt in simp_all)
    have w2: "wr_bytes ((?t @ ?ty) @ drop 42 out) 42 ?sz = Some (((?t @ ?ty) @ ?sz) @ drop 44 out)"
      by (rule wr_extend) (use room lt in simp_all)
    have w3: "wr_bytes (((?t @ ?ty) @ ?sz) @ drop 44 out) 44 ck
        = Some ((((?t @ ?ty) @ ?sz) @ ck) @ drop 76 out)"
      by (rule wr_extend) (use room lt assms(3) in simp_all)
    have w4: "wr_bytes ((((?t @ ?ty) @ ?sz) @ ck) @ drop 76 out) 76 ?b
        = Some (((((?t @ ?ty) @ ?sz) @ ck) @ ?b) @ drop (76 + pdu_len) out)"
      by (rule wr_extend) (use room lt assms(3,5) in simp_all)
    have p: "((((?t @ ?ty) @ ?sz) @ ck) @ ?b) = p"
      by (simp add: assms(8) cookie_packet_def cookie_header_def)
    have rd: "rd_bytes ck 0 32 = Some ck" "rd_bytes pdu 0 pdu_len = Some ?b"
      using assms(3,5) by (simp_all add: rd_bytes_def)
    have "\<not> out_cap < 40" "\<not> 76 + pdu_len > out_cap" using True assms(6) by simp_all
    then show ?thesis unfolding r_authenticate_packet_def
      by (simp add: wire_lens auth_code_simps write_le assms(1,2) True rd w0 w1 w2 w3 w4 p
          del: append_assoc)
  qed
qed

lemma r_authenticate_aes:
  assumes "auth_type c = 2" and "aes_key c = Some key" and "wf_tenant h"
    and "aead_laws (h_evp_encrypt hk) dec" and "rand_laws hk"
    and "pdu_len \<le> length pdu" and "40 \<le> out_cap" and "out_cap \<le> length out" and "out_cap \<le> 1200"
    and "rand_bytes hk 12 s = (rnd, s')"
  shows "r_authenticate_packet hk c h pdu pdu_len out out_cap s =
    (if 72 + pdu_len \<le> out_cap
     then Some (case rnd of None \<Rightarrow> Inl RCLIENT_ERR_AUTH
       | Some nonce \<Rightarrow>
           (case aes_packet (h_evp_encrypt hk) h key nonce (take pdu_len pdu) of
              None \<Rightarrow> Inl RCLIENT_ERR_AUTH
            | Some p \<Rightarrow> Inr (p @ drop (72 + pdu_len) out, 72 + pdu_len)), s')
     else Some (Inl RCLIENT_ERR_PROTOCOL, s))"
proof -
  let ?t = "tenant_bytes h" let ?ty = "le_bytes 2 R_TLV_AUTH_AES" let ?sz = "le_bytes 2 (32 :: u16)"
  let ?b = "take pdu_len pdu" let ?h = "(?t @ ?ty) @ ?sz"
  have lt: "length ?t = 40" using assms(3) by (rule length_tenant_bytes)
  have hd: "?h = aes_header h" by (simp add: aes_header_def)
  have w0: "r_tenant_header_write h out 40 = Some (?t @ drop 40 out)"
    using assms(3,7,8) lt by (simp add: r_tenant_header_write_eq wire_lens wr_bytes_0)
  show ?thesis
  proof (cases "72 + pdu_len \<le> out_cap")
    case False
    then show ?thesis using assms(1,2,7) w0
      by (simp add: r_authenticate_packet_def wire_lens auth_code_simps)
  next
    case True
    then have room: "72 + pdu_len \<le> length out" using assms(8) by simp
    have small: "pdu_len \<le> 1200" using True assms(9) by simp
    have w1: "wr_bytes (?t @ drop 40 out) 40 ?ty = Some ((?t @ ?ty) @ drop 42 out)"
      by (rule wr_extend) (use room lt in simp_all)
    have w2: "wr_bytes ((?t @ ?ty) @ drop 42 out) 42 ?sz = Some (?h @ drop 44 out)"
      by (rule wr_extend) (use room lt in simp_all)
    have rd: "rd_bytes pdu 0 pdu_len = Some ?b" "rd_bytes (?h @ drop 44 out) 0 44 = Some ?h"
      using assms(6) room lt by (simp_all add: rd_bytes_def)
    have g: "\<not> out_cap < 40" "\<not> out_cap < 72 + pdu_len" using True assms(7) by simp_all
    note start = r_authenticate_packet_def wire_lens auth_code_simps write_le assms(1,2,10)
    show ?thesis
    proof (cases rnd)
      case None
      then show ?thesis unfolding r_authenticate_packet_def
        by (simp add: wire_lens auth_code_simps write_le assms(1,2,10) True g rd w0 w1 w2 small
            r_encrypt_pdu_aes_gcm_def del: append_assoc)
    next
      case (Some nonce)
      have ln: "length nonce = 12"
        using assms(5,10) Some by (auto simp: rand_bytes_def rand_laws_def split: prod.splits)
      show ?thesis
      proof (cases "h_evp_encrypt hk key nonce (?h @ nonce) ?b")
        case None
        then show ?thesis unfolding r_authenticate_packet_def aes_packet_def hd [symmetric]
          by (simp add: wire_lens auth_code_simps write_le assms(1,2,10) True g rd w0 w1 w2 small
              r_encrypt_pdu_aes_gcm_def Some del: append_assoc)
      next
        case enc: (Some ct)
        obtain ci tag where ct: "ct = (ci, tag)" by (cases ct)
        have lc: "length ci = pdu_len" "length tag = 16"
          using assms(4,6) enc by (auto simp: aead_laws_def ct)
        have lb: "length local_buf = 1200" by (simp add: local_buf_def wire_lens)
        have e: "wr_bytes local_buf 0 ci = Some (ci @ drop pdu_len local_buf)"
          using wr_bytes_0 [of ci local_buf] lc small lb by simp
        have rc: "rd_bytes (ci @ drop pdu_len local_buf) 0 pdu_len = Some ci"
          "rd_bytes nonce 0 12 = Some nonce" "rd_bytes tag 0 16 = Some tag"
          using lc ln by (simp_all add: rd_bytes_def)
        have w3: "wr_bytes (?h @ drop 44 out) 44 nonce = Some ((?h @ nonce) @ drop 56 out)"
          by (rule wr_extend) (use room lt ln in simp_all)
        have w4: "wr_bytes ((?h @ nonce) @ drop 56 out) 56 tag = Some (((?h @ nonce) @ tag) @ drop 72 out)"
          by (rule wr_extend) (use room lt ln lc in simp_all)
        have w5: "wr_bytes (((?h @ nonce) @ tag) @ drop 72 out) 72 ci
            = Some ((((?h @ nonce) @ tag) @ ci) @ drop (72 + pdu_len) out)"
          by (rule wr_extend) (use room lt ln lc in simp_all)
        have p: "aes_packet (h_evp_encrypt hk) h key nonce ?b = Some (((?h @ nonce) @ tag) @ ci)"
          using enc unfolding aes_packet_def hd [symmetric] ct by simp
        have le: "\<not> 1128 < pdu_len" "\<not> 1200 < pdu_len" using True assms(9) by simp_all
        show ?thesis unfolding r_authenticate_packet_def
          by (simp add: le p wire_lens auth_code_simps write_le assms(1,2,10) True g rd w0 w1 w2 small
              r_encrypt_pdu_aes_gcm_def Some enc ct e lc rc w3 w4 w5 del: append_assoc)
      qed
    qed
  qed
qed

subsection \<open>Facts: request packets\<close>

definition wf_req :: "r_client_req \<Rightarrow> bool" where
  "wf_req req \<longleftrightarrow> list_all wf_resource (rq_resources req) \<and> list_all wf_guard (rq_guards req)
     \<and> wf_label (rq_metrics_label req) (rq_metrics_label_len req) \<and> length (request_id req) = 16"

definition request_body :: "r_client_req \<Rightarrow> byte list" where
  "request_body req = rate_request_body_bytes (rq_resources req) (rq_guards req) (rq_metrics_label req)
     (rq_metrics_label_len req)"

definition request_pdu :: "r_client_req \<Rightarrow> byte list" where
  "request_pdu req = pdu_bytes R_PDU_RATE_REQUEST (dedup_ttl_ms req) (request_body req)"

lemma length_request_body:
  assumes "wf_req req"
  shows "length (request_body req) = 4 + length (rq_guards req) * 36 + length (rq_resources req) * 28
    + length (label_part (rq_metrics_label req) (rq_metrics_label_len req))"
proof -
  have "request_body req = body_prefix (rq_resources req) (rq_guards req)
      @ label_part (rq_metrics_label req) (rq_metrics_label_len req)"
    by (simp add: request_body_def rate_request_body_bytes_def body_prefix_def)
  then show ?thesis using assms length_body_prefix by (simp add: wf_req_def)
qed

text \<open>A body that fits a packet fits all of its 16-bit fields.\<close>

lemma small_body_fits:
  assumes "wf_req req" and "length (request_body req) \<le> 1200"
  shows "length (rq_resources req) \<le> 0xffff" and "length (rq_guards req) \<le> 0xffff"
    and "label_fits (rq_metrics_label req) (rq_metrics_label_len req)"
proof -
  note l = length_request_body [OF assms(1)]
  show "length (rq_resources req) \<le> 0xffff" "length (rq_guards req) \<le> 0xffff" using l assms(2) by simp_all
  show "label_fits (rq_metrics_label req) (rq_metrics_label_len req)"
    using l assms(2) by (auto simp: label_fits_def label_part_def length_label_tlv_bytes split: if_splits)
qed

lemma r_build_rate_request_packet_eq:
  assumes "wf_req req"
  shows "r_build_rate_request_packet hk c req out out_cap s =
    (if length (request_body req) \<le> 1192
     then let (ts, s) = (if start_ms req \<noteq> 0 then (start_ms req, s) else r_now_ms hk s) in
       r_authenticate_packet hk c (tenant_header_for (cl_key_id c) (request_id req) ts)
         (request_pdu req @ drop (8 + length (request_body req)) local_buf)
         (8 + length (request_body req)) out out_cap s
     else Some (Inl RCLIENT_ERR_PROTOCOL, s))"
proof -
  let ?b = "request_body req" let ?n = "length (request_body req)"
  have lb: "length local_buf = 1200" by (simp add: local_buf_def wire_lens)
  note wf = assms [unfolded wf_req_def]
  have body: "r_build_rate_request_body (rq_resources req) (rq_guards req) (rq_metrics_label req)
      (rq_metrics_label_len req) local_buf 1200 =
    (if ?n \<le> 1200 then Some (Inr (?b @ drop ?n local_buf, ?n)) else Some (Inl RCLIENT_ERR_PROTOCOL))"
    using rate_request_body_eq [of "rq_resources req" "rq_guards req" "rq_metrics_label req"
        "rq_metrics_label_len req" 1200 local_buf ?b] wf lb small_body_fits [OF assms]
    by (auto simp: request_body_def)
  have pdu: "r_build_rate_request_pdu (dedup_ttl_ms req) (?b @ drop ?n local_buf) ?n local_buf 1200 =
    (if ?n \<le> 1192 then Some (Inr (request_pdu req @ drop (8 + ?n) local_buf, 8 + ?n))
     else Some (Inl RCLIENT_ERR_PROTOCOL))"
    by (subst build_rate_request_pdu_eq) (use lb in \<open>auto simp: request_pdu_def\<close>)
  show ?thesis unfolding r_build_rate_request_packet_def wire_lens body
    using pdu by (simp split: prod.splits)
qed

text \<open>The complete packet under the two credentials.\<close>

lemma length_request_pdu: "length (request_pdu req) = 8 + length (request_body req)"
  by (simp add: request_pdu_def length_pdu_bytes)

lemma request_packet_cookie:
  assumes "wf_req req" and "start_ms req \<noteq> 0" and "auth_type c = 1" and "cookie c = Some ck"
    and "length ck = 32" and "length out = 1200"
    and "p = cookie_packet (tenant_header_for (cl_key_id c) (request_id req) (start_ms req)) ck (request_pdu req)"
  shows "r_build_rate_request_packet hk c req out 1200 s =
    Some (if 84 + length (request_body req) \<le> 1200
          then Inr (p @ drop (length p) out, length p) else Inl RCLIENT_ERR_PROTOCOL, s)"
proof -
  let ?h = "tenant_header_for (cl_key_id c) (request_id req) (start_ms req)"
  have h: "wf_tenant ?h" using assms(1) by (simp add: wf_tenant_header_for wf_req_def)
  have lp: "length p = 84 + length (request_body req)"
    using assms(5) h by (simp add: assms(7) cookie_packet_def length_auth_header length_request_pdu)
  have "r_authenticate_packet hk c ?h (request_pdu req @ drop (8 + length (request_body req)) local_buf)
      (8 + length (request_body req)) out 1200 s =
    Some (if 84 + length (request_body req) \<le> 1200
          then Inr (p @ drop (length p) out, length p) else Inl RCLIENT_ERR_PROTOCOL, s)"
    by (subst r_authenticate_cookie [OF assms(3-5) h, where p = p])
      (auto simp: length_request_pdu assms(6,7) lp [unfolded assms(7)])
  then show ?thesis unfolding r_build_rate_request_packet_eq [OF assms(1)] using assms(2) by simp
qed

lemma request_packet_aes:
  assumes "wf_req req" and "start_ms req \<noteq> 0" and "auth_type c = 2" and "aes_key c = Some key"
    and "aead_laws (h_evp_encrypt hk) dec" and "rand_laws hk" and "length out = 1200"
    and "h = tenant_header_for (cl_key_id c) (request_id req) (start_ms req)"
    and "rand_bytes hk 12 s = (rnd, s')"
  shows "r_build_rate_request_packet hk c req out 1200 s =
    (if 80 + length (request_body req) \<le> 1200
     then Some (case rnd of None \<Rightarrow> Inl RCLIENT_ERR_AUTH
       | Some nonce \<Rightarrow> (case aes_packet (h_evp_encrypt hk) h key nonce (request_pdu req) of
              None \<Rightarrow> Inl RCLIENT_ERR_AUTH
            | Some p \<Rightarrow> Inr (p @ drop (80 + length (request_body req)) out, 80 + length (request_body req))), s')
     else Some (Inl RCLIENT_ERR_PROTOCOL, s))"
proof -
  have h: "wf_tenant h" using assms(1,8) by (simp add: wf_tenant_header_for wf_req_def)
  have tk: "take (8 + length (request_body req)) (request_pdu req @ xs) = request_pdu req" for xs
    by (simp add: length_request_pdu)
  have n: "72 + (8 + length (request_body req)) = 80 + length (request_body req)" by simp
  let ?q = "request_pdu req @ drop (8 + length (request_body req)) local_buf"
  have "8 + length (request_body req) \<le> length ?q" by (simp add: length_request_pdu)
  note a = r_authenticate_aes [OF assms(3,4) h assms(5,6) this _ _ _ assms(9), of 1200 out, unfolded tk n]
  show ?thesis unfolding r_build_rate_request_packet_eq [OF assms(1)]
    using assms(2) by (simp add: a assms(7) assms(8) [symmetric])
qed

subsection \<open>Facts: incoming packets\<close>

lemma le_word_2: "le_word (take 2 (le_bytes 2 (v :: u16) @ xs)) = v"
  by (simp add: le_word_le_bytes)

lemma parse_auth_header:
  assumes "length t = 40" and "buf = t @ le_bytes 2 (ty :: u16) @ le_bytes 2 (sz :: u16) @ rest"
    and "4 \<le> unat sz" and "unat sz \<le> 4 + length rest"
  shows "r_parse_auth_tlv_header buf (length buf) 40 =
    Some (Inr (ty, unat sz, 44, unat sz - 4, 40 + unat sz))"
proof -
  have "take 2 (drop 40 buf) = le_bytes 2 ty" "take 2 (drop 42 buf) = le_bytes 2 sz"
    using assms(1) by (simp_all add: assms(2))
  then have "r_le16 buf 40 = Some ty" "r_le16 buf 42 = Some sz"
    using assms(1) by (simp_all add: r_le16_eq assms(2) le_word_le_bytes)
  then show ?thesis using assms by (simp add: r_parse_auth_tlv_header_def)
qed

lemma extract_cookie:
  assumes "auth_type c = 1" and "cookie c = Some ck" and "length ck = 32" and "length t = 40"
    and "buf = t @ le_bytes 2 R_TLV_AUTH_COOKIE @ le_bytes 2 (36 :: u16) @ ck @ pdu"
  shows "r_extract_pdu_data dec c buf (length buf) 40 cap = Some (Inr pdu)"
proof -
  have p: "r_parse_auth_tlv_header buf (length buf) 40 = Some (Inr (R_TLV_AUTH_COOKIE, 36, 44, 32, 76))"
    using parse_auth_header [OF assms(4,5)] assms(3) by simp
  have l: "length buf = 76 + length pdu" using assms(3,4) by (simp add: assms(5))
  have r: "rd_bytes buf 44 32 = Some ck" "rd_bytes ck 0 32 = Some ck"
    "rd_bytes buf 76 (length buf - 76) = Some pdu"
    using assms(3,4) by (simp_all add: rd_bytes_def assms(5))
  show ?thesis unfolding r_extract_pdu_data_def p by (simp add: assms(1,2) auth_code_simps r)
qed

lemma extract_aes:
  assumes "auth_type c = 2" and "aes_key c = Some key" and "length t = 40" and "length nonce = 12"
    and "length tag = 16" and "ci \<noteq> []" and "length ci \<le> cap"
    and "hdr = t @ le_bytes 2 R_TLV_AUTH_AES @ le_bytes 2 (32 :: u16)"
    and "dec key nonce (hdr @ nonce) tag ci = Some pdu" and "length pdu = length ci"
    and "buf = hdr @ nonce @ tag @ ci"
  shows "r_extract_pdu_data dec c buf (length buf) 40 cap = Some (Inr pdu)"
proof -
  have b: "buf = t @ le_bytes 2 R_TLV_AUTH_AES @ le_bytes 2 (32 :: u16) @ nonce @ tag @ ci"
    by (simp add: assms(8,11))
  have p: "r_parse_auth_tlv_header buf (length buf) 40 = Some (Inr (R_TLV_AUTH_AES, 32, 44, 28, 72))"
    using parse_auth_header [OF assms(3) b] assms(4,5) by simp
  have l: "length buf = 72 + length ci" using assms(3-5) by (simp add: b)
  have ty: "R_TLV_AUTH_AES \<noteq> R_TLV_AUTH_COOKIE" by (simp add: wire_tags)
  have hn: "take 56 buf = hdr @ nonce" using assms(3,4) by (simp add: assms(8,11))
  have r: "rd_bytes buf 44 12 = Some nonce" "rd_bytes buf 56 16 = Some tag"
    "rd_bytes buf 72 (length ci) = Some ci" "rd_bytes buf 0 56 = Some (hdr @ nonce)"
    using assms(3-5) hn by (simp_all add: rd_bytes_def b)
  have w: "wr_bytes (replicate cap 0) 0 pdu = Some (pdu @ replicate (cap - length ci) 0)"
    using wr_bytes_0 [of pdu "replicate cap 0"] assms(7,10) by simp
  have o: "rd_bytes (pdu @ replicate (cap - length ci) 0) 0 (length ci) = Some pdu"
    using assms(10) by (simp add: rd_bytes_def)
  have "0 < cap" using assms(6,7) by (cases ci) auto
  then show ?thesis unfolding r_extract_pdu_data_def p
    using assms(6,7) by (simp add: assms(1,2,9,10) ty auth_code_simps r l r_decrypt_pdu_aes_gcm_def w o)
qed

definition dec_length :: "evp_decrypt \<Rightarrow> bool" where
  "dec_length dec \<longleftrightarrow> (\<forall>key nonce aad tag ci plain. dec key nonce aad tag ci = Some plain \<longrightarrow> length plain = length ci)"

definition wf_client :: "r_client \<Rightarrow> bool" where
  "wf_client c \<longleftrightarrow> (\<forall>ck. cookie c = Some ck \<longrightarrow> length ck = 32) \<and> (\<forall>k. aes_key c = Some k \<longrightarrow> length k = 32)"

lemma r_decrypt_eq:
  assumes "dec_length dec"
  shows "r_decrypt_pdu_aes_gcm dec ci key nonce tag aad (replicate cap 0) cap =
    Some (if cap < length ci then Inl () else case dec key nonce aad tag ci of
       None \<Rightarrow> Inl () | Some plain \<Rightarrow> Inr (plain @ replicate (cap - length ci) 0, length ci))"
proof (cases "dec key nonce aad tag ci")
  case (Some plain)
  then have "length plain = length ci" using assms by (auto simp: dec_length_def)
  then show ?thesis using Some
    by (simp add: r_decrypt_pdu_aes_gcm_def wr_bytes_def)
qed (simp add: r_decrypt_pdu_aes_gcm_def)

lemma r_extract_authentic:
  assumes "len \<le> length buf" and "wf_client c" and "dec_length dec"
  shows "\<exists>r. r_extract_pdu_data dec c buf len pos cap = Some r \<and>
    (\<forall>pdu. r = Inr pdu \<longrightarrow>
      (auth_type c = 1 \<and> cookie c = Some (take 32 (drop (pos + 4) buf))
         \<and> pos + 36 \<le> len \<and> pdu = take (len - (pos + 36)) (drop (pos + 36) buf))
      \<or> (auth_type c = 2 \<and> pos + 32 < len \<and> (\<exists>key. aes_key c = Some key \<and>
           dec key (take 12 (drop (pos + 4) buf)) (take (pos + 16) buf) (take 16 (drop (pos + 16) buf))
             (take (len - (pos + 32)) (drop (pos + 32) buf)) = Some pdu)))"
proof -
  obtain rh where rh: "r_parse_auth_tlv_header buf len pos = Some rh"
    using r_parse_auth_tlv_header_total [OF assms(1)] by blast
  show ?thesis
  proof (cases rh)
    case (Inl e)
    then show ?thesis by (simp add: r_extract_pdu_data_def rh)
  next
    case (Inr t)
    obtain ty sz body body_len pp where t: "t = (ty, sz, body, body_len, pp)" by (cases t)
    have h: "sz = body_len + 4" "body = pos + 4" "pp = pos + sz" "pp \<le> len"
      using r_parse_auth_tlv_header_Inr [of buf len pos ty sz body body_len pp] rh Inr t assms(1) by auto
    have tags: "R_TLV_AUTH_AES \<noteq> R_TLV_AUTH_COOKIE" "R_TLV_AUTH_COOKIE \<noteq> R_TLV_AUTH_AES"
      by (simp_all add: wire_tags)
    have e1: "auth_type c = 1 \<Longrightarrow> ty \<noteq> R_TLV_AUTH_COOKIE \<or> sz \<noteq> 36 \<Longrightarrow>
        \<exists>e. r_extract_pdu_data dec c buf len pos cap = Some (Inl e)"
      by (cases "ty = R_TLV_AUTH_COOKIE")
        (simp_all add: r_extract_pdu_data_def rh Inr t auth_code_simps)
    have e2: "auth_type c = 2 \<Longrightarrow> ty \<noteq> R_TLV_AUTH_AES \<or> sz \<noteq> 32 \<Longrightarrow>
        \<exists>e. r_extract_pdu_data dec c buf len pos cap = Some (Inl e)"
      by (cases "ty = R_TLV_AUTH_AES")
        (simp_all add: r_extract_pdu_data_def rh Inr t auth_code_simps tags)
    have e3: "auth_type c \<noteq> 1 \<Longrightarrow> auth_type c \<noteq> 2 \<Longrightarrow>
        \<exists>e. r_extract_pdu_data dec c buf len pos cap = Some (Inl e)"
      by (simp add: r_extract_pdu_data_def rh Inr t auth_code_simps)
    consider (ck) "auth_type c = 1" "ty = R_TLV_AUTH_COOKIE" "sz = 36" "body_len = 32"
      | (aes) "auth_type c = 2" "ty = R_TLV_AUTH_AES" "sz = 32" "body_len = 28"
      | (bad) "\<exists>e. r_extract_pdu_data dec c buf len pos cap = Some (Inl e)"
      using e1 e2 e3 h(1) by fastforce
    then show ?thesis
    proof cases
      case ck
      have r: "rd_bytes buf (pos + 4) 32 = Some (take 32 (drop (pos + 4) buf))"
        "rd_bytes buf (pos + 36) (len - (pos + 36)) = Some (take (len - (pos + 36)) (drop (pos + 36) buf))"
        using ck h assms(1) by (auto simp: rd_bytes_def)
      show ?thesis
      proof (cases "cookie c")
        case (Some ck')
        then have "rd_bytes ck' 0 32 = Some ck'" using assms(2) by (simp add: wf_client_def rd_bytes_def)
        then show ?thesis using ck h r Some
          by (auto simp: r_extract_pdu_data_def rh Inr t auth_code_simps)
      qed (use ck in \<open>simp add: r_extract_pdu_data_def rh Inr t auth_code_simps\<close>)
    next
      case aes
      have ty: "R_TLV_AUTH_AES \<noteq> R_TLV_AUTH_COOKIE" by (simp add: wire_tags)
      have r: "rd_bytes buf (pos + 4) 12 = Some (take 12 (drop (pos + 4) buf))"
        "rd_bytes buf (pos + 16) 16 = Some (take 16 (drop (pos + 16) buf))"
        "rd_bytes buf (pos + 32) (len - (pos + 32)) = Some (take (len - (pos + 32)) (drop (pos + 32) buf))"
        "rd_bytes buf 0 (pos + 16) = Some (take (pos + 16) buf)"
        using aes h assms(1) by (auto simp: rd_bytes_def)
      define ci where "ci = take (len - (pos + 32)) (drop (pos + 32) buf)"
      have lc: "length ci = len - (pos + 32)" using aes h assms(1) by (simp add: ci_def)
      note r = r [folded ci_def]
      have o: "rd_bytes (plain @ replicate k 0) 0 (len - (pos + 32)) = Some plain"
        if "dec key nonce aad tag ci = Some plain" for key nonce aad tag plain k
      proof -
        have "length plain = len - (pos + 32)" using assms(3) that lc unfolding dec_length_def by metis
        then show ?thesis by (simp add: rd_bytes_def)
      qed
      show ?thesis
      proof (cases "aes_key c = None \<or> cap = 0 \<or> len = pos + 32")
        case True
        have idx: "pos + 4 + 12 = pos + 16" by simp
        show ?thesis
        proof (cases "aes_key c")
          case (Some key)
          then show ?thesis using aes h True
            by (auto simp: r_extract_pdu_data_def rh Inr t auth_code_simps ty r idx Some)
        qed (use aes in \<open>simp add: r_extract_pdu_data_def rh Inr t auth_code_simps ty\<close>)
      next
        case False
        then obtain key where key: "aes_key c = Some key" by (cases "aes_key c") auto
        let ?d = "dec key (take 12 (drop (pos + 4) buf)) (take (pos + 16) buf) (take 16 (drop (pos + 16) buf)) ci"
        have idx: "pos + 4 + 12 = pos + 16" by simp
        have "r_extract_pdu_data dec c buf len pos cap =
          Some (if cap < length ci then Inl RCLIENT_ERR_PROTOCOL else case ?d of
            None \<Rightarrow> Inl RCLIENT_ERR_PROTOCOL | Some plain \<Rightarrow> Inr plain)"
          unfolding r_extract_pdu_data_def rh Inr t using aes h False
          by (simp add: auth_code_simps tags r idx key r_decrypt_eq [OF assms(3)] lc o split: option.split)
        then show ?thesis using aes h False key by (auto simp: ci_def [symmetric] split: option.splits if_splits)
      qed
    next
      case bad
      then show ?thesis by auto
    qed
  qed
qed

lemma alloc_frame: "alloc hk s = (ok, s') \<Longrightarrow> \<exists>w. s' = s\<lparr>world := w\<rparr>"
  by (auto simp: alloc_def split: prod.splits)

lemma r_parse_rate_response_alloc_safe:
  assumes "pdu_len \<le> length pdu"
  shows "\<exists>r w. r_parse_rate_response_alloc hk pdu pdu_len s = Some (r, s\<lparr>world := w\<rparr>) \<and>
    (case r of Inl e \<Rightarrow> e = RCLIENT_ERR_PROTOCOL \<or> e = RCLIENT_ERR_NOMEM
     | Inr (gs, rs, ok) \<Rightarrow> gs = resp_guards pdu \<and> rs = resp_resources pdu \<and> ok = decision gs rs
         \<and> response_ok pdu pdu_len (resp_guard_count pdu) (resp_resource_count pdu))"
proof -
  let ?sz = "pdu_size_of pdu"
  show ?thesis
  proof (cases "8 \<le> pdu_len \<and> pdu_type_of pdu = R_PDU_RATE_RESPONSE \<and> 12 \<le> ?sz \<and> ?sz \<le> pdu_len")
    case False
    then have "r_parse_rate_response_alloc hk pdu pdu_len s = Some (Inl RCLIENT_ERR_PROTOCOL, s)"
      using assms by (auto simp: r_parse_rate_response_alloc_def wire_lens mem_simps pdu_type_of_def
          pdu_size_of_def Let_def)
    then show ?thesis
      by (intro exI [of _ "Inl RCLIENT_ERR_PROTOCOL"] exI [of _ "world s"]) simp
  next
    case True
    let ?gc = "le_word (take 2 (drop 8 pdu)) :: u16" and ?rc = "le_word (take 2 (drop 10 pdu)) :: u16"
    have r: "r_le16 pdu 0 = Some R_PDU_RATE_RESPONSE" "r_le16 pdu 2 = Some (le_word (take 2 (drop 2 pdu)))"
      "r_le16 pdu 8 = Some ?gc" "r_le16 pdu (8 + 2) = Some ?rc"
      using True assms by (simp_all add: mem_simps pdu_type_of_def)
    have g: "\<not> pdu_len < 8" "\<not> (?sz < 8 \<or> pdu_len < ?sz)" "\<not> ?sz - 8 < 4" using True by auto
    obtain ok1 s1 where a1: "(if ?gc > 0 then alloc hk s else (True, s)) = (ok1, s1)" by fastforce
    obtain ok2 s2 where a2: "(if ?rc > 0 then alloc hk s1 else (True, s1)) = (ok2, s2)" by fastforce
    have s1: "\<exists>w. s1 = s\<lparr>world := w\<rparr>"
      using a1 alloc_frame [of hk s ok1 s1] by (cases "?gc > 0") (auto intro: exI [of _ "world s"])
    have "\<exists>w. s2 = s1\<lparr>world := w\<rparr>"
      using a2 alloc_frame [of hk s1 ok2 s2] by (cases "?rc > 0") (auto intro: exI [of _ "world s1"])
    then have s2: "\<exists>w. s2 = s\<lparr>world := w\<rparr>" using s1 by auto
    have p: "r_parse_rate_response_pdu pdu ?sz (unat ?gc) (unat ?rc) =
      Some (if response_ok pdu ?sz (resp_guard_count pdu) (resp_resource_count pdu)
        then Inr (resp_guards pdu, resp_resources pdu, decision (resp_guards pdu) (resp_resources pdu))
        else Inl RCLIENT_ERR_PROTOCOL)"
      using True assms by (simp add: r_parse_rate_response_pdu_eq resp_guard_count_def resp_resource_count_def)
    have ok: "response_ok pdu ?sz gcap rcap \<Longrightarrow> response_ok pdu pdu_len gcap rcap" for gcap rcap
      using True by (auto simp: response_ok_def)
    have "r_parse_rate_response_alloc hk pdu pdu_len s =
      (if \<not> ok1 then Some (Inl RCLIENT_ERR_NOMEM, s1)
       else if \<not> ok2 then Some (Inl RCLIENT_ERR_NOMEM, s2)
       else Some (if response_ok pdu ?sz (resp_guard_count pdu) (resp_resource_count pdu)
        then Inr (resp_guards pdu, resp_resources pdu, decision (resp_guards pdu) (resp_resources pdu))
        else Inl RCLIENT_ERR_PROTOCOL, s2))"
      unfolding r_parse_rate_response_alloc_def wire_lens r Option.bind.simps Let_def
        pdu_size_of_def [symmetric] using g a1 a2 p by simp
    then show ?thesis using s1 s2 ok by (auto split: if_splits)
  qed
qed

text \<open>A header as both ends write it: the tenant tag and the size of the header without extensions.\<close>

definition framed :: "r_tenant_header \<Rightarrow> bool" where
  "framed h \<longleftrightarrow> wf_tenant h \<and> tlv_type h = R_TLV_TENANT \<and> tlv_size h = of_nat R_TENANT_TLV_LEN"

lemma framed_tenant_header_for: "length uid = 16 \<Longrightarrow> framed (tenant_header_for kid uid ts)"
  by (simp add: framed_def wf_tenant_header_for) (simp add: tenant_header_for_def)

lemma framed_length: "framed h \<Longrightarrow> length (tenant_bytes h) = 40"
  by (simp add: framed_def length_tenant_bytes)

lemma parse_tenant_of_packet:
  assumes "framed h" and "buf = tenant_bytes h @ rest"
  shows "r_parse_tenant_header buf (length buf) = Some (Inr (h, 40))"
proof -
  have h: "wf_tenant h" "tlv_type h = R_TLV_TENANT" "unat (tlv_size h) = 40"
    using assms(1) by (simp_all add: framed_def wire_lens)
  have l: "40 \<le> length buf" using h(1) by (simp add: assms(2) length_tenant_bytes)
  show ?thesis using tenant_ok_bytes [OF h] l h(3)
    by (simp add: r_parse_tenant_header_eq assms(2) wire_lens)
qed

lemma no_credential:
  assumes "wf_tenant h" and "40 \<le> out_cap" and "out_cap \<le> length out"
    and "\<not> (auth_type c = 1 \<and> cookie c \<noteq> None)" and "\<not> (auth_type c = 2 \<and> aes_key c \<noteq> None)"
  shows "\<exists>e. r_authenticate_packet hk c h pdu pdu_len out out_cap s = Some (Inl e, s)"
proof -
  have w0: "r_tenant_header_write h out 40 = Some (tenant_bytes h @ drop 40 out)"
    using assms(1-3) length_tenant_bytes [OF assms(1)] by (simp add: r_tenant_header_write_eq wire_lens wr_bytes_0)
  then show ?thesis using assms(2,4,5)
    by (simp add: r_authenticate_packet_def wire_lens auth_code_simps)
qed

definition readable_as :: "evp_decrypt \<Rightarrow> r_client \<Rightarrow> r_tenant_header \<Rightarrow> byte list \<Rightarrow> byte list \<Rightarrow> bool" where
  "readable_as dec c h pdu p \<longleftrightarrow> length p \<le> R_MAX_PACKET_SIZE
     \<and> r_parse_tenant_header p (length p) = Some (Inr (h, 40))
     \<and> r_extract_pdu_data dec c p (length p) 40 R_MAX_PACKET_SIZE = Some (Inr pdu)"

lemma cookie_packet_readable:
  assumes "framed h" and "auth_type c = 1"
    and "cookie c = Some ck" and "length ck = 32" and "76 + length pdu \<le> 1200"
  shows "readable_as dec c h pdu (cookie_packet h ck pdu)"
proof -
  let ?p = "cookie_packet h ck pdu"
  have p: "?p = tenant_bytes h @ le_bytes 2 R_TLV_AUTH_COOKIE @ le_bytes 2 (36 :: u16) @ ck @ pdu"
    by (simp add: cookie_packet_def cookie_header_def)
  have h: "length (tenant_bytes h) = 40" using assms(1) by (rule framed_length)
  have "length ?p \<le> 1200" using assms(4,5) h by (simp add: p)
  then show ?thesis unfolding readable_as_def
    using extract_cookie [OF assms(2-4) h p] parse_tenant_of_packet [OF assms(1) p]
    by (simp add: wire_lens)
qed

lemma aes_packet_readable:
  assumes "framed h" and "auth_type c = 2"
    and "aes_key c = Some key" and "length nonce = 12" and "aead_laws enc dec"
    and "72 + length pdu \<le> 1200" and "pdu \<noteq> []" and "aes_packet enc h key nonce pdu = Some p"
  shows "readable_as dec c h pdu p \<and> length p = 72 + length pdu"
proof -
  obtain ci tag where e: "enc key nonce (aes_header h @ nonce) pdu = Some (ci, tag)"
    and p: "p = aes_header h @ nonce @ tag @ ci"
    using assms(8) by (auto simp: aes_packet_def bind_eq_Some_conv)
  have l: "length ci = length pdu" "length tag = 16" "dec key nonce (aes_header h @ nonce) tag ci = Some pdu"
    using assms(5) e unfolding aead_laws_def by blast+
  have ne: "ci \<noteq> []" using l(1) assms(7) by auto
  have h: "length (tenant_bytes h) = 40" using assms(1) by (rule framed_length)
  have pt: "p = tenant_bytes h @ (le_bytes 2 R_TLV_AUTH_AES @ le_bytes 2 (32 :: u16) @ nonce @ tag @ ci)"
    by (simp add: p aes_header_def)
  have "r_extract_pdu_data dec c p (length p) 40 1200 = Some (Inr pdu)"
    by (rule extract_aes [OF assms(2,3) h assms(4) l(2) ne, where hdr = "aes_header h" and dec = dec])
      (use l assms(6) p in \<open>simp_all add: aes_header_def\<close>)
  moreover have "length p = 72 + length pdu" using assms(4) h l by (simp add: pt)
  ultimately show ?thesis unfolding readable_as_def
    using parse_tenant_of_packet [OF assms(1) pt] assms(6)
    by (simp add: wire_lens)
qed

lemma request_packet_readable:
  assumes "wf_req req" and "wf_client c" and "start_ms req \<noteq> 0"
    and "aead_laws (h_evp_encrypt hk) dec" and "rand_laws hk" and "length out = R_MAX_PACKET_SIZE"
    and "h = tenant_header_for (cl_key_id c) (request_id req) (start_ms req)"
  shows "\<exists>r s'. r_build_rate_request_packet hk c req out R_MAX_PACKET_SIZE s = Some (r, s') \<and>
    (\<forall>p n. r = Inr (p, n) \<longrightarrow> length p = R_MAX_PACKET_SIZE \<and> n \<le> R_MAX_PACKET_SIZE
       \<and> readable_as dec c h (request_pdu req) (take n p))"
proof -
  have out: "length out = 1200" using assms(6) by (simp add: wire_lens)
  have uid: "length (request_id req) = 16" using assms(1) by (simp add: wf_req_def)
  have fr: "framed h" using uid assms(7) by (simp add: framed_tenant_header_for)
  have ne: "request_pdu req \<noteq> []" using length_request_pdu [of req] by auto
  consider (ck) ck where "auth_type c = 1" "cookie c = Some ck" | (aes) key where "auth_type c = 2" "aes_key c = Some key"
    | (no) "\<not> (auth_type c = 1 \<and> cookie c \<noteq> None)" "\<not> (auth_type c = 2 \<and> aes_key c \<noteq> None)"
    by blast
  then show ?thesis
  proof cases
    case ck
    have lk: "length ck = 32" using ck assms(2) by (simp add: wf_client_def)
    let ?p = "cookie_packet h ck (request_pdu req)"
    have lp: "length ?p = 84 + length (request_body req)"
      using lk uid by (simp add: cookie_packet_def length_auth_header length_request_pdu assms(7) wf_tenant_header_for)
    note e = request_packet_cookie [OF assms(1,3) ck lk out refl, of hk s, folded assms(7)]
    show ?thesis
    proof (cases "84 + length (request_body req) \<le> 1200")
      case True
      then have "readable_as dec c h (request_pdu req) ?p"
        using cookie_packet_readable [OF fr ck lk] by (simp add: length_request_pdu)
      then show ?thesis using True e lp out by (simp add: wire_lens)
    qed (use e in \<open>simp add: wire_lens\<close>)
  next
    case aes
    obtain rnd s' where rnd: "rand_bytes hk 12 s = (rnd, s')" by fastforce
    note e = request_packet_aes [OF assms(1,3) aes assms(4,5) out assms(7) rnd]
    have ln: "rnd = Some nonce \<Longrightarrow> length nonce = 12" for nonce
      using assms(5) rnd by (auto simp: rand_bytes_def rand_laws_def split: prod.splits)
    show ?thesis
    proof (cases "80 + length (request_body req) \<le> 1200")
      case True
      have rd: "readable_as dec c h (request_pdu req) p \<and> length p = 80 + length (request_body req)"
        if "rnd = Some nonce" "aes_packet (h_evp_encrypt hk) h key nonce (request_pdu req) = Some p" for nonce p
        using aes_packet_readable [OF fr aes ln [OF that(1)] assms(4) _ ne that(2)] True
        by (simp add: length_request_pdu)
      show ?thesis
      proof (cases rnd)
        case (Some nonce)
        show ?thesis
        proof (cases "aes_packet (h_evp_encrypt hk) h key nonce (request_pdu req)")
          case p: (Some p)
          show ?thesis using e rd [OF Some p] True out by (simp add: Some p wire_lens)
        qed (use e True Some in \<open>simp add: wire_lens\<close>)
      qed (use e True in \<open>simp add: wire_lens\<close>)
    qed (use e in \<open>simp add: wire_lens\<close>)
  next
    case no
    have h: "wf_tenant h" using uid assms(7) by (simp add: wf_tenant_header_for)
    show ?thesis using no_credential [OF h _ _ no, of 1200 out hk] out assms(3)
      by (simp add: r_build_rate_request_packet_eq [OF assms(1)] wire_lens assms(7) [symmetric])
        (metis Inl_Inr_False)
  qed
qed

subsection \<open>Properties\<close>

definition sample_req :: r_client_req where
  "sample_req = \<lparr>handle = 1, request_id = replicate 16 9, user = 0,
     rq_resources = [\<lparr>bucket_id = replicate 16 2, window_size_ms = 1000, rate_limit = 100, tokens_requested = 1\<rparr>],
     rq_guards = [], rq_metrics_label = None, rq_metrics_label_len = 0,
     targets = [\<lparr>ep_addr = sample_addr, ep_server_id = 4, has_server_id = True\<rparr>], allowed_ids = [4],
     start_ms = 1000, attempt_deadline_ms = 0, dedup_deadline_ms = 0, dedup_ttl_ms = 500,
     phase = R_REQUEST_PHASE_ROUND, ha_round = 0, ha_round_start_ms = 0,
     ha_preference_deadline_ms = 0, ha_round_deadline_ms = 0, seen_addrs = [], seen_addr_cap = 0,
     seen_server_ids = [], seen_server_id_cap = 0, steering_rebind = False, packet = [],
     packet_len = 0, best = None\<rparr>"

text \<open>
  (C22) Whatever bytes arrive, extracting the PDU stays inside the datagram; it succeeds only
  when the datagram carries the client's own cookie, or when the cipher accepts its tag under the
  client's key with everything up to the nonce as associated data, and then the result is exactly
  what follows, respectively the decrypted rest.
\<close>

theorem extract_pdu_authentic:
  assumes "len \<le> length buf" and "wf_client c" and "dec_length dec"
  shows "\<exists>r. r_extract_pdu_data dec c buf len pos cap = Some r \<and>
    (\<forall>pdu. r = Inr pdu \<longrightarrow>
      (auth_type c = 1 \<and> cookie c = Some (take 32 (drop (pos + 4) buf))
         \<and> pos + 36 \<le> len \<and> pdu = take (len - (pos + 36)) (drop (pos + 36) buf))
      \<or> (auth_type c = 2 \<and> pos + 32 < len \<and> (\<exists>key. aes_key c = Some key \<and>
           dec key (take 12 (drop (pos + 4) buf)) (take (pos + 16) buf) (take 16 (drop (pos + 16) buf))
             (take (len - (pos + 32)) (drop (pos + 32) buf)) = Some pdu)))"
  by (rule r_extract_authentic [OF assms])

lemma sample_client_wf: "wf_client sample_client"
  by (simp add: wf_client_def sample_client_def)

lemma sample_hooks_laws:
  "aead_laws (h_evp_encrypt sample_hooks) (h_evp_decrypt sample_hooks)" "rand_laws sample_hooks"
  "dec_length (h_evp_decrypt sample_hooks)"
  by (auto simp: aead_laws_def rand_laws_def dec_length_def sample_hooks_def split: if_splits)

theorem extract_pdu_authentic_witness:
  "\<exists>r. r_extract_pdu_data (h_evp_decrypt sample_hooks) sample_client (replicate 90 0) 90 40 1200 = Some r
     \<and> (\<forall>pdu. r \<noteq> Inr pdu)"
  using extract_pdu_authentic [of 90 "replicate 90 0" sample_client "h_evp_decrypt sample_hooks" 40 1200]
    sample_client_wf sample_hooks_laws(3)
  by (simp add: sample_client_def replicate_eq_replicate)

text \<open>
  (C23) Building a request packet under a cookie credential writes exactly the tenant header with
  the request's identity and start time, the cookie TLV and the request PDU, leaves the rest of the
  buffer alone, and fails with a protocol error exactly when the packet would exceed 1200 bytes.
\<close>

theorem request_packet_exact:
  assumes "wf_req req" and "start_ms req \<noteq> 0" and "auth_type c = 1" and "cookie c = Some ck"
    and "length ck = 32" and "length out = R_MAX_PACKET_SIZE"
    and "p = cookie_packet (tenant_header_for (cl_key_id c) (request_id req) (start_ms req)) ck (request_pdu req)"
  shows "r_build_rate_request_packet hk c req out R_MAX_PACKET_SIZE s =
    Some (if length p \<le> R_MAX_PACKET_SIZE
          then Inr (p @ drop (length p) out, length p) else Inl RCLIENT_ERR_PROTOCOL, s)"
proof -
  have "length p = 84 + length (request_body req)"
    using assms(1,5) by (simp add: assms(7) cookie_packet_def length_auth_header length_request_pdu
        wf_tenant_header_for wf_req_def)
  then show ?thesis
    using request_packet_cookie [OF assms(1-5) _ assms(7), of out hk s] assms(6)
    by (simp add: wire_lens split: if_splits)
qed

lemma sample_req_wf: "wf_req sample_req"
  by (simp add: wf_req_def sample_req_def wf_resource_def wf_label_def)

lemma length_sample_packet:
  "length (cookie_packet (tenant_header_for 77 (request_id sample_req) 1000) (replicate 32 5) (request_pdu sample_req)) = 116"
proof -
  have "length (request_id sample_req) = 16" by (simp add: sample_req_def)
  then show ?thesis
    by (simp add: cookie_packet_def length_auth_header length_request_pdu wf_tenant_header_for
        length_request_body [OF sample_req_wf]) (simp add: sample_req_def label_part_def nonempty_str_def)
qed

theorem request_packet_exact_witness:
  "\<exists>p. length p = 116 \<and> r_build_rate_request_packet sample_hooks sample_client sample_req
      (replicate R_MAX_PACKET_SIZE 0) R_MAX_PACKET_SIZE sample_sys
    = Some (Inr (p @ replicate (R_MAX_PACKET_SIZE - 116) 0, 116), sample_sys)"
proof -
  let ?p = "cookie_packet (tenant_header_for 77 (request_id sample_req) 1000) (replicate 32 5) (request_pdu sample_req)"
  have "start_ms sample_req = 1000" by (simp add: sample_req_def)
  moreover have "auth_type sample_client = 1" "cookie sample_client = Some (replicate 32 5)"
    "cl_key_id sample_client = 77" by (simp_all add: sample_client_def)
  ultimately have "r_build_rate_request_packet sample_hooks sample_client sample_req
      (replicate R_MAX_PACKET_SIZE 0) R_MAX_PACKET_SIZE sample_sys =
    Some (if length ?p \<le> R_MAX_PACKET_SIZE
      then Inr (?p @ drop (length ?p) (replicate R_MAX_PACKET_SIZE 0), length ?p)
      else Inl RCLIENT_ERR_PROTOCOL, sample_sys)"
    by (intro request_packet_exact [OF sample_req_wf]) simp_all
  then show ?thesis
    by (intro exI [of _ ?p]) (simp add: length_sample_packet R_MAX_PACKET_SIZE_def)
qed

text \<open>
  (C24) Every request packet the client builds, under either credential, is one that the holder of
  the same credential reads back: the tenant header parses to the request's own, and extracting
  the PDU gives the request PDU.  Building never runs into undefined behaviour and never produces
  a packet of more than 1200 bytes.
\<close>

theorem request_packet_roundtrip:
  assumes "wf_req req" and "wf_client c" and "start_ms req \<noteq> 0"
    and "aead_laws (h_evp_encrypt hk) dec" and "rand_laws hk" and "length out = R_MAX_PACKET_SIZE"
    and "h = tenant_header_for (cl_key_id c) (request_id req) (start_ms req)"
  shows "\<exists>r s'. r_build_rate_request_packet hk c req out R_MAX_PACKET_SIZE s = Some (r, s') \<and>
    (\<forall>p n. r = Inr (p, n) \<longrightarrow> n \<le> R_MAX_PACKET_SIZE
       \<and> r_parse_tenant_header (take n p) n = Some (Inr (h, R_TENANT_TLV_LEN))
       \<and> r_extract_pdu_data dec c (take n p) n R_TENANT_TLV_LEN R_MAX_PACKET_SIZE = Some (Inr (request_pdu req)))"
  using request_packet_readable [OF assms, of s]
  by (fastforce simp: readable_as_def wire_lens)

theorem request_packet_roundtrip_witness:
  "\<exists>p n s'. r_build_rate_request_packet sample_hooks sample_client sample_req
       (replicate R_MAX_PACKET_SIZE 0) R_MAX_PACKET_SIZE sample_sys = Some (Inr (p, n), s')
    \<and> n \<le> R_MAX_PACKET_SIZE
    \<and> r_extract_pdu_data (h_evp_decrypt sample_hooks) sample_client (take n p) n R_TENANT_TLV_LEN
          R_MAX_PACKET_SIZE = Some (Inr (request_pdu sample_req))"
proof -
  let ?out = "replicate R_MAX_PACKET_SIZE 0 :: byte list"
  have s: "start_ms sample_req \<noteq> 0" by (simp add: sample_req_def)
  have ck: "auth_type sample_client = 1" "cookie sample_client = Some (replicate 32 5)"
    by (simp_all add: sample_client_def)
  have fits: "84 + length (request_body sample_req) \<le> 1200"
    by (simp add: length_request_body [OF sample_req_wf])
      (simp add: sample_req_def label_part_def nonempty_str_def)
  have "\<exists>p n. r_build_rate_request_packet sample_hooks sample_client sample_req ?out R_MAX_PACKET_SIZE sample_sys
      = Some (Inr (p, n), sample_sys)"
    using request_packet_cookie [OF sample_req_wf s ck _ _ refl, of ?out sample_hooks sample_sys] fits
    unfolding R_MAX_PACKET_SIZE_def by simp
  then show ?thesis
    using request_packet_roundtrip [OF sample_req_wf sample_client_wf s sample_hooks_laws(1,2), of ?out _ sample_sys]
    by fastforce
qed

end
