(* ===== verification/Dns.thy ===== *)
theory Dns
  imports Packet
begin

text \<open>
  The DNS discovery of \<^verbatim>\<open>src/r_client.c\<close>: a refresh object collects the endpoints that an SRV lookup
  and the address lookups of its targets report, and replaces the client's server list when its
  last lookup has finished.

  Refresh and lookup objects live in the two stores of the system state.  Reading or writing an
  object that is not in its store is undefined behaviour, so a total operation is one that neither
  uses an object after it was freed nor frees one twice.  A resolver may call back before its entry
  point returns, and a cancellation may call back as well; both are part of the hooks.
\<close>

subsection \<open>Stores\<close>

definition put_client :: "r_client \<Rightarrow> 'w sys \<Rightarrow> 'w sys" where
  "put_client c s = s\<lparr>client := Some c\<rparr>"

definition put_refresh :: "nat \<Rightarrow> r_dns_refresh \<Rightarrow> 'w sys \<Rightarrow> 'w sys" where
  "put_refresh r rf s = s\<lparr>refreshes := (refreshes s)(r := Some rf)\<rparr>"

definition put_lookup :: "nat \<Rightarrow> r_dns_lookup_ctx \<Rightarrow> 'w sys \<Rightarrow> 'w sys" where
  "put_lookup l lk s = s\<lparr>lookups := (lookups s)(l := Some lk)\<rparr>"

definition free_refresh :: "nat \<Rightarrow> 'w sys \<Rightarrow> 'w sys" where
  "free_refresh r s = s\<lparr>refreshes := (refreshes s)(r := None)\<rparr>"

definition free_lookup :: "nat \<Rightarrow> 'w sys \<Rightarrow> 'w sys" where
  "free_lookup l s = s\<lparr>lookups := (lookups s)(l := None)\<rparr>"

subsection \<open>Refresh objects and their lookups\<close>

definition r_dns_refresh_add_endpoint ::
  "'w hooks \<Rightarrow> nat \<Rightarrow> r_addr \<Rightarrow> u64 \<Rightarrow> bool \<Rightarrow> 'w sys \<Rightarrow> (bool \<times> 'w sys) option" where
  "r_dns_refresh_add_endpoint hk r addr server_id has_id s = do {
     rf \<leftarrow> refreshes s r;
     let full = (length (endpoints rf) = endpoint_cap rf);
     let next_cap = (if endpoint_cap rf = 0 then 4 else endpoint_cap rf * 2);
     let (ok, s) = (if full then alloc hk s else (True, s));
     if \<not> ok then Some (False, s)
     else
       let entry = \<lparr>ep_addr = addr, ep_server_id = server_id, has_server_id = has_id\<rparr> in
       Some (True, put_refresh r
         (rf\<lparr>endpoint_cap := if full then next_cap else endpoint_cap rf,
             endpoints := endpoints rf @ [entry]\<rparr>) s) }"

fun r_dns_lookup_free_all :: "nat list \<Rightarrow> 'w sys \<Rightarrow> 'w sys option" where
  "r_dns_lookup_free_all [] s = Some s"
| "r_dns_lookup_free_all (l # ls) s = do {
     _ \<leftarrow> lookups s l;
     r_dns_lookup_free_all ls (free_lookup l s) }"

definition r_dns_lookup_link :: "nat \<Rightarrow> nat \<Rightarrow> 'w sys \<Rightarrow> 'w sys option" where
  "r_dns_lookup_link r l s = do {
     rf \<leftarrow> refreshes s r;
     _ \<leftarrow> lookups s l;
     Some (put_refresh r (rf\<lparr>rf_lookups := l # rf_lookups rf\<rparr>) s) }"

text \<open>The walk to the list element, which reads the \<open>next\<close> pointers before it.\<close>

fun r_unlink_walk :: "(nat \<Rightarrow> r_dns_lookup_ctx option) \<Rightarrow> nat \<Rightarrow> nat list \<Rightarrow> nat list option" where
  "r_unlink_walk store l [] = Some []"
| "r_unlink_walk store l (x # xs) =
    (if x = l then Some xs
     else do { _ \<leftarrow> store x; ys \<leftarrow> r_unlink_walk store l xs; Some (x # ys) })"

definition r_dns_lookup_unlink :: "nat \<Rightarrow> 'w sys \<Rightarrow> 'w sys option" where
  "r_dns_lookup_unlink l s = do {
     lk \<leftarrow> lookups s l;
     case lk_refresh lk of
       None \<Rightarrow> Some s
     | Some r \<Rightarrow> do {
         rf \<leftarrow> refreshes s r;
         ls \<leftarrow> r_unlink_walk (lookups s) l (rf_lookups rf);
         Some (put_refresh r (rf\<lparr>rf_lookups := ls\<rparr>) s) } }"

definition r_dns_refresh_free :: "nat \<Rightarrow> 'w sys \<Rightarrow> 'w sys option" where
  "r_dns_refresh_free r s = do {
     rf \<leftarrow> refreshes s r;
     s \<leftarrow> r_dns_lookup_free_all (rf_lookups rf) s;
     Some (free_refresh r s) }"

definition r_dns_refresh_finish :: "'w hooks \<Rightarrow> nat \<Rightarrow> 'w sys \<Rightarrow> 'w sys option" where
  "r_dns_refresh_finish hk r s = do {
     rf \<leftarrow> refreshes s r;
     if \<not> attached rf \<or> detached rf then r_dns_refresh_free r s
     else do {
       c \<leftarrow> client s;
       let (c, rf, s) = (if endpoints rf \<noteq> []
         then let (now, s) = r_now_ms hk s in
           (c\<lparr>servers := endpoints rf, last_dns_refresh_ms := now, dns_refresh_ttl_ms := min_ttl_ms rf\<rparr>,
            rf\<lparr>endpoints := [], endpoint_cap := 0\<rparr>, s)
         else (c, rf, s));
       let c = c\<lparr>dns_refresh_inflight := False\<rparr>;
       let c = (if dns_refresh c = Some r then c\<lparr>dns_refresh := None\<rparr> else c);
       r_dns_refresh_free r (put_client c (put_refresh r rf s)) } }"

text \<open>The argument is a pointer that may be null.\<close>

definition r_dns_refresh_maybe_complete :: "'w hooks \<Rightarrow> nat option \<Rightarrow> 'w sys \<Rightarrow> 'w sys option" where
  "r_dns_refresh_maybe_complete hk refresh s = (case refresh of
     None \<Rightarrow> Some s
   | Some r \<Rightarrow> do {
       rf \<leftarrow> refreshes s r;
       if pending rf \<noteq> 0 \<or> scheduling rf \<noteq> 0 then Some s
       else if detached rf \<or> \<not> attached rf then r_dns_refresh_free r s
       else r_dns_refresh_finish hk r s })"

definition r_dns_lookup_finish :: "'w hooks \<Rightarrow> nat \<Rightarrow> 'w sys \<Rightarrow> 'w sys option" where
  "r_dns_lookup_finish hk l s = do {
     lk \<leftarrow> lookups s l;
     let refresh = lk_refresh lk;
     let s = put_lookup l (lk\<lparr>completed := True\<rparr>) s;
     s \<leftarrow> (case refresh of
       None \<Rightarrow> Some s
     | Some r \<Rightarrow> do {
         rf \<leftarrow> refreshes s r;
         Some (if pending rf > 0 then put_refresh r (rf\<lparr>pending := pending rf - 1\<rparr>) s else s) });
     s \<leftarrow> (if \<not> in_resolver_call lk
       then do { s \<leftarrow> r_dns_lookup_unlink l s; Some (free_lookup l s) }
       else Some s);
     r_dns_refresh_maybe_complete hk refresh s }"

subsection \<open>Detaching\<close>

text \<open>
  The callbacks of a detached refresh only finish their lookup, so a cancellation that calls back
  is a call of \<^const>\<open>r_dns_lookup_finish\<close>.  The \<open>next\<close> pointer is read before the cancellation.
\<close>

fun r_dns_cancel_loop :: "'w hooks \<Rightarrow> (u64 \<Rightarrow> 'w \<Rightarrow> bool \<times> 'w) \<Rightarrow> nat list \<Rightarrow> 'w sys \<Rightarrow> 'w sys option" where
  "r_dns_cancel_loop hk cancel [] s = Some s"
| "r_dns_cancel_loop hk cancel (l # ls) s = do {
     lk \<leftarrow> lookups s l;
     s \<leftarrow> (case lk_req_id lk of
       Some rid \<Rightarrow>
         if completed lk then Some s
         else
           let (called, w) = cancel rid (world s);
               s = emit (Ev_Dns_Cancel rid) (s\<lparr>world := w\<rparr>) in
           if called then r_dns_lookup_finish hk l s else Some s
     | None \<Rightarrow> Some s);
     r_dns_cancel_loop hk cancel ls s }"

definition r_dns_refresh_cancel_lookups :: "'w hooks \<Rightarrow> nat \<Rightarrow> bool \<Rightarrow> 'w sys \<Rightarrow> 'w sys option" where
  "r_dns_refresh_cancel_lookups hk r has_client s = do {
     rf \<leftarrow> refreshes s r;
     case h_cancel hk of
       None \<Rightarrow> Some s
     | Some cancel \<Rightarrow>
         if \<not> has_client then Some s else r_dns_cancel_loop hk cancel (rf_lookups rf) s }"

definition r_dns_refresh_detach :: "'w hooks \<Rightarrow> nat \<Rightarrow> 'w sys \<Rightarrow> 'w sys option" where
  "r_dns_refresh_detach hk r s = do {
     rf \<leftarrow> refreshes s r;
     let has_client = attached rf;
     s \<leftarrow> (if has_client
       then do {
         c \<leftarrow> client s;
         let c = (if dns_refresh c = Some r then c\<lparr>dns_refresh := None\<rparr> else c);
         Some (put_client (c\<lparr>dns_refresh_inflight := False\<rparr>) s) }
       else Some s);
     let s = put_refresh r (rf\<lparr>detached := True, scheduling := scheduling rf + 1\<rparr>) s;
     s \<leftarrow> r_dns_refresh_cancel_lookups hk r has_client s;
     rf \<leftarrow> refreshes s r;
     let rf = (if scheduling rf > 0 then rf\<lparr>scheduling := scheduling rf - 1\<rparr> else rf);
     let s = put_refresh r (rf\<lparr>attached := False\<rparr>) s;
     r_dns_refresh_maybe_complete hk (Some r) s }"

subsection \<open>Scheduling lookups\<close>

text \<open>The object that both kinds of lookup allocate and link before they call the resolver.\<close>

definition r_dns_lookup_new :: "nat \<Rightarrow> u16 \<Rightarrow> u64 \<Rightarrow> bool \<Rightarrow> 'w sys \<Rightarrow> (nat \<times> 'w sys) option" where
  "r_dns_lookup_new r port server_id has_id s = do {
     let l = next_ptr s;
     let s = put_lookup l \<lparr>lk_refresh = Some r, lk_req_id = None, completed = False, in_resolver_call = True,
               lk_port = port, lk_server_id = server_id, lk_has_server_id = has_id\<rparr> (s\<lparr>next_ptr := l + 1\<rparr>);
     s \<leftarrow> r_dns_lookup_link r l s;
     rf \<leftarrow> refreshes s r;
     Some (l, put_refresh r (rf\<lparr>pending := pending rf + 1, scheduling := scheduling rf + 1\<rparr>) s) }"

text \<open>The code behind the resolver call, the same in both functions.\<close>

definition r_dns_resolver_returned ::
  "'w hooks \<Rightarrow> nat \<Rightarrow> nat \<Rightarrow> bool \<Rightarrow> u64 \<Rightarrow> 'w sys \<Rightarrow> (r_client_error \<times> 'w sys) option" where
  "r_dns_resolver_returned hk r l accepted req_id s = do {
     lk \<leftarrow> lookups s l;
     let lk = (if accepted \<and> \<not> completed lk \<and> req_id \<noteq> 0 then lk\<lparr>lk_req_id := Some req_id\<rparr> else lk);
     rf \<leftarrow> refreshes s r;
     let rf = (if \<not> accepted \<and> \<not> completed lk \<and> pending rf > 0 then rf\<lparr>pending := pending rf - 1\<rparr> else rf);
     let lk = (if \<not> accepted \<and> \<not> completed lk then lk\<lparr>completed := True\<rparr> else lk);
     let lk = lk\<lparr>in_resolver_call := False\<rparr>;
     let s = put_lookup l lk (put_refresh r rf s);
     s \<leftarrow> (if \<not> accepted \<or> completed lk
       then do { s \<leftarrow> r_dns_lookup_unlink l s; Some (free_lookup l s) }
       else Some s);
     rf \<leftarrow> refreshes s r;
     let s = (if scheduling rf > 0 then put_refresh r (rf\<lparr>scheduling := scheduling rf - 1\<rparr>) s else s);
     s \<leftarrow> r_dns_refresh_maybe_complete hk (Some r) s;
     Some (if accepted then RCLIENT_OK else RCLIENT_ERR_DNS, s) }"

fun r_dns_add_addrs :: "'w hooks \<Rightarrow> nat \<Rightarrow> nat \<Rightarrow> r_addr list \<Rightarrow> 'w sys \<Rightarrow> 'w sys option" where
  "r_dns_add_addrs hk r l [] s = Some s"
| "r_dns_add_addrs hk r l (a # as) s = do {
     lk \<leftarrow> lookups s l;
     a \<leftarrow> r_addr_set_port a (lk_port lk);
     (_, s) \<leftarrow> r_dns_refresh_add_endpoint hk r a (lk_server_id lk) (lk_has_server_id lk) s;
     r_dns_add_addrs hk r l as s }"

definition r_dns_addr_cb_fn :: "'w hooks \<Rightarrow> nat \<Rightarrow> bool \<Rightarrow> r_addr list \<Rightarrow> 'w sys \<Rightarrow> 'w sys option" where
  "r_dns_addr_cb_fn hk l status_ok addrs s = do {
     lk \<leftarrow> lookups s l;
     case lk_refresh lk of
       None \<Rightarrow> Some s
     | Some r \<Rightarrow> do {
         rf \<leftarrow> refreshes s r;
         s \<leftarrow> (if \<not> detached rf \<and> attached rf \<and> status_ok \<and> addrs \<noteq> []
           then r_dns_add_addrs hk r l addrs s else Some s);
         r_dns_lookup_finish hk l s } }"

definition r_dns_schedule_addr_lookup ::
  "'w hooks \<Rightarrow> nat \<Rightarrow> byte list option \<Rightarrow> u16 \<Rightarrow> u64 \<Rightarrow> bool \<Rightarrow> 'w sys \<Rightarrow> (r_client_error \<times> 'w sys) option" where
  "r_dns_schedule_addr_lookup hk r name port server_id has_id s = do {
     rf \<leftarrow> refreshes s r;
     case name of
       None \<Rightarrow> Some (RCLIENT_ERR_DNS, s)
     | Some nm \<Rightarrow>
       if detached rf then Some (RCLIENT_ERR_DNS, s)
       else
         let (ok, s) = alloc hk s in
         if \<not> ok then Some (RCLIENT_ERR_NOMEM, s)
         else do {
           (l, s) \<leftarrow> r_dns_lookup_new r port server_id has_id s;
           let ((accepted, req_id, sync), w) = h_resolve_addrs hk nm (world s);
           let s = emit (Ev_Resolve_Addrs nm) (s\<lparr>world := w\<rparr>);
           s \<leftarrow> (case sync of None \<Rightarrow> Some s | Some (ok, addrs) \<Rightarrow> r_dns_addr_cb_fn hk l ok addrs s);
           r_dns_resolver_returned hk r l accepted req_id s } }"

fun r_dns_schedule_targets ::
  "'w hooks \<Rightarrow> nat \<Rightarrow> r_srv_record list \<Rightarrow> u64 \<Rightarrow> 'w sys \<Rightarrow> (u64 \<times> 'w sys) option" where
  "r_dns_schedule_targets hk r [] mn s = Some (mn, s)"
| "r_dns_schedule_targets hk r (rec # recs) mn s =
    (case r_parse_server_id_from_target (srv_target rec) of
       None \<Rightarrow> r_dns_schedule_targets hk r recs mn s
     | Some server_id \<Rightarrow> do {
         let ttl = ucast (srv_ttl_ms rec);
         let mn = (if ttl > 0 \<and> (mn = 0 \<or> ttl < mn) then ttl else mn);
         (_, s) \<leftarrow> r_dns_schedule_addr_lookup hk r (srv_target rec) (srv_port rec) server_id True s;
         r_dns_schedule_targets hk r recs mn s })"

definition r_dns_srv_cb_fn :: "'w hooks \<Rightarrow> nat \<Rightarrow> bool \<Rightarrow> r_srv_record list \<Rightarrow> 'w sys \<Rightarrow> 'w sys option" where
  "r_dns_srv_cb_fn hk l status_ok records s = do {
     lk \<leftarrow> lookups s l;
     case lk_refresh lk of
       None \<Rightarrow> Some s
     | Some r \<Rightarrow> do {
         rf \<leftarrow> refreshes s r;
         if detached rf \<or> \<not> attached rf then r_dns_lookup_finish hk l s
         else do {
           _ \<leftarrow> client s;
           s \<leftarrow> (if status_ok \<and> records \<noteq> []
             then do {
               (mn, s) \<leftarrow> r_dns_schedule_targets hk r records 0 s;
               rf \<leftarrow> refreshes s r;
               Some (put_refresh r (rf\<lparr>min_ttl_ms := mn\<rparr>) s) }
             else Some s);
           r_dns_lookup_finish hk l s } } }"

definition r_dns_schedule_srv_lookup ::
  "'w hooks \<Rightarrow> nat \<Rightarrow> byte list \<Rightarrow> 'w sys \<Rightarrow> (r_client_error \<times> 'w sys) option" where
  "r_dns_schedule_srv_lookup hk r name s = do {
     rf \<leftarrow> refreshes s r;
     if detached rf then Some (RCLIENT_ERR_DNS, s)
     else
       let (ok, s) = alloc hk s in
       if \<not> ok then Some (RCLIENT_ERR_NOMEM, s)
       else do {
         (l, s) \<leftarrow> r_dns_lookup_new r 0 0 False s;
         let ((accepted, req_id, sync), w) = h_resolve_srv hk name (world s);
         let s = emit (Ev_Resolve_Srv name) (s\<lparr>world := w\<rparr>);
         s \<leftarrow> (case sync of None \<Rightarrow> Some s | Some (ok, records) \<Rightarrow> r_dns_srv_cb_fn hk l ok records s);
         r_dns_resolver_returned hk r l accepted req_id s } }"

subsection \<open>Starting a refresh\<close>

definition r_dns_abandon_refresh :: "nat \<Rightarrow> 'w sys \<Rightarrow> 'w sys option" where
  "r_dns_abandon_refresh r s = do {
     c \<leftarrow> client s;
     r_dns_refresh_free r (put_client (c\<lparr>dns_refresh_inflight := False, dns_refresh := None\<rparr>) s) }"

definition r_dns_start_refresh :: "'w hooks \<Rightarrow> 'w sys \<Rightarrow> (r_client_error \<times> 'w sys) option" where
  "r_dns_start_refresh hk s = do {
     c \<leftarrow> client s;
     if dns_refresh_inflight c then Some (RCLIENT_OK, s)
     else
       let (ok, s) = alloc hk s in
       if \<not> ok then Some (RCLIENT_ERR_NOMEM, s)
       else do {
         let r = next_ptr s;
         let s = put_refresh r \<lparr>attached = True, detached = False, pending = 0, scheduling = 0, rf_lookups = [],
                   endpoints = [], endpoint_cap = 0, min_ttl_ms = 0\<rparr> (s\<lparr>next_ptr := r + 1\<rparr>);
         let s = put_client (c\<lparr>dns_refresh_inflight := True, dns_refresh := Some r\<rparr>) s;
         let name = cstr ''_ratelimitly._udp.'' @ c_string (dns_name c);
         if length name \<ge> 512 then do {
           s \<leftarrow> r_dns_abandon_refresh r s;
           Some (RCLIENT_ERR_CONFIG, s) }
         else do {
           (rc, s) \<leftarrow> r_dns_schedule_srv_lookup hk r name s;
           if rc = RCLIENT_OK then Some (rc, s)
           else do {
             c \<leftarrow> client s;
             if dns_refresh c \<noteq> Some r then Some (rc, s)
             else do {
               rf \<leftarrow> refreshes s r;
               if pending rf = 0 \<and> scheduling rf = 0 then do {
                 s \<leftarrow> r_dns_abandon_refresh r s;
                 Some (rc, s) }
               else Some (rc, s) } } } } }"

definition r_dns_maybe_refresh :: "'w hooks \<Rightarrow> bool \<Rightarrow> 'w sys \<Rightarrow> (r_client_error \<times> 'w sys) option" where
  "r_dns_maybe_refresh hk force s = do {
     _ \<leftarrow> client s;
     let (now_ms, s) = r_now_ms hk s;
     c \<leftarrow> client s;
     let p = dns_policy c;
     let refresh_interval = (if refresh_interval_ms p = 0 then 300000 else refresh_interval_ms p);
     let refresh_interval = (if dns_refresh_ttl_ms c > 0 \<and> dns_refresh_ttl_ms c < refresh_interval
                             then dns_refresh_ttl_ms c else refresh_interval);
     if \<not> force then
       (if last_dns_refresh_ms c = 0 \<or> now_ms - last_dns_refresh_ms c \<ge> refresh_interval
        then r_dns_start_refresh hk s else Some (RCLIENT_OK, s))
     else do {
       let min_interval = (if forced_refresh_min_interval_ms p = 0 then 1000 else forced_refresh_min_interval_ms p);
       (min_interval, s) \<leftarrow> (if forced_refresh_jitter_ms p > 0
         then do { (v, s) \<leftarrow> r_rand_range hk (forced_refresh_jitter_ms p) s; Some (min_interval + v, s) }
         else Some (min_interval, s));
       if last_dns_refresh_ms c \<noteq> 0 \<and> now_ms - last_dns_refresh_ms c < min_interval
       then Some (RCLIENT_OK, s)
       else r_dns_start_refresh hk s } }"

subsection \<open>Facts: the heap invariant\<close>

lemmas store_defs = put_client_def put_refresh_def put_lookup_def free_refresh_def free_lookup_def emit_def

definition own :: "(nat \<Rightarrow> r_dns_lookup_ctx option) \<Rightarrow> nat \<Rightarrow> nat set" where
  "own L r = {l. \<exists>lk. L l = Some lk \<and> lk_refresh lk = Some r}"

definition unfinished :: "(nat \<Rightarrow> r_dns_lookup_ctx option) \<Rightarrow> nat \<Rightarrow> nat set" where
  "unfinished L r = {l. \<exists>lk. L l = Some lk \<and> lk_refresh lk = Some r \<and> \<not> completed lk}"

definition rf_ok :: "(nat \<Rightarrow> r_dns_lookup_ctx option) \<Rightarrow> nat \<Rightarrow> r_dns_refresh \<Rightarrow> bool" where
  "rf_ok L r rf \<longleftrightarrow> distinct (rf_lookups rf) \<and> set (rf_lookups rf) = own L r \<and> pending rf = card (unfinished L r)"

definition refreshes_ok :: "nat option \<Rightarrow> nat \<Rightarrow> 'w sys \<Rightarrow> bool" where
  "refreshes_ok cur k s \<longleftrightarrow> (\<forall>r rf. refreshes s r = Some rf \<longrightarrow> r < next_ptr s \<and> rf_ok (lookups s) r rf
     \<and> (attached rf \<longrightarrow> client s \<noteq> None)
     \<and> (if cur = Some r then scheduling rf = k else scheduling rf = 0 \<and> 0 < pending rf \<and> \<not> (attached rf \<and> detached rf)))"

definition lookups_ok :: "nat set \<Rightarrow> 'w sys \<Rightarrow> bool" where
  "lookups_ok I s \<longleftrightarrow> (\<forall>l lk. lookups s l = Some lk \<longrightarrow> l < next_ptr s
     \<and> (\<exists>r. lk_refresh lk = Some r \<and> refreshes s r \<noteq> None)
     \<and> in_resolver_call lk = (l \<in> I) \<and> (completed lk \<longrightarrow> l \<in> I))"

definition client_ok :: "'w sys \<Rightarrow> bool" where
  "client_ok s \<longleftrightarrow> (\<forall>c. client s = Some c \<longrightarrow> dns_refresh_inflight c = (dns_refresh c \<noteq> None)
     \<and> (\<forall>r. dns_refresh c = Some r \<longleftrightarrow> (\<exists>rf. refreshes s r = Some rf \<and> attached rf \<and> \<not> detached rf)))"

text \<open>
  The state between two steps of an operation that works on the refresh \<open>cur\<close>, whose scheduling
  counter is \<open>k\<close>, and that has not yet returned from the resolver calls of the lookups \<open>I\<close>.
\<close>

definition dns_mid :: "nat option \<Rightarrow> nat \<Rightarrow> nat set \<Rightarrow> 'w sys \<Rightarrow> bool" where
  "dns_mid cur k I s \<longleftrightarrow> refreshes_ok cur k s \<and> lookups_ok I s \<and> client_ok s
     \<and> (case cur of None \<Rightarrow> I = {} | Some r \<Rightarrow> refreshes s r \<noteq> None \<and> I \<subseteq> own (lookups s) r)"

definition dns_idle :: "'w sys \<Rightarrow> bool" where
  "dns_idle s \<longleftrightarrow> dns_mid None 0 {} s"

lemma finite_own: "rf_ok L r rf \<Longrightarrow> finite (own L r)" "rf_ok L r rf \<Longrightarrow> finite (unfinished L r)"
proof -
  assume "rf_ok L r rf"
  then show f: "finite (own L r)" unfolding rf_ok_def by (metis List.finite_set)
  have "unfinished L r \<subseteq> own L r" by (auto simp: own_def unfinished_def)
  then show "finite (unfinished L r)" using f finite_subset by blast
qed

lemma dns_mid_D:
  assumes "dns_mid cur k I s"
  shows "refreshes s r = Some rf \<Longrightarrow> r < next_ptr s"
    and "refreshes s r = Some rf \<Longrightarrow> rf_ok (lookups s) r rf"
    and "refreshes s r = Some rf \<Longrightarrow> attached rf \<Longrightarrow> \<exists>c. client s = Some c"
    and "lookups s l = Some lk \<Longrightarrow> l < next_ptr s"
    and "lookups s l = Some lk \<Longrightarrow> \<exists>r rf. lk_refresh lk = Some r \<and> refreshes s r = Some rf"
    and "lookups s l = Some lk \<Longrightarrow> in_resolver_call lk = (l \<in> I)"
    and "lookups s l = Some lk \<Longrightarrow> l \<notin> I \<Longrightarrow> \<not> completed lk"
proof -
  have R: "refreshes_ok cur k s" and L: "lookups_ok I s" using assms by (auto simp: dns_mid_def)
  show "refreshes s r = Some rf \<Longrightarrow> r < next_ptr s"
    "refreshes s r = Some rf \<Longrightarrow> rf_ok (lookups s) r rf"
    "refreshes s r = Some rf \<Longrightarrow> attached rf \<Longrightarrow> \<exists>c. client s = Some c"
    using R by (auto simp: refreshes_ok_def)
  have l: "l < next_ptr s \<and> (\<exists>r. lk_refresh lk = Some r \<and> refreshes s r \<noteq> None)
     \<and> in_resolver_call lk = (l \<in> I) \<and> (completed lk \<longrightarrow> l \<in> I)" if "lookups s l = Some lk"
    using L [unfolded lookups_ok_def, rule_format, OF that] by blast
  show "lookups s l = Some lk \<Longrightarrow> l < next_ptr s"
    "lookups s l = Some lk \<Longrightarrow> in_resolver_call lk = (l \<in> I)"
    "lookups s l = Some lk \<Longrightarrow> l \<notin> I \<Longrightarrow> \<not> completed lk" using l by simp_all
  show "lookups s l = Some lk \<Longrightarrow> \<exists>r rf. lk_refresh lk = Some r \<and> refreshes s r = Some rf"
    using l unfolding not_None_eq by blast
qed

lemma dns_mid_cur:
  assumes "dns_mid (Some r) k I s"
  shows "\<exists>rf. refreshes s r = Some rf \<and> scheduling rf = k"
    and "l \<in> I \<Longrightarrow> \<exists>lk. lookups s l = Some lk \<and> lk_refresh lk = Some r"
  using assms by (auto simp: dns_mid_def refreshes_ok_def own_def)

lemma dns_mid_start:
  assumes "dns_idle s" and "refreshes s r = Some rf"
  shows "dns_mid (Some r) 0 {} s" and "0 < pending rf" and "\<not> (attached rf \<and> detached rf)"
  using assms by (auto simp: dns_idle_def dns_mid_def refreshes_ok_def)

lemma dns_mid_stop:
  assumes "dns_mid (Some r) 0 {} s" and "refreshes s r = Some rf" and "0 < pending rf"
    and "\<not> (attached rf \<and> detached rf)"
  shows "dns_idle s"
proof -
  have R: "refreshes_ok (Some r) 0 s" using assms(1) by (simp add: dns_mid_def)
  have "refreshes_ok None 0 s" unfolding refreshes_ok_def
  proof (intro allI impI)
    fix r' rf' assume "refreshes s r' = Some rf'"
    from R [unfolded refreshes_ok_def, rule_format, OF this] this assms(2-)
    show "r' < next_ptr s \<and> rf_ok (lookups s) r' rf' \<and> (attached rf' \<longrightarrow> client s \<noteq> None)
        \<and> (if None = Some r' then scheduling rf' = 0 else scheduling rf' = 0 \<and> 0 < pending rf' \<and> \<not> (attached rf' \<and> detached rf'))"
      by (cases "r' = r") auto
  qed
  then show ?thesis using assms(1) by (simp add: dns_idle_def dns_mid_def)
qed

text \<open>The walk through the list finds the lookup, since all elements before it are live.\<close>

lemma r_unlink_walk_eq:
  "\<forall>x \<in> set xs. store x \<noteq> None \<Longrightarrow> r_unlink_walk store l xs = Some (remove1 l xs)"
  by (induction xs) auto

lemma r_dns_lookup_unlink_eq:
  assumes "lookups s l = Some lk" and "lk_refresh lk = Some r" and "refreshes s r = Some rf"
    and "\<forall>x \<in> set (rf_lookups rf). lookups s x \<noteq> None"
  shows "r_dns_lookup_unlink l s = Some (put_refresh r (rf\<lparr>rf_lookups := remove1 l (rf_lookups rf)\<rparr>) s)"
  using r_unlink_walk_eq [OF assms(4), of l] by (simp add: r_dns_lookup_unlink_def assms)

lemma r_dns_lookup_free_all_eq:
  assumes "distinct ls" and "\<forall>l \<in> set ls. lookups s l \<noteq> None"
  shows "r_dns_lookup_free_all ls s = Some (s\<lparr>lookups := (\<lambda>l. if l \<in> set ls then None else lookups s l)\<rparr>)"
  using assms
proof (induction ls arbitrary: s)
  case (Cons l ls)
  have "\<forall>l' \<in> set ls. lookups (free_lookup l s) l' \<noteq> None" using Cons.prems by (auto simp: free_lookup_def)
  from Cons.IH [OF _ this] show ?case using Cons.prems
    by (auto simp: free_lookup_def fun_eq_iff intro!: sys.equality)
qed (simp add: sys.equality)

lemma r_dns_refresh_free_eq:
  assumes "refreshes s r = Some rf" and "rf_ok (lookups s) r rf"
  shows "r_dns_refresh_free r s = Some (s\<lparr>refreshes := (refreshes s)(r := None),
      lookups := (\<lambda>l. if l \<in> own (lookups s) r then None else lookups s l)\<rparr>)"
proof -
  have "distinct (rf_lookups rf)" "\<forall>l \<in> set (rf_lookups rf). lookups s l \<noteq> None"
    using assms(2) by (auto simp: rf_ok_def own_def)
  from r_dns_lookup_free_all_eq [OF this] show ?thesis
    using assms by (simp add: r_dns_refresh_free_def free_refresh_def rf_ok_def)
qed

lemma own_upd:
  "(\<And>lk. L l = Some lk \<Longrightarrow> lk_refresh lk = Some r) \<Longrightarrow> (\<And>lk. x = Some lk \<Longrightarrow> lk_refresh lk = Some r) \<Longrightarrow> r' \<noteq> r
     \<Longrightarrow> own (L(l := x)) r' = own L r' \<and> unfinished (L(l := x)) r' = unfinished L r'"
  by (auto simp: own_def unfinished_def)

lemma own_fun_upd:
  "own (L(l := Some lk)) r = (if lk_refresh lk = Some r then insert l (own L r) else own L r - {l})"
  "own (L(l := None)) r = own L r - {l}"
  by (auto simp: own_def)

lemma unfinished_fun_upd:
  "unfinished (L(l := Some lk)) r =
    (if lk_refresh lk = Some r \<and> \<not> completed lk then insert l (unfinished L r) else unfinished L r - {l})"
  "unfinished (L(l := None)) r = unfinished L r - {l}"
  by (auto simp: unfinished_def)

text \<open>
  One step of an operation: it changes the refresh \<open>cur\<close> and one of its lookups.  What is left to
  show of a step is that the refresh still agrees with its lookups.
\<close>

lemma dns_mid_step:
  assumes "dns_mid (Some r) k I s" and "refreshes s r = Some rf"
    and upd: "refreshes s' = (refreshes s)(r := Some rf')" "lookups s' = (lookups s)(l := x)"
      "client s' = client s" "next_ptr s \<le> next_ptr s'" "l < next_ptr s'"
    and rf': "attached rf' = attached rf" "detached rf' = detached rf" "scheduling rf' = k'"
    and ok: "rf_ok (lookups s') r rf'"
    and old: "\<And>lk. lookups s l = Some lk \<Longrightarrow> lk_refresh lk = Some r"
    and new: "\<And>lk. x = Some lk \<Longrightarrow> lk_refresh lk = Some r \<and> in_resolver_call lk = (l \<in> I')
                 \<and> (completed lk \<longrightarrow> l \<in> I')"
    and I': "I' - {l} = I - {l}" "l \<in> I' \<Longrightarrow> x \<noteq> None"
  shows "dns_mid (Some r) k' I' s'"
proof -
  have R: "refreshes_ok (Some r) k s" and L: "lookups_ok I s" and C: "client_ok s"
    and J: "I \<subseteq> own (lookups s) r" using assms(1) by (auto simp: dns_mid_def)
  have oth: "rf_ok (lookups s') r1 rf1 = rf_ok (lookups s) r1 rf1" if "r1 \<noteq> r" for r1 rf1
    using own_upd [of "lookups s" l r x r1] old new that by (auto simp: rf_ok_def upd)
  have rn: "r < next_ptr s'" using dns_mid_D(1) [OF assms(1,2)] upd(4) by simp
  have ac: "attached rf \<longrightarrow> client s' \<noteq> None" using dns_mid_D(3) [OF assms(1,2)] upd(3) by auto
  have "refreshes_ok (Some r) k' s'" unfolding refreshes_ok_def
  proof (intro allI impI)
    fix r1 rf1 assume a: "refreshes s' r1 = Some rf1"
    show "r1 < next_ptr s' \<and> rf_ok (lookups s') r1 rf1 \<and> (attached rf1 \<longrightarrow> client s' \<noteq> None)
        \<and> (if Some r = Some r1 then scheduling rf1 = k' else scheduling rf1 = 0 \<and> 0 < pending rf1 \<and> \<not> (attached rf1 \<and> detached rf1))"
    proof (cases "r1 = r")
      case True
      then show ?thesis using a ok rn ac rf' by (simp add: upd)
    next
      case False
      then have "refreshes s r1 = Some rf1" using a by (simp add: upd)
      from R [unfolded refreshes_ok_def, rule_format, OF this] show ?thesis
        using False oth upd(3,4) by simp
    qed
  qed
  moreover have "lookups_ok I' s'" unfolding lookups_ok_def
  proof (intro allI impI)
    fix l1 lk assume a: "lookups s' l1 = Some lk"
    show "l1 < next_ptr s' \<and> (\<exists>r. lk_refresh lk = Some r \<and> refreshes s' r \<noteq> None)
        \<and> in_resolver_call lk = (l1 \<in> I') \<and> (completed lk \<longrightarrow> l1 \<in> I')"
    proof (cases "l1 = l")
      case True
      then show ?thesis using a new [of lk] upd by simp
    next
      case False
      then have "lookups s l1 = Some lk" using a by (simp add: upd)
      note b = L [unfolded lookups_ok_def, rule_format, OF this]
      have "l1 \<in> I' \<longleftrightarrow> l1 \<in> I" using I'(1) False by blast
      then show ?thesis using b upd(1,4) by auto
    qed
  qed
  moreover have "client_ok s'" unfolding client_ok_def upd(1,3)
  proof (intro allI impI)
    fix c assume "client s = Some c"
    from C [unfolded client_ok_def, rule_format, OF this]
    show "dns_refresh_inflight c = (dns_refresh c \<noteq> None) \<and> (\<forall>ra. dns_refresh c = Some ra \<longleftrightarrow>
        (\<exists>rfa. ((refreshes s)(r := Some rf')) ra = Some rfa \<and> attached rfa \<and> \<not> detached rfa))"
      using assms(2) rf' by auto
  qed
  moreover have "I' \<subseteq> own (lookups s') r"
  proof
    fix l1 assume a: "l1 \<in> I'"
    show "l1 \<in> own (lookups s') r"
    proof (cases "l1 = l")
      case True
      then obtain lk where "x = Some lk" using I'(2) a by auto
      then show ?thesis using new True by (simp add: own_def upd)
    next
      case False
      then have "l1 \<in> own (lookups s) r" using I'(1) a J by blast
      then show ?thesis using False by (simp add: own_def upd)
    qed
  qed
  ultimately show ?thesis by (simp add: dns_mid_def upd)
qed

text \<open>Freeing the refresh when all its lookups have completed.\<close>

lemma dns_idle_free:
  assumes "dns_mid (Some r) k {} s" and "refreshes s r = Some rf" and "own (lookups s) r = {}"
    and "attached rf \<and> \<not> detached rf \<Longrightarrow> client s \<noteq> None"
    and s': "refreshes s' = (refreshes s)(r := None)" "lookups s' = lookups s" "next_ptr s' = next_ptr s"
    and c': "(client s = None \<and> client s' = None) \<or> (\<exists>c c'. client s = Some c \<and> client s' = Some c'
       \<and> (if attached rf \<and> \<not> detached rf then \<not> dns_refresh_inflight c' \<and> dns_refresh c' = None
          else dns_refresh_inflight c' = dns_refresh_inflight c \<and> dns_refresh c' = dns_refresh c))"
  shows "dns_idle s'"
proof -
  have R: "refreshes_ok (Some r) k s" and L: "lookups_ok {} s" and C: "client_ok s"
    using assms(1) by (auto simp: dns_mid_def)
  have "refreshes_ok None 0 s'" unfolding refreshes_ok_def
  proof (intro allI impI)
    fix r1 rf1 assume "refreshes s' r1 = Some rf1"
    then have b: "r1 \<noteq> r" "refreshes s r1 = Some rf1" by (auto simp: s' split: if_splits)
    show "r1 < next_ptr s' \<and> rf_ok (lookups s') r1 rf1 \<and> (attached rf1 \<longrightarrow> client s' \<noteq> None)
        \<and> (if None = Some r1 then scheduling rf1 = 0 else scheduling rf1 = 0 \<and> 0 < pending rf1 \<and> \<not> (attached rf1 \<and> detached rf1))"
      using R [unfolded refreshes_ok_def, rule_format, OF b(2)] b(1) c' by (auto simp: s')
  qed
  moreover have "lookups_ok {} s'" unfolding lookups_ok_def
  proof (intro allI impI)
    fix l lk assume "lookups s' l = Some lk"
    then have a: "lookups s l = Some lk" by (simp add: s')
    then have "lk_refresh lk \<noteq> Some r" using assms(3) by (auto simp: own_def)
    then show "l < next_ptr s' \<and> (\<exists>r. lk_refresh lk = Some r \<and> refreshes s' r \<noteq> None)
        \<and> in_resolver_call lk = (l \<in> {}) \<and> (completed lk \<longrightarrow> l \<in> {})"
      using L [unfolded lookups_ok_def, rule_format, OF a] by (auto simp: s')
  qed
  moreover have "client_ok s'" unfolding client_ok_def s'
  proof (intro allI impI)
    fix c' assume "client s' = Some c'"
    then obtain c where c: "client s = Some c" and d: "if attached rf \<and> \<not> detached rf then \<not> dns_refresh_inflight c' \<and> dns_refresh c' = None
          else dns_refresh_inflight c' = dns_refresh_inflight c \<and> dns_refresh c' = dns_refresh c"
      using c' by auto
    note e = C [unfolded client_ok_def, rule_format, OF c]
    show "dns_refresh_inflight c' = (dns_refresh c' \<noteq> None) \<and> (\<forall>ra. dns_refresh c' = Some ra \<longleftrightarrow>
        (\<exists>rfa. ((refreshes s)(r := None)) ra = Some rfa \<and> attached rfa \<and> \<not> detached rfa))"
    proof (cases "attached rf \<and> \<not> detached rf")
      case True
      then have "dns_refresh c = Some r" using e assms(2) by blast
      then have "ra \<noteq> r \<Longrightarrow> \<not> (\<exists>rfa. refreshes s ra = Some rfa \<and> attached rfa \<and> \<not> detached rfa)" for ra
        using e by (metis option.inject)
      then show ?thesis using True d by auto
    next
      case False
      then show ?thesis using e d assms(2) by auto
    qed
  qed
  ultimately show ?thesis by (simp add: dns_idle_def dns_mid_def)
qed

subsection \<open>Facts: finishing\<close>

lemma own_unfinished:
  assumes "dns_mid cur k I s" and "own (lookups s) r \<inter> I = {}"
  shows "own (lookups s) r = unfinished (lookups s) r"
  using assms dns_mid_D(7) [OF assms(1)] by (auto simp: own_def unfinished_def)

lemma maybe_complete_busy:
  assumes "dns_mid (Some r) k I s" and "refreshes s r = Some rf" and "0 < pending rf \<or> 0 < k"
  shows "r_dns_refresh_maybe_complete hk (Some r) s = Some s"
  using assms dns_mid_cur(1) [OF assms(1)] by (auto simp: r_dns_refresh_maybe_complete_def)

lemma maybe_complete_done:
  assumes mid: "dns_mid (Some r) 0 {} s" and att: "\<And>rf. refreshes s r = Some rf \<Longrightarrow> \<not> (attached rf \<and> detached rf)"
  shows "\<exists>s'. r_dns_refresh_maybe_complete hk (Some r) s = Some s' \<and> dns_idle s'"
proof -
  obtain rf where rf: "refreshes s r = Some rf" "scheduling rf = 0" using dns_mid_cur [OF mid] by blast
  note ok = dns_mid_D(2) [OF mid rf(1)]
  show ?thesis
  proof (cases "pending rf = 0")
    case False
    then show ?thesis using maybe_complete_busy [OF mid rf(1)] dns_mid_stop [OF mid rf(1) _ att [OF rf(1)]] by simp
  next
    case True
    then have "unfinished (lookups s) r = {}" using ok finite_own(2) [OF ok] by (simp add: rf_ok_def)
    then have own: "own (lookups s) r = {}" using own_unfinished [OF mid] by simp
    note free = r_dns_refresh_free_eq [OF rf(1) ok]
    let ?f = "\<lambda>s. s\<lparr>refreshes := (refreshes s)(r := None)\<rparr>"
    show ?thesis
    proof (cases "detached rf \<or> \<not> attached rf")
      case d: True
      have "dns_idle (?f s)"
        by (rule dns_idle_free [OF mid rf(1) own]) (use d in \<open>simp_all, cases "client s", auto\<close>)
      then show ?thesis using rf True d free own by (simp add: r_dns_refresh_maybe_complete_def)
    next
      case ac: False
      then obtain c where c: "client s = Some c" using dns_mid_D(3) [OF mid rf(1)] by blast
      have dr: "dns_refresh c = Some r"
        using mid c rf(1) ac by (auto simp: dns_mid_def client_ok_def)
      obtain s1 c1 rf1 where f: "r_dns_refresh_finish hk r s =
          r_dns_refresh_free r (put_client c1 (put_refresh r rf1 s1))"
        and c1: "\<not> dns_refresh_inflight c1" "dns_refresh c1 = None"
        and rf1: "rf_lookups rf1 = rf_lookups rf" "pending rf1 = pending rf"
        and s1: "refreshes s1 = refreshes s" "lookups s1 = lookups s" "next_ptr s1 = next_ptr s"
      proof (cases "endpoints rf = []")
        case True
        show ?thesis
          by (rule that [of "c\<lparr>dns_refresh_inflight := False, dns_refresh := None\<rparr>" rf s])
            (use ac c rf dr True in \<open>simp_all add: r_dns_refresh_finish_def\<close>)
      next
        case False
        obtain now s1 where n: "r_now_ms hk s = (now, s1)" by fastforce
        have n1: "refreshes s1 = refreshes s" "lookups s1 = lookups s" "next_ptr s1 = next_ptr s"
          using n by (auto simp: r_now_ms_def emit_def split: option.splits prod.splits)
        show ?thesis
          by (rule that [of "c\<lparr>servers := endpoints rf, last_dns_refresh_ms := now,
                dns_refresh_ttl_ms := min_ttl_ms rf, dns_refresh_inflight := False, dns_refresh := None\<rparr>"
                "rf\<lparr>endpoints := [], endpoint_cap := 0\<rparr>" s1])
            (use ac c rf dr False n n1 in \<open>simp_all add: r_dns_refresh_finish_def\<close>)
      qed
      let ?t = "put_client c1 (put_refresh r rf1 s1)"
      have ok1: "refreshes ?t r = Some rf1" "rf_ok (lookups ?t) r rf1"
        using ok rf1 s1 by (simp_all add: store_defs rf_ok_def)
      have "r_dns_refresh_free r ?t = Some (?f ?t)"
        using r_dns_refresh_free_eq [OF ok1] own s1 by (simp add: store_defs)
      moreover have "dns_idle (?f ?t)"
        by (rule dns_idle_free [OF mid rf(1) own]) (use c c1 ac s1 in \<open>simp_all add: store_defs\<close>)
      ultimately show ?thesis using rf True ac f by (simp add: r_dns_refresh_maybe_complete_def)
    qed
  qed
qed

lemma lookup_finish_in_call:
  assumes "dns_mid (Some r) k I s" and "l \<in> I" and "lookups s l = Some lk" and "\<not> completed lk" and "0 < k"
    and "refreshes s r = Some rf"
    and "s' = put_refresh r (rf\<lparr>pending := pending rf - 1\<rparr>) (put_lookup l (lk\<lparr>completed := True\<rparr>) s)"
  shows "r_dns_lookup_finish hk l s = Some s' \<and> dns_mid (Some r) k I s'"
proof -
  have lr: "lk_refresh lk = Some r" using dns_mid_cur(2) [OF assms(1,2)] assms(3) by auto
  have call: "in_resolver_call lk" using dns_mid_D(6) [OF assms(1,3)] assms(2) by simp
  note ok = dns_mid_D(2) [OF assms(1,6)]
  have mem: "l \<in> unfinished (lookups s) r" using assms(3,4) lr by (simp add: unfinished_def)
  have fin: "finite (unfinished (lookups s) r)" using finite_own(2) [OF ok] .
  have pos: "0 < pending rf" using ok mem fin by (auto simp: rf_ok_def card_gt_0_iff)
  have sch: "scheduling rf = k" using dns_mid_cur(1) [OF assms(1)] assms(6) by simp
  have mid: "dns_mid (Some r) k I s'"
  proof (rule dns_mid_step [OF assms(1,6), where l = l and x = "Some (lk\<lparr>completed := True\<rparr>)"
        and rf' = "rf\<lparr>pending := pending rf - 1\<rparr>"])
    show "rf_ok (lookups s') r (rf\<lparr>pending := pending rf - 1\<rparr>)"
      using ok mem fin assms(3) lr
      by (auto simp: rf_ok_def assms(7) store_defs own_fun_upd unfinished_fun_upd own_def)
  qed (use assms lr call sch dns_mid_D(4) [OF assms(1,3)] in \<open>auto simp: store_defs\<close>)
  moreover have "r_dns_lookup_finish hk l s = r_dns_refresh_maybe_complete hk (Some r) s'"
    using assms(3,6,7) lr call pos by (simp add: r_dns_lookup_finish_def store_defs)
  ultimately show ?thesis
    using maybe_complete_busy [OF mid] assms(5,7) by (simp add: store_defs)
qed

lemma lookup_finish_async:
  assumes "dns_mid (Some r) k I s" and "l \<notin> I" and "lookups s l = Some lk" and "lk_refresh lk = Some r"
    and "refreshes s r = Some rf"
    and "s' = free_lookup l (put_refresh r (rf\<lparr>pending := pending rf - 1,
           rf_lookups := remove1 l (rf_lookups rf)\<rparr>) s)"
  shows "r_dns_lookup_finish hk l s = r_dns_refresh_maybe_complete hk (Some r) s' \<and> dns_mid (Some r) k I s'"
proof -
  have call: "\<not> in_resolver_call lk" using dns_mid_D(6) [OF assms(1,3)] assms(2) by simp
  have nc: "\<not> completed lk" using dns_mid_D(7) [OF assms(1,3,2)] .
  note ok = dns_mid_D(2) [OF assms(1,5)]
  have mem: "l \<in> unfinished (lookups s) r" using assms(3,4) nc by (simp add: unfinished_def)
  have fin: "finite (unfinished (lookups s) r)" using finite_own(2) [OF ok] .
  have pos: "0 < pending rf" using ok mem fin by (auto simp: rf_ok_def card_gt_0_iff)
  have sch: "scheduling rf = k" using dns_mid_cur(1) [OF assms(1)] assms(5) by simp
  let ?rf1 = "rf\<lparr>pending := pending rf - 1\<rparr>"
  let ?s1 = "put_refresh r ?rf1 (put_lookup l (lk\<lparr>completed := True\<rparr>) s)"
  have "r_dns_lookup_unlink l ?s1 = Some (put_refresh r (?rf1\<lparr>rf_lookups := remove1 l (rf_lookups ?rf1)\<rparr>) ?s1)"
    by (rule r_dns_lookup_unlink_eq [where lk = "lk\<lparr>completed := True\<rparr>"])
      (use ok assms(4) in \<open>auto simp: store_defs rf_ok_def own_def\<close>)
  then have "r_dns_lookup_finish hk l s = r_dns_refresh_maybe_complete hk (Some r) s'"
    using assms(3,4,5) call pos by (simp add: r_dns_lookup_finish_def store_defs assms(6))
  moreover have "dns_mid (Some r) k I s'"
  proof (rule dns_mid_step [OF assms(1,5), where l = l and x = None
        and rf' = "rf\<lparr>pending := pending rf - 1, rf_lookups := remove1 l (rf_lookups rf)\<rparr>"])
    show "rf_ok (lookups s') r (rf\<lparr>pending := pending rf - 1, rf_lookups := remove1 l (rf_lookups rf)\<rparr>)"
      using ok mem fin by (auto simp: rf_ok_def assms(6) store_defs own_fun_upd unfinished_fun_upd)
  qed (use assms sch dns_mid_D(4) [OF assms(1,3)] in \<open>auto simp: store_defs\<close>)
  ultimately show ?thesis by simp
qed

subsection \<open>Facts: scheduling\<close>

lemma dns_mid_world [simp]:
  "dns_mid cur k I (s\<lparr>world := w\<rparr>) = dns_mid cur k I s"
  "dns_mid cur k I (emit e s) = dns_mid cur k I s"
  "dns_mid cur k I (s\<lparr>trace := tr\<rparr>) = dns_mid cur k I s"
  by (cases cur; simp add: dns_mid_def refreshes_ok_def lookups_ok_def client_ok_def emit_def)+

lemma dns_idle_world [simp]:
  "dns_idle (s\<lparr>world := w\<rparr>) = dns_idle s" "dns_idle (emit e s) = dns_idle s"
  by (simp_all add: dns_idle_def)

lemma sys_hook_simps [simp]:
  "client (emit e s) = client s" "refreshes (emit e s) = refreshes s" "lookups (emit e s) = lookups s"
  "next_ptr (emit e s) = next_ptr s" "world (emit e s) = world s"
  by (simp_all add: emit_def)

text \<open>What an operation on the refresh \<open>r\<close> keeps: the lookups it found and the refresh's attachment.\<close>

definition keeps :: "nat \<Rightarrow> 'w sys \<Rightarrow> 'w sys \<Rightarrow> bool" where
  "keeps r s s' \<longleftrightarrow> next_ptr s \<le> next_ptr s' \<and> (\<forall>l < next_ptr s. lookups s' l = lookups s l)
     \<and> map_option (\<lambda>rf. (attached rf, detached rf)) (refreshes s' r)
       = map_option (\<lambda>rf. (attached rf, detached rf)) (refreshes s r)"

lemma keeps_refl [simp]: "keeps r s s"
  by (simp add: keeps_def)

lemma keeps_world [simp]: "keeps r s (s'\<lparr>world := w\<rparr>) = keeps r s s'" "keeps r s (emit e s') = keeps r s s'"
  "keeps r (s\<lparr>world := w\<rparr>) s' = keeps r s s'"
  by (simp_all add: keeps_def)

lemma keeps_trans: "keeps r s t \<Longrightarrow> keeps r t u \<Longrightarrow> keeps r s u"
  by (auto simp: keeps_def)

lemma lookup_new_ok:
  assumes "dns_mid (Some r) k I s" and "l = next_ptr s"
    and lk: "lk = \<lparr>lk_refresh = Some r, lk_req_id = None, completed = False, in_resolver_call = True,
      lk_port = port, lk_server_id = sid, lk_has_server_id = has\<rparr>"
  shows "\<exists>s'. r_dns_lookup_new r port sid has s = Some (l, s') \<and> dns_mid (Some r) (Suc k) (insert l I) s'
    \<and> l \<notin> I \<and> lookups s' l = Some lk \<and> keeps r s s' \<and> l < next_ptr s' \<and> client s' = client s"
proof -
  obtain rf where rf: "refreshes s r = Some rf" "scheduling rf = k" using dns_mid_cur [OF assms(1)] by blast
  note ok = dns_mid_D(2) [OF assms(1) rf(1)]
  have fresh: "lookups s l = None" using dns_mid_D(4) [OF assms(1), of l] assms(2) by (cases "lookups s l") auto
  then have nI: "l \<notin> I" using dns_mid_cur(2) [OF assms(1), of l] by auto
  let ?rf = "rf\<lparr>rf_lookups := l # rf_lookups rf, pending := pending rf + 1, scheduling := scheduling rf + 1\<rparr>"
  let ?s = "put_refresh r ?rf (put_lookup l lk (s\<lparr>next_ptr := l + 1\<rparr>))"
  have eq: "r_dns_lookup_new r port sid has s = Some (l, ?s)"
    using rf(1) assms(2) by (simp add: r_dns_lookup_new_def r_dns_lookup_link_def lk store_defs Let_def)
  have no: "l \<notin> own (lookups s) r" "l \<notin> unfinished (lookups s) r"
    using fresh by (simp_all add: own_def unfinished_def)
  have "dns_mid (Some r) (Suc k) (insert l I) ?s"
  proof (rule dns_mid_step [OF assms(1) rf(1), where l = l and x = "Some lk" and rf' = ?rf])
    show "rf_ok (lookups ?s) r ?rf"
      using ok no finite_own [OF ok] by (auto simp: rf_ok_def store_defs own_fun_upd unfinished_fun_upd lk)
  qed (use assms(2) rf(2) fresh in \<open>auto simp: store_defs lk\<close>)
  moreover have "keeps r s ?s" using assms(2) rf(1) by (simp add: keeps_def store_defs)
  ultimately show ?thesis using eq nI by (intro exI [of _ ?s]) (simp add: store_defs)
qed

lemma resolver_returned_ok:
  assumes "dns_mid (Some r) (Suc k) (insert l I) s" and "l \<notin> I"
  shows "\<exists>s1. r_dns_resolver_returned hk r l accepted rid s =
      (r_dns_refresh_maybe_complete hk (Some r) s1 \<bind>
        (\<lambda>s'. Some (if accepted then RCLIENT_OK else RCLIENT_ERR_DNS, s')))
    \<and> dns_mid (Some r) k I s1 \<and> next_ptr s1 = next_ptr s \<and> (\<forall>l'. l' \<noteq> l \<longrightarrow> lookups s1 l' = lookups s l')
    \<and> map_option (\<lambda>rf. (attached rf, detached rf)) (refreshes s1 r)
       = map_option (\<lambda>rf. (attached rf, detached rf)) (refreshes s r) \<and> client s1 = client s"
proof -
  obtain rf where rf: "refreshes s r = Some rf" "scheduling rf = Suc k" using dns_mid_cur [OF assms(1)] by blast
  obtain lk where lk: "lookups s l = Some lk" "lk_refresh lk = Some r" using dns_mid_cur(2) [OF assms(1), of l] by auto
  note ok = dns_mid_D(2) [OF assms(1) rf(1)]
  have fin: "finite (unfinished (lookups s) r)" using finite_own(2) [OF ok] .
  have ln: "l < next_ptr s" using dns_mid_D(4) [OF assms(1) lk(1)] .
  have live: "\<forall>x \<in> set (rf_lookups rf). lookups s x \<noteq> None" using ok by (auto simp: rf_ok_def own_def)
  let ?goal = "\<lambda>s1. r_dns_resolver_returned hk r l accepted rid s =
      (r_dns_refresh_maybe_complete hk (Some r) s1 \<bind>
        (\<lambda>s'. Some (if accepted then RCLIENT_OK else RCLIENT_ERR_DNS, s')))"
  show ?thesis
  proof (cases "accepted \<and> \<not> completed lk")
    case True
    let ?lk = "lk\<lparr>lk_req_id := if rid \<noteq> 0 then Some rid else lk_req_id lk, in_resolver_call := False\<rparr>"
    let ?rf = "rf\<lparr>scheduling := k\<rparr>"
    let ?s = "put_refresh r ?rf (put_lookup l ?lk s)"
    have "?goal ?s" using True lk(1) rf by (simp add: r_dns_resolver_returned_def store_defs Let_def)
    moreover have "dns_mid (Some r) k I ?s"
    proof (rule dns_mid_step [OF assms(1) rf(1), where l = l and x = "Some ?lk" and rf' = ?rf])
      have "l \<in> own (lookups s) r" "l \<in> unfinished (lookups s) r"
        using lk True by (simp_all add: own_def unfinished_def)
      then show "rf_ok (lookups ?s) r ?rf" using ok lk True
        by (simp add: rf_ok_def store_defs own_fun_upd unfinished_fun_upd insert_absorb)
    qed (use assms(2) ln lk True in \<open>auto simp: store_defs\<close>)
    ultimately show ?thesis using rf(1) by (intro exI [of _ ?s]) (simp add: store_defs)
  next
    case False
    let ?p = "if completed lk then pending rf else pending rf - 1"
    let ?rf = "rf\<lparr>pending := ?p, rf_lookups := remove1 l (rf_lookups rf), scheduling := k\<rparr>"
    let ?s = "put_refresh r ?rf (free_lookup l s)"
    let ?lk1 = "(if completed lk then lk else lk\<lparr>completed := True\<rparr>)\<lparr>in_resolver_call := False\<rparr>"
    let ?s1 = "put_lookup l ?lk1 (put_refresh r (rf\<lparr>pending := ?p\<rparr>) s)"
    have u: "r_dns_lookup_unlink l ?s1 = Some (put_refresh r
        (rf\<lparr>pending := ?p, rf_lookups := remove1 l (rf_lookups rf)\<rparr>) ?s1)"
      using r_dns_lookup_unlink_eq [of ?s1 l ?lk1 r "rf\<lparr>pending := ?p\<rparr>"] live lk by (auto simp: store_defs)
    have pos: "\<not> completed lk \<Longrightarrow> 0 < pending rf"
      using ok fin lk by (auto simp: rf_ok_def card_gt_0_iff unfinished_def)
    have "?goal ?s" using False lk(1) rf u pos
      by (cases "completed lk") (simp_all add: r_dns_resolver_returned_def store_defs Let_def)
    moreover have "dns_mid (Some r) k I ?s"
    proof (rule dns_mid_step [OF assms(1) rf(1), where l = l and x = None and rf' = ?rf])
      have "l \<in> unfinished (lookups s) r \<longleftrightarrow> \<not> completed lk" using lk by (simp add: unfinished_def)
      then show "rf_ok (lookups ?s) r ?rf" using ok lk fin
        by (auto simp: rf_ok_def store_defs own_fun_upd unfinished_fun_upd)
    qed (use assms(2) ln lk in \<open>auto simp: store_defs\<close>)
    ultimately show ?thesis using rf(1) by (intro exI [of _ ?s]) (simp add: store_defs)
  qed
qed

text \<open>A change of the refresh that leaves its lookups and counters alone.\<close>

lemma dns_mid_put_refresh:
  assumes "dns_mid cur k I s" and "refreshes s r = Some rf"
    and "(attached rf' \<and> \<not> detached rf') = (attached rf \<and> \<not> detached rf)" "attached rf' \<longrightarrow> attached rf"
    and "cur = Some r \<and> scheduling rf' = k' \<or> scheduling rf' = scheduling rf \<and> k' = k \<and> detached rf' = detached rf"
    and "pending rf' = pending rf" "rf_lookups rf' = rf_lookups rf"
  shows "dns_mid cur k' I (put_refresh r rf' s)"
proof -
  have R: "refreshes_ok cur k s" and L: "lookups_ok I s" and C: "client_ok s" using assms(1) by (auto simp: dns_mid_def)
  let ?s = "put_refresh r rf' s"
  have "refreshes_ok cur k' ?s" unfolding refreshes_ok_def
  proof (intro allI impI)
    fix r1 rf1 assume a: "refreshes ?s r1 = Some rf1"
    show "r1 < next_ptr ?s \<and> rf_ok (lookups ?s) r1 rf1 \<and> (attached rf1 \<longrightarrow> client ?s \<noteq> None)
        \<and> (if cur = Some r1 then scheduling rf1 = k' else scheduling rf1 = 0 \<and> 0 < pending rf1 \<and> \<not> (attached rf1 \<and> detached rf1))"
    proof (cases "r1 = r")
      case True
      then show ?thesis using a R [unfolded refreshes_ok_def, rule_format, OF assms(2)] assms(3-)
        by (cases "cur = Some r") (auto simp: store_defs rf_ok_def)
    next
      case False
      then show ?thesis using a R [unfolded refreshes_ok_def, rule_format, of r1 rf1] assms(5)
        by (auto simp: store_defs)
    qed
  qed
  moreover have "lookups_ok I ?s" unfolding lookups_ok_def
  proof (intro allI impI)
    fix l lk assume a: "lookups ?s l = Some lk"
    then have "lookups s l = Some lk" by (simp add: store_defs)
    from L [unfolded lookups_ok_def, rule_format, OF this]
    show "l < next_ptr ?s \<and> (\<exists>r. lk_refresh lk = Some r \<and> refreshes ?s r \<noteq> None)
        \<and> in_resolver_call lk = (l \<in> I) \<and> (completed lk \<longrightarrow> l \<in> I)" by (auto simp: store_defs)
  qed
  moreover have "client_ok ?s" unfolding client_ok_def
  proof (intro allI impI)
    fix c assume "client ?s = Some c"
    then have "client s = Some c" by (simp add: store_defs)
    from C [unfolded client_ok_def, rule_format, OF this]
    show "dns_refresh_inflight c = (dns_refresh c \<noteq> None)
       \<and> (\<forall>r1. dns_refresh c = Some r1 \<longleftrightarrow> (\<exists>rf. refreshes ?s r1 = Some rf \<and> attached rf \<and> \<not> detached rf))"
      using assms(2-4) by (auto simp: store_defs)
  qed
  ultimately show ?thesis
    using assms(1) by (auto simp: dns_mid_def store_defs split: option.splits)
qed

definition addr_ok :: "r_addr \<Rightarrow> bool" where
  "addr_ok a \<longleftrightarrow> 4 \<le> length (sa a)"

text \<open>The resolver hands out socket addresses that have room for a family and a port.\<close>

definition resolver_ok :: "'w hooks \<Rightarrow> bool" where
  "resolver_ok hk \<longleftrightarrow> (\<forall>nm w acc rid ok addrs w'. h_resolve_addrs hk nm w = ((acc, rid, Some (ok, addrs)), w')
     \<longrightarrow> list_all addr_ok addrs)"

lemma r_addr_set_port_total: "addr_ok a \<Longrightarrow> \<exists>a'. r_addr_set_port a p = Some a'"
  by (auto simp: r_addr_set_port_def addr_ok_def r_le16_eq wr_bytes_def)

definition same_att :: "nat \<Rightarrow> 'w sys \<Rightarrow> 'w sys \<Rightarrow> bool" where
  "same_att r s s' \<longleftrightarrow> map_option (\<lambda>rf. (attached rf, detached rf)) (refreshes s' r)
       = map_option (\<lambda>rf. (attached rf, detached rf)) (refreshes s r)"

lemma same_att_simps [simp]:
  "same_att r s s" "same_att r s (s'\<lparr>world := w\<rparr>) = same_att r s s'" "same_att r s (emit e s') = same_att r s s'"
  "same_att r (s\<lparr>world := w\<rparr>) s' = same_att r s s'" "same_att r (emit e s) s' = same_att r s s'"
  by (simp_all add: same_att_def)

lemma same_att_trans: "same_att r s t \<Longrightarrow> same_att r t u \<Longrightarrow> same_att r s u"
  by (simp add: same_att_def)

lemma alloc_upd: "alloc hk s = (ok, s') \<Longrightarrow> s' = s\<lparr>world := snd (h_alloc hk (world s))\<rparr>"
  by (simp add: alloc_def Let_def split: prod.splits)

lemma add_endpoint_ok:
  assumes "dns_mid cur k I s" and "refreshes s r = Some rf"
  shows "\<exists>ok s'. r_dns_refresh_add_endpoint hk r a sid has s = Some (ok, s') \<and> dns_mid cur k I s'
    \<and> lookups s' = lookups s \<and> next_ptr s' = next_ptr s \<and> client s' = client s \<and> same_att r s s'"
proof -
  obtain ok s1 where a: "(if length (endpoints rf) = endpoint_cap rf then alloc hk s else (True, s)) = (ok, s1)"
    by fastforce
  then obtain w where s1: "s1 = s\<lparr>world := w\<rparr>"
    using alloc_upd [of hk s ok s1] that [of "world s"] by (auto split: if_splits)
  let ?rf = "\<lambda>cap. rf\<lparr>endpoint_cap := cap,
      endpoints := endpoints rf @ [\<lparr>ep_addr = a, ep_server_id = sid, has_server_id = has\<rparr>]\<rparr>"
  have "dns_mid cur k I (put_refresh r (?rf cap) s1)" for cap
    using dns_mid_put_refresh [of cur k I s1 r rf "?rf cap" k] assms s1 by simp
  moreover have "same_att r s (put_refresh r (?rf cap) s1)" for cap
    using assms(2) s1 by (simp add: same_att_def store_defs)
  ultimately show ?thesis using assms a s1
    by (cases ok) (auto simp: r_dns_refresh_add_endpoint_def Let_def store_defs)
qed

lemma add_addrs_ok:
  assumes "dns_mid cur k I s" and "refreshes s r \<noteq> None" and "lookups s l = Some lk" and "list_all addr_ok as"
  shows "\<exists>s'. r_dns_add_addrs hk r l as s = Some s' \<and> dns_mid cur k I s'
    \<and> lookups s' = lookups s \<and> next_ptr s' = next_ptr s \<and> client s' = client s \<and> same_att r s s'"
  using assms
proof (induction "as" arbitrary: s)
  case (Cons a "as")
  obtain rf where rf: "refreshes s r = Some rf" using Cons.prems(2) by blast
  obtain a' where a': "r_addr_set_port a (lk_port lk) = Some a'"
    using r_addr_set_port_total [of a] Cons.prems(4) by auto
  obtain ok s1 where s1: "r_dns_refresh_add_endpoint hk r a' (lk_server_id lk) (lk_has_server_id lk) s = Some (ok, s1)"
    "dns_mid cur k I s1" "lookups s1 = lookups s" "next_ptr s1 = next_ptr s" "client s1 = client s" "same_att r s s1"
    using add_endpoint_ok [OF Cons.prems(1) rf] by blast
  have "refreshes s1 r \<noteq> None" using s1(6) rf by (auto simp: same_att_def)
  with Cons.IH [of s1] s1 Cons.prems obtain s' where "r_dns_add_addrs hk r l as s1 = Some s'" "dns_mid cur k I s'"
    "lookups s' = lookups s" "next_ptr s' = next_ptr s" "client s' = client s" "same_att r s1 s'" by auto
  then show ?case using s1 Cons.prems(3) a' same_att_trans [OF s1(6)] by simp
qed simp

lemma finish_in_call:
  assumes "dns_mid (Some r) k I s" and "l \<in> I" and "lookups s l = Some lk" and "\<not> completed lk" and "0 < k"
  shows "\<exists>s'. r_dns_lookup_finish hk l s = Some s' \<and> dns_mid (Some r) k I s'
    \<and> (\<forall>l'. l' \<noteq> l \<longrightarrow> lookups s' l' = lookups s l') \<and> next_ptr s' = next_ptr s \<and> client s' = client s \<and> same_att r s s'"
proof -
  obtain rf where rf: "refreshes s r = Some rf" using dns_mid_cur [OF assms(1)] by blast
  from lookup_finish_in_call [OF assms rf refl, of hk] show ?thesis
    using rf by (simp add: store_defs same_att_def)
qed

lemma addr_cb_in_call:
  assumes "dns_mid (Some r) k I s" and "l \<in> I" and "lookups s l = Some lk" and "\<not> completed lk" and "0 < k"
    and "list_all addr_ok as"
  shows "\<exists>s'. r_dns_addr_cb_fn hk l ok as s = Some s' \<and> dns_mid (Some r) k I s'
    \<and> (\<forall>l'. l' \<noteq> l \<longrightarrow> lookups s' l' = lookups s l') \<and> next_ptr s' = next_ptr s \<and> client s' = client s \<and> same_att r s s'"
proof -
  obtain rf where rf: "refreshes s r = Some rf" using dns_mid_cur [OF assms(1)] by blast
  have lr: "lk_refresh lk = Some r" using dns_mid_cur(2) [OF assms(1,2)] assms(3) by auto
  obtain s1 where s1: "r_dns_add_addrs hk r l as s = Some s1" "dns_mid (Some r) k I s1" "lookups s1 = lookups s"
    "next_ptr s1 = next_ptr s" "client s1 = client s" "same_att r s s1"
    using add_addrs_ok [OF assms(1) _ assms(3,6)] rf by blast
  have l1: "lookups s1 l = Some lk" using s1(3) assms(3) by simp
  from finish_in_call [OF s1(2) assms(2) l1 assms(4,5), of hk] finish_in_call [OF assms(1-5), of hk]
  show ?thesis using s1 assms(3) lr rf same_att_trans [OF s1(6)]
    by (cases "\<not> detached rf \<and> attached rf \<and> ok \<and> as \<noteq> []") (auto simp: r_dns_addr_cb_fn_def)
qed

definition stay :: "nat \<Rightarrow> nat \<Rightarrow> 'w sys \<Rightarrow> bool" where
  "stay r k s \<longleftrightarrow> 0 < k \<or> unfinished (lookups s) r \<noteq> {}"

lemma stay_pending:
  assumes "dns_mid (Some r) k I s" and "refreshes s r = Some rf" and "stay r k s"
  shows "0 < pending rf \<or> 0 < k"
  using assms dns_mid_D(2) [OF assms(1,2)] finite_own(2) [of "lookups s" r rf]
  by (auto simp: stay_def rf_ok_def card_gt_0_iff)

lemma stay_keeps: 
  assumes "dns_mid cur k0 I s" and "stay r k s" and "keeps r s s'"
  shows "stay r k s'"
proof (cases "0 < k")
  case False
  then obtain l lk where l: "lookups s l = Some lk" "lk_refresh lk = Some r" "\<not> completed lk"
    using assms(2) by (auto simp: stay_def unfinished_def)
  then have "lookups s' l = Some lk" using assms(3) dns_mid_D(4) [OF assms(1) l(1)] by (simp add: keeps_def)
  then show ?thesis using l by (auto simp: stay_def unfinished_def)
qed (simp add: stay_def)

text \<open>The part that both kinds of lookup share: allocate, call the resolver, look at its answer.\<close>

lemma schedule_ok:
  assumes "dns_mid (Some r) k I s" and "stay r k s"
    and cb: "\<And>l s1 lk. dns_mid (Some r) (Suc k) (insert l I) s1 \<Longrightarrow> lookups s1 l = Some lk \<Longrightarrow> \<not> completed lk
      \<Longrightarrow> l = next_ptr s \<Longrightarrow> keeps r s s1 \<Longrightarrow> client s1 = client s \<Longrightarrow>
      \<exists>s'. f l s1 = Some s' \<and> dns_mid (Some r) (Suc k) (insert l I) s' \<and> keeps r s s' \<and> client s' = client s"
  shows "\<exists>rc s'. (r_dns_lookup_new r port sid has s \<bind> (\<lambda>(l, s). f l s \<bind> r_dns_resolver_returned hk r l acc rid))
      = Some (rc, s') \<and> dns_mid (Some r) k I s' \<and> keeps r s s' \<and> client s' = client s"
proof -
  obtain s1 lk where s1: "r_dns_lookup_new r port sid has s = Some (next_ptr s, s1)"
    "dns_mid (Some r) (Suc k) (insert (next_ptr s) I) s1" "next_ptr s \<notin> I" "lookups s1 (next_ptr s) = Some lk"
    "\<not> completed lk" "keeps r s s1" "client s1 = client s"
    using lookup_new_ok [OF assms(1) refl refl] by fastforce
  obtain s2 where s2: "f (next_ptr s) s1 = Some s2" "dns_mid (Some r) (Suc k) (insert (next_ptr s) I) s2"
    "keeps r s s2" "client s2 = client s" using cb [OF s1(2,4,5) refl s1(6,7)] by blast
  obtain s3 where s3: "r_dns_resolver_returned hk r (next_ptr s) acc rid s2 =
      (r_dns_refresh_maybe_complete hk (Some r) s3 \<bind>
        (\<lambda>s'. Some (if acc then RCLIENT_OK else RCLIENT_ERR_DNS, s')))"
    "dns_mid (Some r) k I s3" "next_ptr s3 = next_ptr s2"
    "\<forall>l'. l' \<noteq> next_ptr s \<longrightarrow> lookups s3 l' = lookups s2 l'" "same_att r s2 s3" "client s3 = client s2"
    using resolver_returned_ok [OF s2(2) s1(3), of hk acc rid] unfolding same_att_def by blast
  have k3: "keeps r s s3" using s2(3) s3(3-5) by (auto simp: keeps_def same_att_def)
  obtain rf where "refreshes s3 r = Some rf" using dns_mid_cur [OF s3(2)] by blast
  then have "r_dns_refresh_maybe_complete hk (Some r) s3 = Some s3"
    using maybe_complete_busy [OF s3(2)] stay_pending [OF s3(2)] stay_keeps [OF assms(1,2) k3] by blast
  then show ?thesis using s1(1) s2 s3(1,2,6) k3 by simp
qed

lemma keeps_same_att: "keeps r s s' \<Longrightarrow> same_att r s s'"
  by (simp add: keeps_def same_att_def)

lemma keeps_step:
  "keeps r s s1 \<Longrightarrow> (\<forall>l'. l' \<noteq> l \<longrightarrow> lookups s2 l' = lookups s1 l') \<Longrightarrow> next_ptr s2 = next_ptr s1 \<Longrightarrow> same_att r s1 s2
     \<Longrightarrow> next_ptr s \<le> l \<Longrightarrow> keeps r s s2"
  by (auto simp: keeps_def same_att_def)

lemma schedule_addr_ok:
  assumes "dns_mid (Some r) k I s" and "stay r k s" and "resolver_ok hk"
  shows "\<exists>rc s'. r_dns_schedule_addr_lookup hk r name port sid has s = Some (rc, s')
    \<and> dns_mid (Some r) k I s' \<and> keeps r s s' \<and> client s' = client s"
proof -
  obtain rf where rf: "refreshes s r = Some rf" using dns_mid_cur [OF assms(1)] by blast
  obtain ok s0 where a: "alloc hk s = (ok, s0)" by fastforce
  then obtain w0 where s0: "s0 = s\<lparr>world := w0\<rparr>" using alloc_upd by blast
  show ?thesis
  proof (cases "name = None \<or> detached rf \<or> \<not> ok")
    case True
    then show ?thesis using assms(1) rf a s0
      by (cases name) (auto simp: r_dns_schedule_addr_lookup_def split: if_splits)
  next
    case False
    then obtain nm where nm: "name = Some nm" by (cases name) auto
    let ?f = "\<lambda>l s. let ((accepted, req_id, sync), w) = h_resolve_addrs hk nm (world s);
           s = emit (Ev_Resolve_Addrs nm) (s\<lparr>world := w\<rparr>)
       in (case sync of None \<Rightarrow> Some s | Some (ok, addrs) \<Rightarrow> r_dns_addr_cb_fn hk l ok addrs s)"
    let ?new = "r_dns_lookup_new r port sid has s0"
    have mid0: "dns_mid (Some r) k I s0" and st0: "stay r k s0" using assms(1,2) s0 by (simp_all add: stay_def)
    obtain l s1 where n: "?new = Some (l, s1)"
      using lookup_new_ok [OF mid0 refl refl] by blast
    obtain acc rid sync w where h: "h_resolve_addrs hk nm (world s1) = ((acc, rid, sync), w)"
      by (metis prod.exhaust)
    have eq: "r_dns_schedule_addr_lookup hk r name port sid has s =
      (?new \<bind> (\<lambda>(l, s). ?f l s \<bind> r_dns_resolver_returned hk r l acc rid))"
      using False nm rf a n h by (simp add: r_dns_schedule_addr_lookup_def Let_def)
    have "\<exists>rc s'. (?new \<bind> (\<lambda>(l, s). ?f l s \<bind> r_dns_resolver_returned hk r l acc rid)) = Some (rc, s')
        \<and> dns_mid (Some r) k I s' \<and> keeps r s0 s' \<and> client s' = client s0"
    proof (rule schedule_ok [OF mid0 st0])
      fix l s1 lk
      assume b: "dns_mid (Some r) (Suc k) (insert l I) s1" "lookups s1 l = Some lk" "\<not> completed lk"
        "l = next_ptr s0" "keeps r s0 s1" "client s1 = client s0"
      obtain acc rid sync w where h: "h_resolve_addrs hk nm (world s1) = ((acc, rid, sync), w)"
        by (metis prod.exhaust)
      let ?s2 = "emit (Ev_Resolve_Addrs nm) (s1\<lparr>world := w\<rparr>)"
      show "\<exists>s'. ?f l s1 = Some s' \<and> dns_mid (Some r) (Suc k) (insert l I) s' \<and> keeps r s0 s' \<and> client s' = client s0"
      proof (cases sync)
        case None
        then show ?thesis using h b by (simp add: Let_def)
      next
        case (Some p)
        obtain ok addrs where p: "p = (ok, addrs)" by (cases p)
        have "list_all addr_ok addrs" using assms(3) h Some p unfolding resolver_ok_def by blast
        then obtain s3 where s3: "r_dns_addr_cb_fn hk l ok addrs ?s2 = Some s3"
          "dns_mid (Some r) (Suc k) (insert l I) s3" "\<forall>l'. l' \<noteq> l \<longrightarrow> lookups s3 l' = lookups ?s2 l'"
          "next_ptr s3 = next_ptr ?s2" "client s3 = client ?s2" "same_att r ?s2 s3"
          using addr_cb_in_call [of r "Suc k" "insert l I" ?s2 l lk addrs hk ok] b by auto
        have "keeps r s0 s3" by (rule keeps_step [OF _ s3(3,4,6)]) (use b in simp_all)
        then show ?thesis using h Some p s3 b by (simp add: Let_def)
      qed
    qed
    then show ?thesis using eq s0 by simp
  qed
qed

lemma schedule_targets_ok:
  assumes "dns_mid (Some r) k I s" and "stay r k s" and "resolver_ok hk"
  shows "\<exists>mn' s'. r_dns_schedule_targets hk r recs mn s = Some (mn', s')
    \<and> dns_mid (Some r) k I s' \<and> keeps r s s' \<and> client s' = client s"
  using assms
proof (induction recs arbitrary: mn s)
  case (Cons rec recs)
  show ?case
  proof (cases "r_parse_server_id_from_target (srv_target rec)")
    case None
    then show ?thesis using Cons by simp
  next
    case (Some sid)
    obtain rc s1 where s1: "r_dns_schedule_addr_lookup hk r (srv_target rec) (srv_port rec) sid True s = Some (rc, s1)"
      "dns_mid (Some r) k I s1" "keeps r s s1" "client s1 = client s"
      using schedule_addr_ok [OF Cons.prems] by blast
    have "stay r k s1" using stay_keeps [OF Cons.prems(1,2) s1(3)] .
    from Cons.IH [OF s1(2) this Cons.prems(3)] obtain mn' s' where
      "r_dns_schedule_targets hk r recs (if ucast (srv_ttl_ms rec) > (0::u64) \<and> (mn = 0 \<or> ucast (srv_ttl_ms rec) < mn)
         then ucast (srv_ttl_ms rec) else mn) s1 = Some (mn', s')"
      "dns_mid (Some r) k I s'" "keeps r s1 s'" "client s' = client s1" by blast
    then show ?thesis using Some s1 keeps_trans [OF s1(3)] by (simp add: Let_def)
  qed
qed simp

lemma srv_targets_ok:
  assumes "dns_mid (Some r) k I s" and "stay r k s" and "resolver_ok hk"
  shows "\<exists>s'. (if ok \<and> records \<noteq> []
      then do { (mn, s) \<leftarrow> r_dns_schedule_targets hk r records 0 s;
                rf \<leftarrow> refreshes s r;
                Some (put_refresh r (rf\<lparr>min_ttl_ms := mn\<rparr>) s) }
      else Some s) = Some s' \<and> dns_mid (Some r) k I s' \<and> keeps r s s' \<and> client s' = client s"
proof -
  obtain mn s1 where s1: "r_dns_schedule_targets hk r records 0 s = Some (mn, s1)"
    "dns_mid (Some r) k I s1" "keeps r s s1" "client s1 = client s"
    using schedule_targets_ok [OF assms] by blast
  obtain rf where rf: "refreshes s1 r = Some rf" "scheduling rf = k" using dns_mid_cur [OF s1(2)] by blast
  let ?s = "put_refresh r (rf\<lparr>min_ttl_ms := mn\<rparr>) s1"
  have "dns_mid (Some r) k I ?s" using dns_mid_put_refresh [OF s1(2) rf(1), of "rf\<lparr>min_ttl_ms := mn\<rparr>" k] by simp
  moreover have "keeps r s ?s" using s1(3) rf(1) by (simp add: keeps_def store_defs)
  ultimately show ?thesis using assms(1) s1 rf by (simp add: store_defs)
qed

lemma srv_cb_in_call:
  assumes "dns_mid (Some r) k I s" and "l \<in> I" and "lookups s l = Some lk" and "\<not> completed lk" and "0 < k"
    and "resolver_ok hk"
  shows "\<exists>s'. r_dns_srv_cb_fn hk l ok records s = Some s' \<and> dns_mid (Some r) k I s' \<and> same_att r s s' \<and> client s' = client s"
proof -
  obtain rf where rf: "refreshes s r = Some rf" using dns_mid_cur [OF assms(1)] by blast
  have lr: "lk_refresh lk = Some r" using dns_mid_cur(2) [OF assms(1,2)] assms(3) by auto
  show ?thesis
  proof (cases "detached rf \<or> \<not> attached rf")
    case True
    from finish_in_call [OF assms(1-5), of hk] show ?thesis using True assms(3) lr rf
      by (auto simp: r_dns_srv_cb_fn_def)
  next
    case False
    then obtain c where c: "client s = Some c" using dns_mid_D(3) [OF assms(1) rf] by blast
    have "stay r k s" using assms(5) by (simp add: stay_def)
    note T = srv_targets_ok [OF assms(1) this assms(6), of ok records]
    obtain s1 where s1: "(if ok \<and> records \<noteq> []
      then do { (mn, s) \<leftarrow> r_dns_schedule_targets hk r records 0 s;
                rf \<leftarrow> refreshes s r;
                Some (put_refresh r (rf\<lparr>min_ttl_ms := mn\<rparr>) s) }
      else Some s) = Some s1" "dns_mid (Some r) k I s1" "keeps r s s1" "client s1 = client s" using T by blast
    have "lookups s1 l = Some lk" using s1(3) assms(3) dns_mid_D(4) [OF assms(1,3)] by (simp add: keeps_def)
    from finish_in_call [OF s1(2) assms(2) this assms(4,5), of hk] obtain s' where
      "r_dns_lookup_finish hk l s1 = Some s'" "dns_mid (Some r) k I s'" "client s' = client s1" "same_att r s1 s'" by blast
    then show ?thesis using False assms(3) lr rf c s1 same_att_trans [OF keeps_same_att [OF s1(3)]]
      by (simp add: r_dns_srv_cb_fn_def)
  qed
qed

lemma finish_async_idle:
  assumes "dns_mid (Some r) 0 {} s" and "lookups s l = Some lk" and "lk_refresh lk = Some r"
    and "\<And>rf. refreshes s r = Some rf \<Longrightarrow> \<not> (attached rf \<and> detached rf)"
  shows "\<exists>s'. r_dns_lookup_finish hk l s = Some s' \<and> dns_idle s'"
proof -
  obtain rf where rf: "refreshes s r = Some rf" using dns_mid_cur [OF assms(1)] by blast
  let ?s = "free_lookup l (put_refresh r (rf\<lparr>pending := pending rf - 1, rf_lookups := remove1 l (rf_lookups rf)\<rparr>) s)"
  from lookup_finish_async [OF assms(1) _ assms(2,3) rf refl, of hk]
  have f: "r_dns_lookup_finish hk l s = r_dns_refresh_maybe_complete hk (Some r) ?s" "dns_mid (Some r) 0 {} ?s" by auto
  from maybe_complete_done [OF f(2), of hk] show ?thesis
    using f(1) assms(4) [OF rf] by (simp add: store_defs)
qed

lemma addr_cb_async:
  assumes "dns_idle s" and "lookups s l = Some lk" and "list_all addr_ok as"
  shows "\<exists>s'. r_dns_addr_cb_fn hk l ok as s = Some s' \<and> dns_idle s'"
proof -
  obtain r rf where lr: "lk_refresh lk = Some r" and rf: "refreshes s r = Some rf"
    using dns_mid_D(5) [OF assms(1) [unfolded dns_idle_def] assms(2)] by blast
  note m = dns_mid_start [OF assms(1) rf]
  obtain s1 where s1: "r_dns_add_addrs hk r l as s = Some s1" "dns_mid (Some r) 0 {} s1" "lookups s1 = lookups s" "same_att r s s1"
    using add_addrs_ok [OF m(1) _ assms(2,3)] rf by blast
  have "refreshes s1 r = Some rf1 \<Longrightarrow> \<not> (attached rf1 \<and> detached rf1)" for rf1
    using s1(4) rf m(3) by (simp add: same_att_def)
  from finish_async_idle [OF s1(2) _ lr this, of l hk] finish_async_idle [OF m(1) assms(2) lr, of hk]
  show ?thesis using s1 assms(2) lr rf m(3)
    by (cases "\<not> detached rf \<and> attached rf \<and> ok \<and> as \<noteq> []") (auto simp: r_dns_addr_cb_fn_def)
qed

lemma srv_cb_async:
  assumes "dns_idle s" and "lookups s l = Some lk" and "resolver_ok hk"
  shows "\<exists>s'. r_dns_srv_cb_fn hk l ok records s = Some s' \<and> dns_idle s'"
proof -
  obtain r rf where lr: "lk_refresh lk = Some r" and rf: "refreshes s r = Some rf"
    using dns_mid_D(5) [OF assms(1) [unfolded dns_idle_def] assms(2)] by blast
  note m = dns_mid_start [OF assms(1) rf]
  show ?thesis
  proof (cases "detached rf \<or> \<not> attached rf")
    case True
    from finish_async_idle [OF m(1) assms(2) lr, of hk] show ?thesis using True assms(2) lr rf m(3)
      by (auto simp: r_dns_srv_cb_fn_def)
  next
    case False
    then obtain c where c: "client s = Some c" using dns_mid_D(3) [OF m(1) rf] by blast
    have "\<not> completed lk" using dns_mid_D(7) [OF m(1) assms(2)] by simp
    then have "l \<in> unfinished (lookups s) r" using assms(2) lr by (simp add: unfinished_def)
    then have "stay r 0 s" by (auto simp: stay_def)
    from srv_targets_ok [OF m(1) this assms(3), of ok records] obtain s1 where s1: "(if ok \<and> records \<noteq> []
      then do { (mn, s) \<leftarrow> r_dns_schedule_targets hk r records 0 s;
                rf \<leftarrow> refreshes s r;
                Some (put_refresh r (rf\<lparr>min_ttl_ms := mn\<rparr>) s) }
      else Some s) = Some s1" "dns_mid (Some r) 0 {} s1" "keeps r s s1" by blast
    have "lookups s1 l = Some lk" using s1(3) assms(2) dns_mid_D(4) [OF m(1) assms(2)] by (simp add: keeps_def)
    moreover have "refreshes s1 r = Some rf1 \<Longrightarrow> \<not> (attached rf1 \<and> detached rf1)" for rf1
      using keeps_same_att [OF s1(3)] rf m(3) by (simp add: same_att_def)
    ultimately show ?thesis using finish_async_idle [OF s1(2) _ lr, of l hk] False assms(2) lr rf c s1(1)
      by (simp add: r_dns_srv_cb_fn_def)
  qed
qed

subsection \<open>Facts: what the DNS operations leave alone\<close>

lemma bind_SomeE: "(m \<bind> f) = Some y \<Longrightarrow> (\<And>x. m = Some x \<Longrightarrow> f x = Some y \<Longrightarrow> P) \<Longrightarrow> P"
  by (cases m) auto

lemma sys_store_simps [simp]:
  "client (put_refresh r rf s) = client s" "client (put_lookup l lk s) = client s"
  "client (free_refresh r s) = client s" "client (free_lookup l s) = client s" "client (put_client c s) = Some c"
  by (simp_all add: store_defs)

definition dns_event :: "event \<Rightarrow> bool" where
  "dns_event e = (case e of Ev_Now _ \<Rightarrow> True | Ev_Resolve_Srv _ \<Rightarrow> True | Ev_Resolve_Addrs _ \<Rightarrow> True
     | Ev_Dns_Cancel _ \<Rightarrow> True | _ \<Rightarrow> False)"

definition dns_only :: "r_client \<Rightarrow> r_client \<Rightarrow> bool" where
  "dns_only c c' \<longleftrightarrow> c' = c\<lparr>servers := servers c', last_dns_refresh_ms := last_dns_refresh_ms c',
     dns_refresh_ttl_ms := dns_refresh_ttl_ms c', dns_refresh_inflight := dns_refresh_inflight c',
     dns_refresh := dns_refresh c'\<rparr>"

definition dns_frame :: "'w sys \<Rightarrow> 'w sys \<Rightarrow> bool" where
  "dns_frame s s' \<longleftrightarrow> rel_option dns_only (client s) (client s') \<and> next_ptr s \<le> next_ptr s'
     \<and> (\<exists>evs. trace s' = trace s @ evs \<and> list_all dns_event evs)"

lemma dns_only_refl [simp]: "dns_only c c"
  by (simp add: dns_only_def)

lemma dns_only_trans: "dns_only a b \<Longrightarrow> dns_only b c \<Longrightarrow> dns_only a c"
  by (cases a, cases b, cases c) (simp add: dns_only_def)

lemma dns_frame_refl [simp]: "dns_frame s s"
  by (simp add: dns_frame_def option.rel_refl)

lemma dns_frame_trans [trans]: "dns_frame s t \<Longrightarrow> dns_frame t u \<Longrightarrow> dns_frame s u"
proof -
  assume a: "dns_frame s t" "dns_frame t u"
  then have "rel_option dns_only (client s) (client u)"
    by (auto simp: dns_frame_def option.rel_sel intro: dns_only_trans)
  moreover obtain e1 e2 where "trace t = trace s @ e1" "trace u = trace t @ e2" "list_all dns_event e1" "list_all dns_event e2"
    using a by (auto simp: dns_frame_def)
  ultimately show ?thesis using a by (auto simp: dns_frame_def)
qed

lemma dns_frame_store [simp]:
  "dns_frame s (put_refresh r rf s') = dns_frame s s'" "dns_frame s (put_lookup l lk s') = dns_frame s s'"
  "dns_frame s (free_refresh r s') = dns_frame s s'" "dns_frame s (free_lookup l s') = dns_frame s s'"
  "dns_frame s (s'\<lparr>world := w\<rparr>) = dns_frame s s'"
  by (simp_all add: dns_frame_def store_defs)

lemma dns_frame_emit: "dns_frame s s' \<Longrightarrow> dns_event e \<Longrightarrow> dns_frame s (emit e s')"
  by (auto simp: dns_frame_def store_defs)

lemma dns_frame_next: "dns_frame s s' \<Longrightarrow> dns_frame s (s'\<lparr>next_ptr := next_ptr s' + n\<rparr>)"
  by (simp add: dns_frame_def)

lemma dns_frame_client: "dns_frame s s' \<Longrightarrow> client s' = Some c \<Longrightarrow> dns_only c c' \<Longrightarrow> dns_frame s (put_client c' s')"
  by (auto simp: dns_frame_def store_defs option.rel_sel intro: dns_only_trans)

lemma dns_frame_Some:
  "dns_frame s s' \<Longrightarrow> client s = Some c \<Longrightarrow> \<exists>c'. client s' = Some c' \<and> dns_only c c'"
  by (auto simp: dns_frame_def elim: option.rel_cases)

lemma now_frame: "r_now_ms hk s = (t, s') \<Longrightarrow> dns_frame s s'"
  by (auto simp: r_now_ms_def dns_event_def split: option.splits prod.splits intro!: dns_frame_emit)

lemma now_state: "r_now_ms hk s = (t, s') \<Longrightarrow> \<exists>w tr. s' = s\<lparr>world := w, trace := tr\<rparr>"
  by (cases "h_now_ms hk") (auto simp: r_now_ms_def emit_def split: prod.splits,
      metis sys.surjective sys.update_convs(5,6))

lemma alloc_dns_frame: "alloc hk s = (ok, s') \<Longrightarrow> dns_frame s s'"
  using alloc_upd by fastforce

lemma free_all_frame: "r_dns_lookup_free_all ls s = Some s' \<Longrightarrow> dns_frame s s'"
proof (induction ls arbitrary: s)
  case (Cons l ls)
  then obtain "dns_frame (free_lookup l s) s'" by (auto simp: bind_eq_Some_conv)
  moreover have "dns_frame s (free_lookup l s)" by simp
  ultimately show ?case using dns_frame_trans by blast
qed simp

lemma unlink_frame: "r_dns_lookup_unlink l s = Some s' \<Longrightarrow> dns_frame s s'"
  by (auto simp: r_dns_lookup_unlink_def bind_eq_Some_conv split: option.splits)

lemma link_frame: "r_dns_lookup_link r l s = Some s' \<Longrightarrow> dns_frame s s'"
  by (auto simp: r_dns_lookup_link_def bind_eq_Some_conv)

lemma refresh_free_frame: "r_dns_refresh_free r s = Some s' \<Longrightarrow> dns_frame s s'"
  by (auto simp: r_dns_refresh_free_def bind_eq_Some_conv dest: free_all_frame)

lemma finish_frame: 
  assumes "r_dns_refresh_finish hk r s = Some s'" shows "dns_frame s s'"
proof -
  obtain rf where rf: "refreshes s r = Some rf" using assms by (auto simp: r_dns_refresh_finish_def bind_eq_Some_conv)
  show ?thesis
  proof (cases "\<not> attached rf \<or> detached rf")
    case True
    then show ?thesis using assms rf by (auto simp: r_dns_refresh_finish_def dest: refresh_free_frame)
  next
    case False
    obtain c where c: "client s = Some c" using assms rf False by (auto simp: r_dns_refresh_finish_def bind_eq_Some_conv)
    obtain t s1 where n: "r_now_ms hk s = (t, s1)" by fastforce
    obtain c1 rf1 s2 where x: "r_dns_refresh_free r (put_client c1 (put_refresh r rf1 s2)) = Some s'"
      "dns_only c c1" "s2 = s \<or> s2 = s1"
      using assms rf False c n
      by (cases "endpoints rf = []"; cases "dns_refresh c = Some r")
        (auto simp: r_dns_refresh_finish_def dns_only_def Let_def)
    have "client s1 = Some c" using now_state [OF n] c by auto
    then have s2: "client s2 = Some c" "dns_frame s s2" using x(3) c now_frame [OF n] by auto
    have "dns_frame s (put_client c1 (put_refresh r rf1 s2))"
      by (rule dns_frame_client [OF _ _ x(2)]) (use s2 in simp_all)
    then show ?thesis using refresh_free_frame [OF x(1)] dns_frame_trans by blast
  qed
qed

lemma maybe_complete_frame: "r_dns_refresh_maybe_complete hk r s = Some s' \<Longrightarrow> dns_frame s s'"
  by (auto simp: r_dns_refresh_maybe_complete_def bind_eq_Some_conv split: option.splits if_splits
      dest: refresh_free_frame finish_frame)

lemma lookup_finish_frame:
  assumes "r_dns_lookup_finish hk l s = Some s'" shows "dns_frame s s'"
proof -
  obtain lk s1 s2 where
    s1: "(case lk_refresh lk of None \<Rightarrow> Some (put_lookup l (lk\<lparr>completed := True\<rparr>) s)
     | Some r \<Rightarrow> do {
         rf \<leftarrow> refreshes (put_lookup l (lk\<lparr>completed := True\<rparr>) s) r;
         Some (if pending rf > 0 then put_refresh r (rf\<lparr>pending := pending rf - 1\<rparr>) (put_lookup l (lk\<lparr>completed := True\<rparr>) s)
               else put_lookup l (lk\<lparr>completed := True\<rparr>) s) }) = Some s1"
    and s2: "(if \<not> in_resolver_call lk
       then do { s \<leftarrow> r_dns_lookup_unlink l s1; Some (free_lookup l s) } else Some s1) = Some s2"
    and s3: "r_dns_refresh_maybe_complete hk (lk_refresh lk) s2 = Some s'"
    using assms unfolding r_dns_lookup_finish_def Let_def by (elim bind_SomeE) (rule that)
  have "dns_frame s s1" using s1 by (cases "lk_refresh lk") (auto simp: bind_eq_Some_conv)
  moreover have "dns_frame s1 s2"
    using s2 by (cases "in_resolver_call lk") (auto simp: bind_eq_Some_conv dest: unlink_frame)
  ultimately show ?thesis using maybe_complete_frame [OF s3] dns_frame_trans by blast
qed

lemma cancel_loop_frame: "r_dns_cancel_loop hk f ls s = Some s' \<Longrightarrow> dns_frame s s'"
proof (induction ls arbitrary: s)
  case (Cons l ls)
  then obtain s1 where s1: "r_dns_cancel_loop hk f ls s1 = Some s'" "dns_frame s s1"
  proof -
    obtain lk where lk: "lookups s l = Some lk" using Cons.prems by (auto simp: bind_eq_Some_conv)
    have e: "dns_frame s (emit (Ev_Dns_Cancel i) (s\<lparr>world := w\<rparr>))" for i w
      by (rule dns_frame_emit) (simp_all add: dns_event_def)
    show ?thesis using Cons.prems lk that e
      by (auto simp: bind_eq_Some_conv Let_def split: option.splits if_splits prod.splits
          dest!: lookup_finish_frame intro: dns_frame_trans)
  qed
  then show ?case using Cons.IH dns_frame_trans by blast
qed simp

lemma detach_frame:
  assumes "r_dns_refresh_detach hk r s = Some s'" shows "dns_frame s s'"
proof -
  obtain rf s1 s2 rf2 where
    s1: "(if attached rf then do {
         c \<leftarrow> client s;
         Some (put_client ((if dns_refresh c = Some r then c\<lparr>dns_refresh := None\<rparr> else c)\<lparr>dns_refresh_inflight := False\<rparr>) s) }
       else Some s) = Some s1"
    and s2: "r_dns_refresh_cancel_lookups hk r (attached rf)
        (put_refresh r (rf\<lparr>detached := True, scheduling := scheduling rf + 1\<rparr>) s1) = Some s2"
    and s3: "r_dns_refresh_maybe_complete hk (Some r) (put_refresh r ((if scheduling rf2 > 0
        then rf2\<lparr>scheduling := scheduling rf2 - 1\<rparr> else rf2)\<lparr>attached := False\<rparr>) s2) = Some s'"
    using assms unfolding r_dns_refresh_detach_def Let_def by (elim bind_SomeE) (rule that)
  have f1: "dns_frame s s1"
  proof (cases "attached rf")
    case True
    then obtain c where "client s = Some c" using s1 by (auto simp: bind_eq_Some_conv)
    then show ?thesis using s1 True by (auto intro!: dns_frame_client [where s' = s] simp: dns_only_def)
  qed (use s1 in simp)
  have "dns_frame (put_refresh r (rf\<lparr>detached := True, scheduling := scheduling rf + 1\<rparr>) s1) s2"
    using s2 by (auto simp: r_dns_refresh_cancel_lookups_def bind_eq_Some_conv split: option.splits if_splits
        dest: cancel_loop_frame)
  then have "dns_frame s1 s2" using dns_frame_store(1) dns_frame_refl dns_frame_trans by blast
  moreover have "dns_frame s2 s'" using maybe_complete_frame [OF s3] dns_frame_store(1) dns_frame_refl dns_frame_trans by blast
  ultimately show ?thesis using f1 dns_frame_trans by blast
qed

lemma lookup_new_frame: "r_dns_lookup_new r port sid has s = Some (l, s') \<Longrightarrow> dns_frame s s'"
proof -
  assume "r_dns_lookup_new r port sid has s = Some (l, s')"
  then obtain s1 lk where "r_dns_lookup_link r (next_ptr s) (put_lookup (next_ptr s) lk (s\<lparr>next_ptr := next_ptr s + 1\<rparr>)) = Some s1"
    "dns_frame s1 s'" unfolding r_dns_lookup_new_def Let_def by (elim bind_SomeE) (use that in fastforce)
  then show ?thesis using link_frame dns_frame_next [OF dns_frame_refl, of s 1] dns_frame_store(2) dns_frame_trans by blast
qed

lemma resolver_returned_frame:
  assumes "r_dns_resolver_returned hk r l acc rid s = Some (rc, s')" shows "dns_frame s s'"
proof -
  obtain lk1 rf1 s1 rf s2 b where s1: "(if b then do { s \<leftarrow> r_dns_lookup_unlink l (put_lookup l lk1 (put_refresh r rf1 s)); Some (free_lookup l s) }
       else Some (put_lookup l lk1 (put_refresh r rf1 s))) = Some s1"
    and s2: "r_dns_refresh_maybe_complete hk (Some r)
       (if scheduling rf > 0 then put_refresh r (rf\<lparr>scheduling := scheduling rf - 1\<rparr>) s1 else s1) = Some s2" "s2 = s'"
    using assms unfolding r_dns_resolver_returned_def Let_def by (elim bind_SomeE) (rule that, assumption+, simp)
  have "dns_frame (put_lookup l lk1 (put_refresh r rf1 s)) s1"
    using s1 by (cases b) (auto simp: bind_eq_Some_conv dest: unlink_frame)
  then have "dns_frame s s1" using dns_frame_trans dns_frame_store(1,2) dns_frame_refl by blast
  moreover have "dns_frame s1 (if scheduling rf > 0 then put_refresh r (rf\<lparr>scheduling := scheduling rf - 1\<rparr>) s1 else s1)"
    by simp
  then have "dns_frame s1 s'" using maybe_complete_frame [OF s2(1)] s2(2) dns_frame_trans by blast
  ultimately show ?thesis using dns_frame_trans by blast
qed

lemma add_endpoint_frame:
  assumes "r_dns_refresh_add_endpoint hk r a sid has s = Some (ok, s')" shows "dns_frame s s'"
proof -
  obtain rf where rf: "refreshes s r = Some rf" using assms by (auto simp: r_dns_refresh_add_endpoint_def bind_eq_Some_conv)
  obtain ok1 s1 where a: "(if length (endpoints rf) = endpoint_cap rf then alloc hk s else (True, s)) = (ok1, s1)"
    by fastforce
  have "dns_frame s s1" using a alloc_dns_frame by (cases "length (endpoints rf) = endpoint_cap rf") auto
  then show ?thesis using assms rf a by (cases ok1) (auto simp: r_dns_refresh_add_endpoint_def Let_def)
qed

lemma add_addrs_frame: "r_dns_add_addrs hk r l as s = Some s' \<Longrightarrow> dns_frame s s'"
proof (induction "as" arbitrary: s)
  case (Cons a "as")
  then obtain s1 where "dns_frame s s1" "r_dns_add_addrs hk r l as s1 = Some s'"
    by (auto simp: bind_eq_Some_conv dest: add_endpoint_frame)
  then show ?case using Cons.IH dns_frame_trans by blast
qed simp

lemma addr_cb_frame:
  assumes "r_dns_addr_cb_fn hk l ok as s = Some s'" shows "dns_frame s s'"
proof -
  obtain lk where lk: "lookups s l = Some lk" using assms by (auto simp: r_dns_addr_cb_fn_def bind_eq_Some_conv)
  show ?thesis
  proof (cases "lk_refresh lk")
    case (Some r)
    then obtain s1 where "dns_frame s s1" "r_dns_lookup_finish hk l s1 = Some s'"
      using assms lk that [OF dns_frame_refl]
      by (auto simp: r_dns_addr_cb_fn_def bind_eq_Some_conv split: if_splits dest: add_addrs_frame)
    then show ?thesis using lookup_finish_frame dns_frame_trans by blast
  qed (use assms lk in \<open>simp add: r_dns_addr_cb_fn_def\<close>)
qed

lemma emit_world_frame: "dns_event e \<Longrightarrow> dns_frame s (emit e (s\<lparr>world := w\<rparr>))"
  by (rule dns_frame_emit) simp_all

lemma schedule_addr_frame:
  assumes "r_dns_schedule_addr_lookup hk r name port sid has s = Some (rc, s')" shows "dns_frame s s'"
proof -
  obtain ok s0 where a: "alloc hk s = (ok, s0)" by fastforce
  obtain rf where rf: "refreshes s r = Some rf" using assms by (auto simp: r_dns_schedule_addr_lookup_def bind_eq_Some_conv)
  show ?thesis
  proof (cases "name = None \<or> detached rf \<or> \<not> ok")
    case True
    then show ?thesis using assms rf a alloc_dns_frame [OF a]
      by (cases name) (auto simp: r_dns_schedule_addr_lookup_def split: if_splits)
  next
    case False
    then obtain nm where nm: "name = Some nm" by (cases name) auto
    obtain l s1 where s1: "r_dns_lookup_new r port sid has s0 = Some (l, s1)"
      using assms False rf a nm by (auto simp: r_dns_schedule_addr_lookup_def bind_eq_Some_conv)
    obtain acc rid sync w where h: "h_resolve_addrs hk nm (world s1) = ((acc, rid, sync), w)" by (metis prod.exhaust)
    let ?s2 = "emit (Ev_Resolve_Addrs nm) (s1\<lparr>world := w\<rparr>)"
    obtain s3 where s3: "dns_frame ?s2 s3" "r_dns_resolver_returned hk r l acc rid s3 = Some (rc, s')"
      using assms False rf a nm s1 h that [OF dns_frame_refl]
      by (cases sync) (auto simp: r_dns_schedule_addr_lookup_def bind_eq_Some_conv Let_def dest: addr_cb_frame)
    have "dns_frame s1 ?s2" by (rule emit_world_frame) (simp add: dns_event_def)
    then show ?thesis using alloc_dns_frame [OF a] lookup_new_frame [OF s1] s3(1) resolver_returned_frame [OF s3(2)]
        dns_frame_trans by blast
  qed
qed

lemma schedule_targets_frame: "r_dns_schedule_targets hk r recs mn s = Some (mn', s') \<Longrightarrow> dns_frame s s'"
proof (induction recs arbitrary: mn s)
  case (Cons rec recs)
  show ?case
  proof (cases "r_parse_server_id_from_target (srv_target rec)")
    case (Some sid)
    then obtain rc s1 mn1 where "r_dns_schedule_addr_lookup hk r (srv_target rec) (srv_port rec) sid True s = Some (rc, s1)"
      "r_dns_schedule_targets hk r recs mn1 s1 = Some (mn', s')"
      using Cons.prems by (auto simp: bind_eq_Some_conv Let_def)
    then show ?thesis using Cons.IH schedule_addr_frame dns_frame_trans by blast
  qed (use Cons in simp)
qed simp

lemma srv_cb_frame:
  assumes "r_dns_srv_cb_fn hk l ok recs s = Some s'" shows "dns_frame s s'"
proof -
  obtain lk where lk: "lookups s l = Some lk" using assms by (auto simp: r_dns_srv_cb_fn_def bind_eq_Some_conv)
  show ?thesis
  proof (cases "lk_refresh lk")
    case (Some r)
    then obtain s1 where "dns_frame s s1" "r_dns_lookup_finish hk l s1 = Some s'"
      using assms lk that [OF dns_frame_refl]
      by (auto simp: r_dns_srv_cb_fn_def bind_eq_Some_conv split: if_splits
          dest!: schedule_targets_frame intro: that dns_frame_store(1) [THEN iffD2])
    then show ?thesis using lookup_finish_frame dns_frame_trans by blast
  qed (use assms lk in \<open>simp add: r_dns_srv_cb_fn_def\<close>)
qed

lemma schedule_srv_frame:
  assumes "r_dns_schedule_srv_lookup hk r nm s = Some (rc, s')" shows "dns_frame s s'"
proof -
  obtain ok s0 where a: "alloc hk s = (ok, s0)" by fastforce
  obtain rf where rf: "refreshes s r = Some rf" using assms by (auto simp: r_dns_schedule_srv_lookup_def bind_eq_Some_conv)
  show ?thesis
  proof (cases "detached rf \<or> \<not> ok")
    case True
    then show ?thesis using assms rf a alloc_dns_frame [OF a]
      by (auto simp: r_dns_schedule_srv_lookup_def split: if_splits)
  next
    case False
    obtain l s1 where s1: "r_dns_lookup_new r 0 0 False s0 = Some (l, s1)"
      using assms False rf a by (auto simp: r_dns_schedule_srv_lookup_def bind_eq_Some_conv)
    obtain acc rid sync w where h: "h_resolve_srv hk nm (world s1) = ((acc, rid, sync), w)" by (metis prod.exhaust)
    let ?s2 = "emit (Ev_Resolve_Srv nm) (s1\<lparr>world := w\<rparr>)"
    obtain s3 where s3: "dns_frame ?s2 s3" "r_dns_resolver_returned hk r l acc rid s3 = Some (rc, s')"
      using assms False rf a s1 h that [OF dns_frame_refl]
      by (cases sync) (auto simp: r_dns_schedule_srv_lookup_def bind_eq_Some_conv Let_def dest: srv_cb_frame)
    have "dns_frame s1 ?s2" by (rule emit_world_frame) (simp add: dns_event_def)
    then show ?thesis using alloc_dns_frame [OF a] lookup_new_frame [OF s1] s3(1) resolver_returned_frame [OF s3(2)]
        dns_frame_trans by blast
  qed
qed

lemma abandon_frame: "r_dns_abandon_refresh r s = Some s' \<Longrightarrow> dns_frame s s'"
proof -
  assume "r_dns_abandon_refresh r s = Some s'"
  then obtain c where c: "client s = Some c"
    "r_dns_refresh_free r (put_client (c\<lparr>dns_refresh_inflight := False, dns_refresh := None\<rparr>) s) = Some s'"
    by (auto simp: r_dns_abandon_refresh_def bind_eq_Some_conv)
  have "dns_frame s (put_client (c\<lparr>dns_refresh_inflight := False, dns_refresh := None\<rparr>) s)"
    by (rule dns_frame_client [OF _ c(1)]) (simp_all add: dns_only_def)
  then show ?thesis using refresh_free_frame [OF c(2)] dns_frame_trans by blast
qed

subsection \<open>Facts: starting and detaching\<close>

lemma schedule_srv_ok:
  assumes "dns_mid (Some r) 0 {} s" and "refreshes s r = Some rf" and "attached rf" and "\<not> detached rf"
    and "resolver_ok hk"
  shows "\<exists>rc s'. r_dns_schedule_srv_lookup hk r name s = Some (rc, s') \<and>
    (dns_idle s' \<or> rc = RCLIENT_ERR_NOMEM \<and> (\<exists>w. s' = s\<lparr>world := w\<rparr>))"
proof -
  obtain ok s0 where a: "alloc hk s = (ok, s0)" by fastforce
  then obtain w0 where s0: "s0 = s\<lparr>world := w0\<rparr>" using alloc_upd by blast
  show ?thesis
  proof (cases ok)
    case False
    then show ?thesis using a s0 assms by (auto simp: r_dns_schedule_srv_lookup_def)
  next
    case True
    have mid0: "dns_mid (Some r) 0 {} s0" using assms(1) s0 by simp
    obtain l s1 lk where s1: "r_dns_lookup_new r 0 0 False s0 = Some (l, s1)" "dns_mid (Some r) (Suc 0) {l} s1"
      "lookups s1 l = Some lk" "\<not> completed lk" "keeps r s0 s1"
      using lookup_new_ok [OF mid0 refl refl] by fastforce
    obtain acc rid sync w where h: "h_resolve_srv hk name (world s1) = ((acc, rid, sync), w)"
      by (metis prod.exhaust)
    let ?s2 = "emit (Ev_Resolve_Srv name) (s1\<lparr>world := w\<rparr>)"
    obtain s3 where s3: "(case sync of None \<Rightarrow> Some ?s2 | Some (ok, records) \<Rightarrow> r_dns_srv_cb_fn hk l ok records ?s2) = Some s3"
      "dns_mid (Some r) (Suc 0) {l} s3" "same_att r s0 s3"
    proof (cases sync)
      case None
      then show ?thesis using that [of ?s2] s1 keeps_same_att [OF s1(5)] by simp
    next
      case (Some p)
      obtain ok recs where p: "p = (ok, recs)" by (cases p)
      obtain s3 where "r_dns_srv_cb_fn hk l ok recs ?s2 = Some s3" "dns_mid (Some r) (Suc 0) {l} s3" "same_att r ?s2 s3"
        using srv_cb_in_call [of r "Suc 0" "{l}" ?s2 l lk hk ok recs] s1 assms(5) by auto
      then show ?thesis using that [of s3] Some p same_att_trans [OF keeps_same_att [OF s1(5)]] by simp
    qed
    obtain s4 where s4: "r_dns_resolver_returned hk r l acc rid s3 =
      (r_dns_refresh_maybe_complete hk (Some r) s4 \<bind>
        (\<lambda>s'. Some (if acc then RCLIENT_OK else RCLIENT_ERR_DNS, s')))"
      "dns_mid (Some r) 0 {} s4" "same_att r s3 s4"
      using resolver_returned_ok [OF s3(2), of hk acc rid] unfolding same_att_def by blast
    have "same_att r s s4" using same_att_trans [OF s3(3) s4(3)] s0 by simp
    then have "refreshes s4 r = Some rf4 \<Longrightarrow> \<not> (attached rf4 \<and> detached rf4)" for rf4
      using assms(2,4) by (simp add: same_att_def)
    from maybe_complete_done [OF s4(2) this, of hk] obtain s5 where
      "r_dns_refresh_maybe_complete hk (Some r) s4 = Some s5" "dns_idle s5" by blast
    then show ?thesis using assms(2,4) a True s1(1) h s3(1) s4(1)
      by (simp add: r_dns_schedule_srv_lookup_def Let_def)
  qed
qed

lemma dns_mid_new_refresh:
  assumes "dns_idle s" and "client s = Some c" and "dns_refresh c = None" and "r = next_ptr s"
    and rf: "rf = \<lparr>attached = True, detached = False, pending = 0, scheduling = 0, rf_lookups = [],
       endpoints = [], endpoint_cap = 0, min_ttl_ms = 0\<rparr>"
    and s': "s' = put_client (c\<lparr>dns_refresh_inflight := True, dns_refresh := Some r\<rparr>)
        (put_refresh r rf (s\<lparr>next_ptr := r + 1\<rparr>))"
  shows "dns_mid (Some r) 0 {} s'"
proof -
  note mid = assms(1) [unfolded dns_idle_def]
  have R: "refreshes_ok None 0 s" and L: "lookups_ok {} s" and C: "client_ok s" using mid by (auto simp: dns_mid_def)
  have fresh: "refreshes s r = None" using dns_mid_D(1) [OF mid, of r] assms(4) by (cases "refreshes s r") auto
  then have no: "own (lookups s) r = {}" "unfinished (lookups s) r = {}"
    using dns_mid_D(5) [OF mid] by (fastforce simp: own_def unfinished_def)+
  have "refreshes_ok (Some r) 0 s'" unfolding refreshes_ok_def
  proof (intro allI impI)
    fix r1 rf1 assume a: "refreshes s' r1 = Some rf1"
    show "r1 < next_ptr s' \<and> rf_ok (lookups s') r1 rf1 \<and> (attached rf1 \<longrightarrow> client s' \<noteq> None)
        \<and> (if Some r = Some r1 then scheduling rf1 = 0 else scheduling rf1 = 0 \<and> 0 < pending rf1 \<and> \<not> (attached rf1 \<and> detached rf1))"
    proof (cases "r1 = r")
      case True
      then show ?thesis using a no by (auto simp: s' store_defs rf rf_ok_def)
    next
      case False
      then have "refreshes s r1 = Some rf1" using a by (simp add: s' store_defs)
      from R [unfolded refreshes_ok_def, rule_format, OF this] show ?thesis
        using False assms(4) by (auto simp: s' store_defs)
    qed
  qed
  moreover have "lookups_ok {} s'" unfolding lookups_ok_def
  proof (intro allI impI)
    fix l lk assume "lookups s' l = Some lk"
    then have "lookups s l = Some lk" by (simp add: s' store_defs)
    from L [unfolded lookups_ok_def, rule_format, OF this]
    show "l < next_ptr s' \<and> (\<exists>r. lk_refresh lk = Some r \<and> refreshes s' r \<noteq> None)
        \<and> in_resolver_call lk = (l \<in> {}) \<and> (completed lk \<longrightarrow> l \<in> {})" using assms(4) by (auto simp: s' store_defs)
  qed
  moreover have "client_ok s'"
    using C [unfolded client_ok_def, rule_format, OF assms(2)] assms(3) fresh by (auto simp: client_ok_def s' store_defs rf)
  ultimately show ?thesis by (simp add: dns_mid_def s' store_defs)
qed

lemma abandon_ok:
  assumes "dns_mid (Some r) 0 {} s" and "refreshes s r = Some rf" and "pending rf = 0" and "attached rf" and "\<not> detached rf"
  shows "\<exists>s'. r_dns_abandon_refresh r s = Some s' \<and> dns_idle s'"
proof -
  obtain c where c: "client s = Some c" using dns_mid_D(3) [OF assms(1,2,4)] by blast
  note ok = dns_mid_D(2) [OF assms(1,2)]
  have own: "own (lookups s) r = {}"
    using own_unfinished [OF assms(1)] ok finite_own(2) [OF ok] assms(3) by (simp add: rf_ok_def)
  let ?t = "put_client (c\<lparr>dns_refresh_inflight := False, dns_refresh := None\<rparr>) s"
  have "r_dns_refresh_free r ?t = Some (?t\<lparr>refreshes := (refreshes s)(r := None)\<rparr>)"
    using r_dns_refresh_free_eq [of ?t r rf] assms(2) ok own by (simp add: store_defs)
  moreover have "dns_idle (?t\<lparr>refreshes := (refreshes s)(r := None)\<rparr>)"
    by (rule dns_idle_free [OF assms(1,2) own]) (use assms c in \<open>simp_all add: store_defs\<close>)
  ultimately show ?thesis using c by (simp add: r_dns_abandon_refresh_def)
qed

lemma start_refresh_ok:
  assumes "dns_idle s" and "client s = Some c" and "resolver_ok hk"
  shows "\<exists>rc s'. r_dns_start_refresh hk s = Some (rc, s') \<and> dns_idle s'"
proof -
  obtain ok s0 where a: "alloc hk s = (ok, s0)" by fastforce
  then obtain w0 where s0: "s0 = s\<lparr>world := w0\<rparr>" using alloc_upd by blast
  show ?thesis
  proof (cases "dns_refresh_inflight c \<or> \<not> ok")
    case True
    then show ?thesis using assms a s0 by (auto simp: r_dns_start_refresh_def)
  next
    case False
    then have nr: "dns_refresh c = None"
      using assms(1,2) by (auto simp: dns_idle_def dns_mid_def client_ok_def)
    let ?r = "next_ptr s0"
    let ?rf = "\<lparr>attached = True, detached = False, pending = 0, scheduling = 0, rf_lookups = [],
       endpoints = [], endpoint_cap = 0, min_ttl_ms = 0\<rparr> :: r_dns_refresh"
    let ?s = "put_client (c\<lparr>dns_refresh_inflight := True, dns_refresh := Some ?r\<rparr>)
        (put_refresh ?r ?rf (s0\<lparr>next_ptr := ?r + 1\<rparr>))"
    have mid: "dns_mid (Some ?r) 0 {} ?s" by (rule dns_mid_new_refresh [OF _ _ nr refl refl refl]) (use assms s0 in simp_all)
    have rr: "refreshes ?s ?r = Some ?rf" by (simp add: store_defs)
    from abandon_ok [OF mid rr] obtain s1 where ab: "r_dns_abandon_refresh ?r ?s = Some s1" "dns_idle s1" by auto
    let ?name = "cstr ''_ratelimitly._udp.'' @ c_string (dns_name c)"
    from schedule_srv_ok [OF mid rr _ _ assms(3), of ?name] obtain rc s2 where
      s2: "r_dns_schedule_srv_lookup hk ?r ?name ?s = Some (rc, s2)"
        "dns_idle s2 \<or> rc = RCLIENT_ERR_NOMEM \<and> (\<exists>w. s2 = ?s\<lparr>world := w\<rparr>)" by auto
    define fin where "fin = (if rc = RCLIENT_OK then Some (rc, s2)
           else do {
             c \<leftarrow> client s2;
             if dns_refresh c \<noteq> Some ?r then Some (rc, s2)
             else do {
               rf \<leftarrow> refreshes s2 ?r;
               if pending rf = 0 \<and> scheduling rf = 0 then do {
                 s \<leftarrow> r_dns_abandon_refresh ?r s2;
                 Some (rc, s) }
               else Some (rc, s2) } })"
    have eq: "r_dns_start_refresh hk s = (if 512 \<le> length ?name then Some (RCLIENT_ERR_CONFIG, s1) else fin)"
      using False assms(2) a ab s2(1) unfolding r_dns_start_refresh_def fin_def by (simp add: Let_def)
    have "\<exists>s'. fin = Some (rc, s') \<and> dns_idle s'"
    proof (cases "dns_idle s2")
      case True
      have "dns_frame ?s s2" using schedule_srv_frame [OF s2(1)] .
      then obtain c2 where c2: "client s2 = Some c2" using dns_frame_Some by fastforce
      show ?thesis
      proof (cases "rc = RCLIENT_OK \<or> dns_refresh c2 \<noteq> Some ?r")
        case False
        then obtain rf2 where "refreshes s2 ?r = Some rf2"
          using True c2 by (auto simp: dns_idle_def dns_mid_def client_ok_def)
        with dns_mid_start(2) [OF True this] show ?thesis using False c2 True unfolding fin_def by simp
      qed (use c2 True in \<open>auto simp: fin_def\<close>)
    next
      case no: False
      then obtain w where w: "s2 = ?s\<lparr>world := w\<rparr>" "rc = RCLIENT_ERR_NOMEM" using s2(2) by blast
      have "dns_mid (Some ?r) 0 {} s2" "refreshes s2 ?r = Some ?rf" using mid rr w by simp_all
      from abandon_ok [OF this] obtain s3 where "r_dns_abandon_refresh ?r s2 = Some s3" "dns_idle s3" by auto
      then show ?thesis using w unfolding fin_def by (simp add: store_defs)
    qed
    then show ?thesis using eq ab(2) by (cases "512 \<le> length ?name") auto
  qed
qed

lemma start_refresh_frame:
  assumes "r_dns_start_refresh hk s = Some (rc, s')" shows "dns_frame s s'"
proof -
  obtain c where c: "client s = Some c" using assms by (auto simp: r_dns_start_refresh_def bind_eq_Some_conv)
  obtain ok s0 where a: "alloc hk s = (ok, s0)" by fastforce
  have c0: "client s0 = Some c" using alloc_upd [OF a] c by simp
  let ?r = "next_ptr s0"
  let ?s = "\<lambda>rf. put_client (c\<lparr>dns_refresh_inflight := True, dns_refresh := Some ?r\<rparr>)
        (put_refresh ?r rf (s0\<lparr>next_ptr := ?r + 1\<rparr>))"
  have f: "dns_frame s (?s rf)" for rf
    by (rule dns_frame_client [where c = c])
      (use c0 dns_frame_next [OF alloc_dns_frame [OF a], of 1] in \<open>simp_all add: dns_only_def\<close>)
  show ?thesis
  proof (cases "dns_refresh_inflight c \<or> \<not> ok")
    case True
    then show ?thesis using assms c a alloc_dns_frame [OF a] by (auto simp: r_dns_start_refresh_def split: if_splits)
  next
    case False
    let ?rf = "\<lparr>attached = True, detached = False, pending = 0, scheduling = 0, rf_lookups = [],
       endpoints = [], endpoint_cap = 0, min_ttl_ms = 0\<rparr> :: r_dns_refresh"
    let ?name = "cstr ''_ratelimitly._udp.'' @ c_string (dns_name c)"
    have "dns_frame (?s ?rf) s'"
    proof (cases "512 \<le> length ?name")
      case True
      then show ?thesis using assms False c a
        by (auto simp: r_dns_start_refresh_def Let_def bind_eq_Some_conv dest: abandon_frame)
    next
      case sh: False
      obtain rc2 s2 where s2: "r_dns_schedule_srv_lookup hk ?r ?name (?s ?rf) = Some (rc2, s2)"
        using assms False c a sh by (auto simp: r_dns_start_refresh_def Let_def bind_eq_Some_conv)
      have "dns_frame s2 s'" using assms False c a sh s2
        by (auto simp: r_dns_start_refresh_def Let_def bind_eq_Some_conv split: if_splits dest: abandon_frame)
      then show ?thesis using schedule_srv_frame [OF s2] dns_frame_trans by blast
    qed
    then show ?thesis using f dns_frame_trans by blast
  qed
qed

text \<open>Refreshing when due, or when forced.\<close>

lemma rand_range_state: "r_rand_range hk m s = Some (v, s') \<Longrightarrow> \<exists>w. s' = s\<lparr>world := w\<rparr>"
  by (auto simp: r_rand_range_def rand_bytes_def Let_def split: if_splits option.splits prod.splits
      intro: exI [of _ "world s"])

lemma maybe_refresh_ok:
  assumes "dns_idle s" and "client s = Some c" and "resolver_ok hk"
    and "forced_refresh_jitter_ms (dns_policy c) \<noteq> UINT64_MAX"
  shows "\<exists>rc s'. r_dns_maybe_refresh hk force s = Some (rc, s') \<and> dns_idle s' \<and> dns_frame s s'"
proof -
  obtain now s1 where n: "r_now_ms hk s = (now, s1)" by fastforce
  obtain w tr where s1: "s1 = s\<lparr>world := w, trace := tr\<rparr>" using now_state [OF n] by blast
  have i1: "dns_idle s1" using assms(1)
    unfolding s1 dns_idle_def dns_mid_def refreshes_ok_def lookups_ok_def client_ok_def by simp
  have c1: "client s1 = Some c" using s1 assms(2) by simp
  have st: "\<exists>rc s'. r_dns_start_refresh hk (s1\<lparr>world := w\<rparr>) = Some (rc, s') \<and> dns_idle s' \<and> dns_frame s s'" for w
  proof -
    from start_refresh_ok [of "s1\<lparr>world := w\<rparr>" c hk] i1 c1 assms(3) obtain rc s' where
      a: "r_dns_start_refresh hk (s1\<lparr>world := w\<rparr>) = Some (rc, s')" "dns_idle s'" by auto
    have "dns_frame s (s1\<lparr>world := w\<rparr>)" using now_frame [OF n] by simp
    then show ?thesis using a start_refresh_frame [OF a(1)] dns_frame_trans by blast
  qed
  show ?thesis
  proof (cases force)
    case False
    then show ?thesis using st [of "world s1"] i1 c1 assms(2) n now_frame [OF n]
      by (simp add: r_dns_maybe_refresh_def Let_def)
  next
    case True
    let ?p = "dns_policy c"
    let ?mi = "if forced_refresh_min_interval_ms ?p = 0 then 1000 else forced_refresh_min_interval_ms ?p"
    obtain mi w2 where j: "(if forced_refresh_jitter_ms ?p > 0
         then do { (v, s) \<leftarrow> r_rand_range hk (forced_refresh_jitter_ms ?p) s1; Some (?mi + v, s) }
         else Some (?mi, s1)) = Some (mi, s1\<lparr>world := w2\<rparr>)"
    proof (cases "forced_refresh_jitter_ms ?p > 0")
      case True
      have "r_rand_range hk (forced_refresh_jitter_ms ?p) s1 \<noteq> None"
        using assms(4) by (auto simp: r_rand_range_def Let_def UINT64_MAX_max eq_neg_iff_add_eq_0 split: option.splits prod.splits)
      then obtain v s2 where v: "r_rand_range hk (forced_refresh_jitter_ms ?p) s1 = Some (v, s2)" by auto
      then show ?thesis using rand_range_state [OF v] True that by auto
    qed (use that [of ?mi "world s1"] in simp)
    show ?thesis using True st [of w2] i1 c1 assms(2) n now_frame [OF n] j
      by (simp add: r_dns_maybe_refresh_def Let_def split del: if_split) (simp add: Let_def)
  qed
qed

lemma free_all_client: "r_dns_lookup_free_all ls s = Some s' \<Longrightarrow> client s' = client s"
  by (induction ls arbitrary: s) (auto simp: bind_eq_Some_conv)

lemma free_client: "r_dns_refresh_free r s = Some s' \<Longrightarrow> client s' = client s"
  by (auto simp: r_dns_refresh_free_def bind_eq_Some_conv dest: free_all_client)

lemma cancel_loop_ok:
  assumes "dns_mid (Some r) (Suc 0) {} s" and "distinct ls" and "set ls \<subseteq> own (lookups s) r"
  shows "\<exists>s'. r_dns_cancel_loop hk f ls s = Some s' \<and> dns_mid (Some r) (Suc 0) {} s' \<and> same_att r s s'
    \<and> client s' = client s"
  using assms
proof (induction ls arbitrary: s)
  case (Cons l ls)
  obtain lk where lk: "lookups s l = Some lk" "lk_refresh lk = Some r" using Cons.prems(3) by (auto simp: own_def)
  obtain rf where rf: "refreshes s r = Some rf" using dns_mid_cur [OF Cons.prems(1)] by blast
  have step: "\<exists>s1. (case lk_req_id lk of
       Some rid \<Rightarrow>
         if completed lk then Some s
         else
           let (called, w) = f rid (world s);
               s = emit (Ev_Dns_Cancel rid) (s\<lparr>world := w\<rparr>) in
           if called then r_dns_lookup_finish hk l s else Some s
     | None \<Rightarrow> Some s) = Some s1 \<and> dns_mid (Some r) (Suc 0) {} s1 \<and> same_att r s s1
       \<and> client s1 = client s \<and> (\<forall>l'. l' \<noteq> l \<longrightarrow> lookups s1 l' = lookups s l')"
  proof (cases "lk_req_id lk")
    case (Some rid)
    obtain called w where c: "f rid (world s) = (called, w)" by fastforce
    let ?s = "emit (Ev_Dns_Cancel rid) (s\<lparr>world := w\<rparr>)"
    let ?rf = "rf\<lparr>pending := pending rf - 1, rf_lookups := remove1 l (rf_lookups rf)\<rparr>"
    let ?t = "free_lookup l (put_refresh r ?rf ?s)"
    have a: "r_dns_lookup_finish hk l ?s = r_dns_refresh_maybe_complete hk (Some r) ?t" "dns_mid (Some r) (Suc 0) {} ?t"
      using lookup_finish_async [of r "Suc 0" "{}" ?s l lk rf ?t hk] Cons.prems(1) lk rf by simp_all
    have "refreshes ?t r = Some ?rf" by (simp add: store_defs)
    from maybe_complete_busy [OF a(2) this, of hk] a have "r_dns_lookup_finish hk l ?s = Some ?t" by simp
    then show ?thesis using Some c a(2) Cons.prems(1) rf
      by (cases "completed lk"; cases called) (simp_all add: Let_def same_att_def store_defs)
  qed (use Cons.prems(1) in simp)
  then obtain s1 where s1: "(case lk_req_id lk of
       Some rid \<Rightarrow>
         if completed lk then Some s
         else
           let (called, w) = f rid (world s);
               s = emit (Ev_Dns_Cancel rid) (s\<lparr>world := w\<rparr>) in
           if called then r_dns_lookup_finish hk l s else Some s
     | None \<Rightarrow> Some s) = Some s1" "dns_mid (Some r) (Suc 0) {} s1" "same_att r s s1"
     "client s1 = client s" "\<forall>l'. l' \<noteq> l \<longrightarrow> lookups s1 l' = lookups s l'" by blast
  have "set ls \<subseteq> own (lookups s1) r" using Cons.prems(2,3) s1(5) by (fastforce simp: own_def)
  from Cons.IH [OF s1(2) _ this] Cons.prems(2) obtain s' where
    "r_dns_cancel_loop hk f ls s1 = Some s'" "dns_mid (Some r) (Suc 0) {} s'" "same_att r s1 s'" "client s' = client s1" by auto
  then show ?case using lk(1) s1(1,4) same_att_trans [OF s1(3)] by simp
qed simp

lemma dns_mid_detaching:
  assumes "dns_idle s" and "client s = Some c" and "dns_refresh c = Some r" and "refreshes s r = Some rf"
    and s': "s' = put_refresh r (rf\<lparr>detached := True, scheduling := scheduling rf + 1\<rparr>)
      (put_client (c\<lparr>dns_refresh := None, dns_refresh_inflight := False\<rparr>) s)"
  shows "dns_mid (Some r) (Suc 0) {} s'"
proof -
  note mid = dns_mid_start(1) [OF assms(1,4)]
  have R: "refreshes_ok (Some r) 0 s" and L: "lookups_ok {} s" and C: "client_ok s" using mid by (auto simp: dns_mid_def)
  have "refreshes_ok (Some r) (Suc 0) s'" unfolding refreshes_ok_def
  proof (intro allI impI)
    fix r1 rf1 assume a: "refreshes s' r1 = Some rf1"
    show "r1 < next_ptr s' \<and> rf_ok (lookups s') r1 rf1 \<and> (attached rf1 \<longrightarrow> client s' \<noteq> None)
        \<and> (if Some r = Some r1 then scheduling rf1 = Suc 0 else scheduling rf1 = 0 \<and> 0 < pending rf1 \<and> \<not> (attached rf1 \<and> detached rf1))"
    proof (cases "r1 = r")
      case True
      then have "rf1 = rf\<lparr>detached := True, scheduling := scheduling rf + 1\<rparr>" using a by (simp add: s' store_defs)
      then show ?thesis using True R [unfolded refreshes_ok_def, rule_format, OF assms(4)]
        by (simp add: s' store_defs rf_ok_def)
    next
      case False
      then have "refreshes s r1 = Some rf1" using a by (simp add: s' store_defs)
      from R [unfolded refreshes_ok_def, rule_format, OF this] show ?thesis
        using False by (auto simp: s' store_defs)
    qed
  qed
  moreover have "lookups_ok {} s'" unfolding lookups_ok_def
  proof (intro allI impI)
    fix l lk assume "lookups s' l = Some lk"
    then have "lookups s l = Some lk" by (simp add: s' store_defs)
    from L [unfolded lookups_ok_def, rule_format, OF this]
    show "l < next_ptr s' \<and> (\<exists>r. lk_refresh lk = Some r \<and> refreshes s' r \<noteq> None)
        \<and> in_resolver_call lk = (l \<in> {}) \<and> (completed lk \<longrightarrow> l \<in> {})" by (auto simp: s' store_defs)
  qed
  moreover have "client_ok s'"
  proof -
    note e = C [unfolded client_ok_def, rule_format, OF assms(2)]
    have "\<not> (\<exists>rfa. refreshes s ra = Some rfa \<and> attached rfa \<and> \<not> detached rfa)" if "ra \<noteq> r" for ra
      using e assms(3) that by (metis option.inject)
    then show ?thesis by (auto simp: client_ok_def s' store_defs)
  qed
  ultimately show ?thesis by (simp add: dns_mid_def s' store_defs)
qed

lemma detach_ok:
  assumes "dns_idle s" and "client s = Some c" and "dns_refresh c = Some r"
  shows "\<exists>s' c'. r_dns_refresh_detach hk r s = Some s' \<and> dns_idle s' \<and> client s' = Some c' \<and> dns_refresh c' = None"
proof -
  obtain rf where rf: "refreshes s r = Some rf" "attached rf" "\<not> detached rf"
    using assms by (auto simp: dns_idle_def dns_mid_def client_ok_def)
  let ?c = "c\<lparr>dns_refresh := None, dns_refresh_inflight := False\<rparr>"
  let ?s1 = "put_refresh r (rf\<lparr>detached := True, scheduling := scheduling rf + 1\<rparr>) (put_client ?c s)"
  have m1: "dns_mid (Some r) (Suc 0) {} ?s1" using dns_mid_detaching [OF assms rf(1) refl] .
  have rl: "refreshes ?s1 r = Some (rf\<lparr>detached := True, scheduling := scheduling rf + 1\<rparr>)" by (simp add: store_defs)
  have ls: "distinct (rf_lookups rf)" "set (rf_lookups rf) \<subseteq> own (lookups ?s1) r"
    using dns_mid_D(2) [OF m1 rl] by (simp_all add: rf_ok_def)
  obtain s2 where s2: "r_dns_refresh_cancel_lookups hk r True ?s1 = Some s2" "dns_mid (Some r) (Suc 0) {} s2" "same_att r ?s1 s2"
      "client s2 = client ?s1"
    using cancel_loop_ok [OF m1 ls, of hk] m1 rl
    by (cases "h_cancel hk") (auto simp: r_dns_refresh_cancel_lookups_def)
  obtain rf2 where rf2: "refreshes s2 r = Some rf2" "scheduling rf2 = Suc 0" using dns_mid_cur [OF s2(2)] by blast
  have d2: "detached rf2" using s2(3) rl rf2(1) by (simp add: same_att_def)
  let ?rf3 = "rf2\<lparr>scheduling := 0, attached := False\<rparr>"
  have m3: "dns_mid (Some r) 0 {} (put_refresh r ?rf3 s2)"
    by (rule dns_mid_put_refresh [OF s2(2) rf2(1)]) (use d2 in simp_all)
  obtain s' where s': "r_dns_refresh_maybe_complete hk (Some r) (put_refresh r ?rf3 s2) = Some s'" "dns_idle s'"
    using maybe_complete_done [OF m3, of hk] by (auto simp: store_defs)
  have eq: "r_dns_refresh_detach hk r s = Some s'"
    using assms(2,3) rf s2(1) rf2 s'(1) by (simp add: r_dns_refresh_detach_def Let_def put_client_def)
  have "client s' = client s2"
    using s'(1) d2 by (auto dest!: free_client simp: r_dns_refresh_maybe_complete_def bind_eq_Some_conv put_refresh_def split: if_splits)
  then show ?thesis using eq s'(2) s2(4) by simp
qed

subsection \<open>The DNS machine\<close>

text \<open>
  What can happen to the DNS objects of a live client: the client refreshes on its own or because it
  has no servers, a resolver answers an outstanding lookup, or the client lets go of its refresh.
\<close>

inductive dns_step :: "'w hooks \<Rightarrow> 'w sys \<Rightarrow> 'w sys \<Rightarrow> bool" for hk where
  refresh: "r_dns_maybe_refresh hk force s = Some (rc, s') \<Longrightarrow> dns_step hk s s'"
| srv_answer: "lookups s l \<noteq> None \<Longrightarrow> r_dns_srv_cb_fn hk l ok recs s = Some s' \<Longrightarrow> dns_step hk s s'"
| addr_answer: "lookups s l \<noteq> None \<Longrightarrow> list_all addr_ok as \<Longrightarrow> r_dns_addr_cb_fn hk l ok as s = Some s'
    \<Longrightarrow> dns_step hk s s'"
| detach: "client s = Some c \<Longrightarrow> dns_refresh c = Some r \<Longrightarrow> r_dns_refresh_detach hk r s = Some s' \<Longrightarrow> dns_step hk s s'"

inductive dns_reach :: "'w hooks \<Rightarrow> 'w sys \<Rightarrow> 'w sys \<Rightarrow> bool" for hk where
  start: "dns_reach hk s s"
| step: "dns_reach hk s t \<Longrightarrow> dns_step hk t u \<Longrightarrow> dns_reach hk s u"

definition dns_fresh :: "'w sys \<Rightarrow> bool" where
  "dns_fresh s \<longleftrightarrow> (\<forall>r. refreshes s r = None) \<and> (\<forall>l. lookups s l = None)
     \<and> (\<forall>c. client s = Some c \<longrightarrow> \<not> dns_refresh_inflight c \<and> dns_refresh c = None)"

lemma dns_fresh_idle: "dns_fresh s \<Longrightarrow> dns_idle s"
  by (simp add: dns_fresh_def dns_idle_def dns_mid_def refreshes_ok_def lookups_ok_def client_ok_def)

lemma dns_step_idle:
  assumes "dns_step hk s s'" and "dns_idle s" and "client s = Some c" and "resolver_ok hk"
    and "forced_refresh_jitter_ms (dns_policy c) \<noteq> UINT64_MAX"
  shows "dns_idle s' \<and> dns_frame s s'"
  using assms(1)
proof cases
  case (refresh force rc)
  then show ?thesis using maybe_refresh_ok [OF assms(2-5), of force] by auto
next
  case (srv_answer l ok recs)
  then show ?thesis using srv_cb_async [OF assms(2) _ assms(4), of l _ ok recs] srv_cb_frame by fastforce
next
  case (addr_answer l "as" ok)
  then show ?thesis using addr_cb_async [OF assms(2), of l _ "as" hk ok] addr_cb_frame by fastforce
next
  case (detach c r)
  then show ?thesis using detach_ok [OF assms(2) detach(1,2), of hk] detach_frame by auto
qed

lemma dns_reach_idle:
  assumes "dns_reach hk s t" and "dns_idle s" and "client s = Some c" and "resolver_ok hk"
    and "forced_refresh_jitter_ms (dns_policy c) \<noteq> UINT64_MAX"
  shows "dns_idle t \<and> dns_frame s t"
  using assms
proof (induction rule: dns_reach.induct)
  case (step s t u)
  then obtain c' where c': "client t = Some c'" "dns_only c c'" using dns_frame_Some by blast
  then have "dns_policy c' = dns_policy c" by (cases c, cases c') (simp add: dns_only_def)
  then have "forced_refresh_jitter_ms (dns_policy c') \<noteq> UINT64_MAX" using step.prems by simp
  then show ?case using step c' dns_step_idle dns_frame_trans by metis
qed simp

subsection \<open>Properties\<close>


lemma sample_fresh: "dns_fresh sample_sys" "client sample_sys = Some sample_client" "resolver_ok sample_hooks"
  "forced_refresh_jitter_ms (dns_policy sample_client) \<noteq> UINT64_MAX"
  by (simp_all add: dns_fresh_def sample_sys_def sample_client_def resolver_ok_def sample_hooks_def UINT64_MAX_def)


subsection \<open>Facts: a discovery that is answered at once\<close>

definition prompt_resolver :: "'w hooks \<Rightarrow> r_srv_record list \<Rightarrow> (byte list \<Rightarrow> r_addr list) \<Rightarrow> bool" where
  "prompt_resolver hk recs addrs \<longleftrightarrow>
     (\<forall>nm w. h_resolve_srv hk nm w = ((True, 0, Some (True, recs)), w))
   \<and> (\<forall>nm w. h_resolve_addrs hk nm w = ((True, 0, Some (True, addrs nm)), w))
   \<and> (\<forall>w. h_alloc hk w = (True, w)) \<and> (\<forall>nm. list_all addr_ok (addrs nm))"

definition endpoints_of :: "(byte list \<Rightarrow> r_addr list) \<Rightarrow> r_srv_record \<Rightarrow> r_server_endpoint list" where
  "endpoints_of addrs rec = (case r_parse_server_id_from_target (srv_target rec) of
     None \<Rightarrow> []
   | Some sid \<Rightarrow> map (\<lambda>a. \<lparr>ep_addr = the (r_addr_set_port a (srv_port rec)), ep_server_id = sid, has_server_id = True\<rparr>)
       (addrs (the (srv_target rec))))"

lemma upd_cong: "a = b \<Longrightarrow> f(x := Some a) = f(x := Some b)"
  by simp

lemma prompt_alloc: "prompt_resolver hk recs addrs \<Longrightarrow> alloc hk s = (True, s)"
  by (simp add: prompt_resolver_def alloc_def)

lemma add_addrs_prompt:
  assumes "prompt_resolver hk recs addrs" and "refreshes s r = Some rf" and "lookups s l = Some lk" and "list_all addr_ok as"
  shows "\<exists>cap. r_dns_add_addrs hk r l as s = Some (put_refresh r (rf\<lparr>endpoints := endpoints rf @
     map (\<lambda>a. \<lparr>ep_addr = the (r_addr_set_port a (lk_port lk)), ep_server_id = lk_server_id lk,
                has_server_id = lk_has_server_id lk\<rparr>) as, endpoint_cap := cap\<rparr>) s)"
  using assms(2-)
proof (induction "as" arbitrary: s rf)
  case Nil
  then show ?case by (intro exI [of _ "endpoint_cap rf"]) (simp add: put_refresh_def fun_upd_idem)
next
  case (Cons a "as")
  obtain a' where a': "r_addr_set_port a (lk_port lk) = Some a'"
    using r_addr_set_port_total [of a] Cons.prems(3) by auto
  let ?e = "\<lparr>ep_addr = a', ep_server_id = lk_server_id lk, has_server_id = lk_has_server_id lk\<rparr>"
  have al: "(if b then alloc hk s else (True, s)) = (True, s)" for b
    using prompt_alloc [OF assms(1), of s] by simp
  obtain cap where e: "r_dns_refresh_add_endpoint hk r a' (lk_server_id lk) (lk_has_server_id lk) s =
      Some (True, put_refresh r (rf\<lparr>endpoint_cap := cap, endpoints := endpoints rf @ [?e]\<rparr>) s)"
    using that Cons.prems(1) unfolding r_dns_refresh_add_endpoint_def Let_def al by simp
  let ?s = "put_refresh r (rf\<lparr>endpoint_cap := cap, endpoints := endpoints rf @ [?e]\<rparr>) s"
  have "refreshes ?s r = Some (rf\<lparr>endpoint_cap := cap, endpoints := endpoints rf @ [?e]\<rparr>)" "lookups ?s l = Some lk"
    using Cons.prems(2) by (simp_all add: store_defs)
  from Cons.IH [OF this] Cons.prems(3) show ?case
    using Cons.prems(2) a' e by (auto simp: put_refresh_def)
qed

lemma schedule_addr_prompt:
  assumes pr: "prompt_resolver hk recs addrs" and "refreshes s r = Some rf" and "0 < pending rf" and "attached rf" and "\<not> detached rf"
    and "lookups s (next_ptr s) = None"
  shows "\<exists>cap tr. r_dns_schedule_addr_lookup hk r (Some nm) port sid has s = Some (RCLIENT_OK,
    s\<lparr>refreshes := (refreshes s)(r := Some (rf\<lparr>endpoints := endpoints rf @
       map (\<lambda>a. \<lparr>ep_addr = the (r_addr_set_port a port), ep_server_id = sid, has_server_id = has\<rparr>) (addrs nm),
       endpoint_cap := cap\<rparr>)), next_ptr := next_ptr s + 1, trace := tr\<rparr>)"
proof -
  let ?l = "next_ptr s"
  let ?lk = "\<lparr>lk_refresh = Some r, lk_req_id = None, completed = False, in_resolver_call = True,
               lk_port = port, lk_server_id = sid, lk_has_server_id = has\<rparr>"
  let ?rf1 = "rf\<lparr>rf_lookups := ?l # rf_lookups rf, pending := pending rf + 1, scheduling := scheduling rf + 1\<rparr>"
  let ?s1 = "put_refresh r ?rf1 (put_lookup ?l ?lk (s\<lparr>next_ptr := ?l + 1\<rparr>))"
  have new: "r_dns_lookup_new r port sid has s = Some (?l, ?s1)"
    using assms(2) by (simp add: r_dns_lookup_new_def r_dns_lookup_link_def store_defs Let_def)
  let ?s2 = "emit (Ev_Resolve_Addrs nm) ?s1"
  let ?eps = "map (\<lambda>a. \<lparr>ep_addr = the (r_addr_set_port a port), ep_server_id = sid, has_server_id = has\<rparr>) (addrs nm)"
  have h: "h_resolve_addrs hk nm w = ((True, 0, Some (True, addrs nm)), w)" for w
    using pr by (simp add: prompt_resolver_def)
  have ok: "list_all addr_ok (addrs nm)" using pr by (simp add: prompt_resolver_def)
  have "refreshes ?s2 r = Some ?rf1" "lookups ?s2 ?l = Some ?lk" by (simp_all add: store_defs)
  from add_addrs_prompt [OF pr this ok] obtain cap where
    add: "r_dns_add_addrs hk r ?l (addrs nm) ?s2 = Some (put_refresh r (?rf1\<lparr>endpoints := endpoints rf @ ?eps, endpoint_cap := cap\<rparr>) ?s2)"
    by auto
  let ?cap = "if addrs nm = [] then endpoint_cap rf else cap"
  let ?rf3 = "?rf1\<lparr>endpoints := endpoints rf @ ?eps, endpoint_cap := ?cap, pending := pending rf\<rparr>"
  let ?s3 = "put_refresh r ?rf3 (put_lookup ?l (?lk\<lparr>completed := True\<rparr>) ?s2)"
  have cb: "r_dns_addr_cb_fn hk ?l True (addrs nm) ?s2 = Some ?s3"
  proof (cases "addrs nm = []")
    case True
    then show ?thesis using assms(3-5)
      by (auto simp: r_dns_addr_cb_fn_def r_dns_lookup_finish_def r_dns_refresh_maybe_complete_def
          store_defs intro!: sys.equality r_dns_refresh.equality upd_cong)
  next
    case False
    then show ?thesis using add assms(3-5)
      by (auto simp: r_dns_addr_cb_fn_def r_dns_lookup_finish_def r_dns_refresh_maybe_complete_def
          store_defs intro!: sys.equality r_dns_refresh.equality upd_cong)
  qed
  let ?s4 = "s\<lparr>refreshes := (refreshes s)(r := Some (rf\<lparr>endpoints := endpoints rf @ ?eps, endpoint_cap := ?cap\<rparr>)),
     next_ptr := ?l + 1, trace := trace s @ [Ev_Resolve_Addrs nm]\<rparr>"
  have ret: "r_dns_resolver_returned hk r ?l True 0 ?s3 = Some (RCLIENT_OK, ?s4)"
    using assms(3,6)
    by (auto simp: r_dns_resolver_returned_def r_dns_lookup_unlink_def r_dns_refresh_maybe_complete_def store_defs Let_def
        fun_upd_idem intro!: sys.equality r_dns_refresh.equality upd_cong)
  define s1 s3 s4 where sd: "s1 = ?s1" "s3 = ?s3" "s4 = ?s4"
  have "r_dns_schedule_addr_lookup hk r (Some nm) port sid has s = Some (RCLIENT_OK, s4)"
    using assms(2,5) prompt_alloc [OF pr, of s] h [of "world s1"] new [folded sd] cb [folded sd] ret [folded sd]
    by (simp add: r_dns_schedule_addr_lookup_def Let_def)
  then show ?thesis unfolding sd by blast
qed

lemma schedule_targets_prompt:
  assumes pr: "prompt_resolver hk recs0 addrs" and "refreshes s r = Some rf" and "0 < pending rf" and "attached rf" and "\<not> detached rf"
    and "\<forall>l \<ge> next_ptr s. lookups s l = None"
  shows "\<exists>cap tr n mn'. r_dns_schedule_targets hk r recs mn s = Some (mn',
    s\<lparr>refreshes := (refreshes s)(r := Some (rf\<lparr>endpoints := endpoints rf @ concat (map (endpoints_of addrs) recs),
       endpoint_cap := cap\<rparr>)), next_ptr := n, trace := tr\<rparr>)"
  using assms(2-)
proof (induction recs arbitrary: mn s rf)
  case Nil
  then show ?case
    by (intro exI [of _ "endpoint_cap rf"] exI [of _ "trace s"] exI [of _ "next_ptr s"] exI [of _ mn])
      (simp add: fun_upd_idem)
next
  case (Cons rec recs)
  show ?case
  proof (cases "r_parse_server_id_from_target (srv_target rec)")
    case None
    then show ?thesis using Cons.IH [OF Cons.prems, of mn] by (simp add: endpoints_of_def)
  next
    case (Some sid)
    then obtain nm where nm: "srv_target rec = Some nm"
      by (cases "srv_target rec") (auto simp: r_parse_server_id_from_target_def)
    have e: "endpoints_of addrs rec = map (\<lambda>a. \<lparr>ep_addr = the (r_addr_set_port a (srv_port rec)), ep_server_id = sid,
        has_server_id = True\<rparr>) (addrs nm)" using Some nm by (simp add: endpoints_of_def)
    have "lookups s (next_ptr s) = None" using Cons.prems(5) by simp
    from schedule_addr_prompt [OF pr Cons.prems(1-4) this, of nm "srv_port rec" sid True] obtain cap tr where
      a: "r_dns_schedule_addr_lookup hk r (Some nm) (srv_port rec) sid True s = Some (RCLIENT_OK,
        s\<lparr>refreshes := (refreshes s)(r := Some (rf\<lparr>endpoints := endpoints rf @ endpoints_of addrs rec, endpoint_cap := cap\<rparr>)),
          next_ptr := next_ptr s + 1, trace := tr\<rparr>)" unfolding e by blast
    let ?rf = "rf\<lparr>endpoints := endpoints rf @ endpoints_of addrs rec, endpoint_cap := cap\<rparr>"
    let ?s = "s\<lparr>refreshes := (refreshes s)(r := Some ?rf), next_ptr := next_ptr s + 1, trace := tr\<rparr>"
    define mn1 where "mn1 = (if ucast (srv_ttl_ms rec) > (0 :: u64) \<and> (mn = 0 \<or> ucast (srv_ttl_ms rec) < mn)
       then ucast (srv_ttl_ms rec) else mn)"
    have "\<exists>cap tr n mn'. r_dns_schedule_targets hk r recs mn1 ?s = Some (mn', ?s\<lparr>refreshes := (refreshes ?s)(r :=
        Some (?rf\<lparr>endpoints := endpoints ?rf @ concat (map (endpoints_of addrs) recs), endpoint_cap := cap\<rparr>)),
        next_ptr := n, trace := tr\<rparr>)"
      by (rule Cons.IH) (use Cons.prems in auto)
    then obtain cap2 tr2 n2 mn2 where b: "r_dns_schedule_targets hk r recs mn1 ?s = Some (mn2, s\<lparr>refreshes := (refreshes s)(r :=
        Some (rf\<lparr>endpoints := endpoints rf @ endpoints_of addrs rec @ concat (map (endpoints_of addrs) recs),
          endpoint_cap := cap2\<rparr>)), next_ptr := n2, trace := tr2\<rparr>)" by auto
    have "r_dns_schedule_targets hk r (rec # recs) mn s = r_dns_schedule_targets hk r recs mn1 ?s"
      using Some nm a by (simp add: Let_def mn1_def)
    then have "r_dns_schedule_targets hk r (rec # recs) mn s = Some (mn2, s\<lparr>refreshes := (refreshes s)(r :=
        Some (rf\<lparr>endpoints := endpoints rf @ concat (map (endpoints_of addrs) (rec # recs)),
          endpoint_cap := cap2\<rparr>)), next_ptr := n2, trace := tr2\<rparr>)" by (simp only: b list.map concat.simps)
    then show ?thesis by blast
  qed
qed

lemma complete_cong:
  "s = t \<Longrightarrow> (r_dns_refresh_maybe_complete hk r s \<bind> f) = (r_dns_refresh_maybe_complete hk r t \<bind> f)"
  by simp

lemma start_refresh_prompt:
  assumes pr: "prompt_resolver hk recs addrs" and "dns_idle s" and "client s = Some c" and "\<not> dns_refresh_inflight c"
    and "length (c_string (dns_name c)) < 494" and eps: "eps = concat (map (endpoints_of addrs) recs)"
  shows "\<exists>s' c'. r_dns_start_refresh hk s = Some (RCLIENT_OK, s') \<and> client s' = Some c' \<and> dns_only c c'
    \<and> servers c' = (if eps = [] then servers c else eps)
    \<and> \<not> dns_refresh_inflight c' \<and> dns_refresh c' = None \<and> refreshes s' = refreshes s \<and> lookups s' = lookups s"
proof -
  note mid = assms(2) [unfolded dns_idle_def]
  let ?r = "next_ptr s"
  let ?l = "next_ptr s + 1"
  have fr: "refreshes s ?r = None" using dns_mid_D(1) [OF mid, of ?r] by (cases "refreshes s ?r") auto
  have fl: "lookups s l = None" if "?r \<le> l" for l
    using dns_mid_D(4) [OF mid, of l] that by (cases "lookups s l") auto
  let ?rf0 = "\<lparr>attached = True, detached = False, pending = 0, scheduling = 0, rf_lookups = [],
       endpoints = [], endpoint_cap = 0, min_ttl_ms = 0\<rparr> :: r_dns_refresh"
  let ?c0 = "c\<lparr>dns_refresh_inflight := True, dns_refresh := Some ?r\<rparr>"
  let ?s0 = "put_client ?c0 (put_refresh ?r ?rf0 (s\<lparr>next_ptr := ?r + 1\<rparr>))"
  let ?lk = "\<lparr>lk_refresh = Some ?r, lk_req_id = None, completed = False, in_resolver_call = True,
               lk_port = 0, lk_server_id = 0, lk_has_server_id = False\<rparr>"
  let ?rf1 = "?rf0\<lparr>pending := 1, scheduling := 1, rf_lookups := [?l]\<rparr>"
  define s1 where "s1 = ?s0\<lparr>next_ptr := ?l + 1, lookups := (lookups s)(?l := Some ?lk),
     refreshes := (refreshes s)(?r := Some ?rf1)\<rparr>"
  have new: "r_dns_lookup_new ?r 0 0 False ?s0 = Some (?l, s1)"
    by (auto simp: r_dns_lookup_new_def r_dns_lookup_link_def store_defs Let_def s1_def intro!: sys.equality)
  let ?name = "cstr ''_ratelimitly._udp.'' @ c_string (dns_name c)"
  have nl: "\<not> 512 \<le> length ?name" using assms(5) by (simp add: cstr_def)
  let ?s2 = "emit (Ev_Resolve_Srv ?name) s1"
  have h: "h_resolve_srv hk nm w = ((True, 0, Some (True, recs)), w)" for nm w using pr by (simp add: prompt_resolver_def)
  have "\<exists>cap tr n mn'. r_dns_schedule_targets hk ?r recs 0 ?s2 = Some (mn', ?s2\<lparr>refreshes := (refreshes ?s2)(?r :=
        Some (?rf1\<lparr>endpoints := endpoints ?rf1 @ eps, endpoint_cap := cap\<rparr>)), next_ptr := n, trace := tr\<rparr>)"
    unfolding eps by (rule schedule_targets_prompt [OF pr]) (auto simp: s1_def fl)
  then obtain cap tr n mn where t: "r_dns_schedule_targets hk ?r recs 0 ?s2 = Some (mn, ?s2\<lparr>refreshes := (refreshes ?s2)(?r :=
        Some (?rf1\<lparr>endpoints := eps, endpoint_cap := cap\<rparr>)), next_ptr := n, trace := tr\<rparr>)" by auto
  define rf3 where "rf3 = (if recs = [] then ?rf1 else ?rf1\<lparr>endpoints := eps, endpoint_cap := cap, min_ttl_ms := mn\<rparr>)\<lparr>pending := 0\<rparr>"
  define s3 where "s3 = s1\<lparr>refreshes := (refreshes s)(?r := Some rf3), lookups := (lookups s)(?l := Some (?lk\<lparr>completed := True\<rparr>)),
     next_ptr := if recs = [] then next_ptr s1 else n, trace := if recs = [] then trace s1 @ [Ev_Resolve_Srv ?name] else tr\<rparr>"
  have cl1: "client s1 = Some ?c0" "lookups s1 ?l = Some ?lk" "refreshes s1 ?r = Some ?rf1"
    by (simp_all add: s1_def)
  have cb: "r_dns_srv_cb_fn hk ?l True recs ?s2 = Some s3"
  proof (cases "recs = []")
    case True
    then show ?thesis using cl1
      by (auto simp: r_dns_srv_cb_fn_def r_dns_lookup_finish_def r_dns_refresh_maybe_complete_def Let_def store_defs s3_def rf3_def
          s1_def intro!: sys.equality upd_cong)
  next
    case False
    then show ?thesis using cl1 t
      by (auto simp: r_dns_srv_cb_fn_def r_dns_lookup_finish_def r_dns_refresh_maybe_complete_def Let_def store_defs s3_def rf3_def
          s1_def intro!: sys.equality upd_cong)
  qed
  define rf4 where "rf4 = rf3\<lparr>rf_lookups := [], scheduling := 0\<rparr>"
  define s4 where "s4 = s3\<lparr>refreshes := (refreshes s)(?r := Some rf4), lookups := lookups s\<rparr>"
  have r3: "refreshes s3 ?r = Some rf3" "lookups s3 ?l = Some (?lk\<lparr>completed := True\<rparr>)" "rf_lookups rf3 = [?l]" "scheduling rf3 = 1"
    by (simp_all add: s3_def rf3_def)
  have ret: "r_dns_resolver_returned hk ?r ?l True 0 s3 =
      (r_dns_refresh_maybe_complete hk (Some ?r) s4 \<bind> (\<lambda>s'. Some (RCLIENT_OK, s')))"
    using r3 fl [of ?l]
    by (auto simp: r_dns_resolver_returned_def r_dns_lookup_unlink_def store_defs Let_def s4_def rf4_def s3_def fun_upd_idem
        intro!: complete_cong sys.equality)
  have e4: "endpoints rf4 = eps" using eps by (auto simp: rf4_def rf3_def)
  have a4: "attached rf4" "\<not> detached rf4" "pending rf4 = 0" "scheduling rf4 = 0" "rf_lookups rf4 = []"
    by (simp_all add: rf4_def rf3_def)
  have c4: "client s4 = Some ?c0" "refreshes s4 = (refreshes s)(?r := Some rf4)" "lookups s4 = lookups s"
    by (simp_all add: s4_def s3_def s1_def store_defs)
  have fin: "\<exists>s' c'. r_dns_refresh_maybe_complete hk (Some ?r) s4 = Some s' \<and> client s' = Some c' \<and> dns_only c c'
    \<and> servers c' = (if eps = [] then servers c else eps)
    \<and> \<not> dns_refresh_inflight c' \<and> dns_refresh c' = None \<and> refreshes s' = refreshes s \<and> lookups s' = lookups s"
  proof (cases "eps = []")
    case True
    then show ?thesis using a4 c4 e4 fr
      by (auto simp: r_dns_refresh_maybe_complete_def r_dns_refresh_finish_def r_dns_refresh_free_def store_defs dns_only_def fun_upd_idem)
  next
    case False
    obtain now s5 where now: "r_now_ms hk s4 = (now, s5)" by fastforce
    then have "refreshes s5 = refreshes s4" "lookups s5 = lookups s4" using now_state [OF now] by auto
    then show ?thesis using a4 c4 e4 fr False now
      by (auto simp: r_dns_refresh_maybe_complete_def r_dns_refresh_finish_def r_dns_refresh_free_def store_defs dns_only_def fun_upd_idem)
  qed
  have w: "s1\<lparr>world := world s1\<rparr> = s1" by simp
  have "r_dns_schedule_srv_lookup hk ?r ?name ?s0 =
      (r_dns_refresh_maybe_complete hk (Some ?r) s4 \<bind> (\<lambda>s'. Some (RCLIENT_OK, s')))"
    using prompt_alloc [OF pr, of ?s0] new h [of ?name "world s1"] cb ret
    by (simp add: r_dns_schedule_srv_lookup_def put_refresh_def [of ?r ?rf0] put_client_def)
  then show ?thesis using fin assms(3,4) prompt_alloc [OF pr, of s] nl
    by (auto simp: r_dns_start_refresh_def Let_def)
qed


definition sample_record :: r_srv_record where
  "sample_record = \<lparr>srv_target = Some (cstr ''s-7.example''), srv_port = 0x1f90, srv_ttl_ms = 60000\<rparr>"

definition prompt_hooks :: "nat hooks" where
  "prompt_hooks = sample_hooks\<lparr>h_resolve_srv := (\<lambda>nm w. ((True, 0, Some (True, [sample_record])), w)),
     h_resolve_addrs := (\<lambda>nm w. ((True, 0, Some (True, [sample_addr])), w))\<rparr>"

lemma sample_target: "r_parse_server_id_from_target (srv_target sample_record) = Some 7"
  by code_simp


end
