(* ===== verification/Request.thy ===== *)
theory Request
  imports Dns
begin

text \<open>
  The life of a request in \<^verbatim>\<open>src/r_client.c\<close>: snapshot of the servers, rounds of sends, answers, time-outs,
  completion, cancellation, and the latency report, which shares the packet framing and the send
  path.

  The client argument of every function is the client object of the system state; the tests for a
  null client pointer are therefore not part of the model, all other argument checks are.  A
  request argument is a handle: dereferencing one that is not in flight is undefined behaviour.
\<close>

subsection \<open>Sending\<close>

fun r_collect_ids :: "r_server_endpoint list \<Rightarrow> u64 list \<Rightarrow> u64 list" where
  "r_collect_ids [] ids = ids"
| "r_collect_ids (e # es) ids =
    r_collect_ids es (if list_ex (\<lambda>i. i = ep_server_id e) ids then ids else ids @ [ep_server_id e])"

definition r_request_snapshot_targets ::
  "'w hooks \<Rightarrow> r_client \<Rightarrow> r_client_req \<Rightarrow> 'w sys \<Rightarrow> (r_client_error + r_client_req) \<times> 'w sys" where
  "r_request_snapshot_targets hk c req s =
    (if servers c = [] then (Inl RCLIENT_ERR_DNS, s)
     else
       let (ok, s) = alloc hk s in
       if \<not> ok then (Inl RCLIENT_ERR_NOMEM, s)
       else
         let req = req\<lparr>targets := servers c\<rparr>;
             has_unknown = list_ex (\<lambda>e. \<not> has_server_id e) (servers c) in
         if has_unknown then (Inr (req\<lparr>allowed_ids := []\<rparr>), s)
         else
           let (ok, s) = alloc hk s in
           if \<not> ok then (Inl RCLIENT_ERR_NOMEM, s)
           else (Inr (req\<lparr>allowed_ids := r_collect_ids (servers c) []\<rparr>), s))"

definition r_request_target_responded :: "r_client_req \<Rightarrow> r_server_endpoint \<Rightarrow> bool" where
  "r_request_target_responded req target =
    (if has_server_id target then list_ex (\<lambda>i. i = ep_server_id target) (seen_server_ids req)
     else list_ex (\<lambda>a. r_addr_equal a (ep_addr target)) (seen_addrs req))"

definition r_record_send_failures :: "r_client \<Rightarrow> u64 \<Rightarrow> r_client" where
  "r_record_send_failures c failures =
    (if failures = 0 then c
     else if send_failure_count c > UINT64_MAX - failures then c\<lparr>send_failure_count := UINT64_MAX\<rparr>
     else c\<lparr>send_failure_count := send_failure_count c + failures\<rparr>)"

text \<open>The loops count attempted and delivered datagrams.\<close>

definition udp_send ::
  "(r_addr \<Rightarrow> byte list \<Rightarrow> 'w \<Rightarrow> bool \<times> 'w) \<Rightarrow> r_addr \<Rightarrow> byte list \<Rightarrow> 'w sys \<Rightarrow> bool \<times> 'w sys" where
  "udp_send send to bytes s =
    (let (ok, w) = send to bytes (world s) in (ok, emit (Ev_Send to bytes ok) (s\<lparr>world := w\<rparr>)))"

fun r_send_loop ::
  "(r_addr \<Rightarrow> byte list \<Rightarrow> 'w \<Rightarrow> bool \<times> 'w) \<Rightarrow> r_client_req \<Rightarrow> byte list \<Rightarrow> bool \<Rightarrow> r_server_endpoint list
     \<Rightarrow> nat \<Rightarrow> nat \<Rightarrow> 'w sys \<Rightarrow> nat \<times> nat \<times> 'w sys" where
  "r_send_loop send req bytes missing_only [] attempted delivered s = (attempted, delivered, s)"
| "r_send_loop send req bytes missing_only (t # ts) attempted delivered s =
    (if missing_only \<and> r_request_target_responded req t
     then r_send_loop send req bytes missing_only ts attempted delivered s
     else
       let (ok, s) = udp_send send (ep_addr t) bytes s in
       r_send_loop send req bytes missing_only ts (attempted + 1) (if ok then delivered + 1 else delivered) s)"

definition r_send_packet_to_targets ::
  "'w hooks \<Rightarrow> r_client_req \<Rightarrow> byte list \<Rightarrow> nat \<Rightarrow> bool \<Rightarrow> bool \<Rightarrow> 'w sys \<Rightarrow> (r_client_error \<times> 'w sys) option" where
  "r_send_packet_to_targets hk req pkt pkt_len missing_only best_effort s =
    (if pkt_len = 0 then Some (RCLIENT_ERR_PROTOCOL, s)
     else case h_udp_send hk of
       None \<Rightarrow> Some (RCLIENT_ERR_IO, s)
     | Some send \<Rightarrow> do {
         bytes \<leftarrow> rd_bytes pkt 0 pkt_len;
         let (attempted, delivered, s) = r_send_loop send req bytes missing_only (targets req) 0 0 s;
         if \<not> best_effort \<and> attempted > 0 \<and> delivered = 0 then Some (RCLIENT_ERR_IO, s)
         else if \<not> best_effort \<and> delivered > 0 \<and> delivered < attempted then do {
           c \<leftarrow> client s;
           Some (RCLIENT_OK, put_client (r_record_send_failures c (of_nat (attempted - delivered))) s) }
         else Some (RCLIENT_OK, s) })"

definition r_send_rate_request ::
  "'w hooks \<Rightarrow> r_client_req \<Rightarrow> bool \<Rightarrow> bool \<Rightarrow> 'w sys \<Rightarrow> (r_client_error \<times> 'w sys) option" where
  "r_send_rate_request hk req missing_only best_effort s =
    (if packet_len req = 0 then Some (RCLIENT_ERR_PROTOCOL, s)
     else r_send_packet_to_targets hk req (packet req) (packet_len req) missing_only best_effort s)"

definition r_completion_delivery :: "'w hooks \<Rightarrow> r_client_req \<Rightarrow> 'w sys \<Rightarrow> 'w sys option" where
  "r_completion_delivery hk req s = do {
     c \<leftarrow> client s;
     if \<not> completion_delivery (policy c) then Some s
     else
       let (now, s) = r_now_ms hk s in
       if now \<ge> dedup_deadline_ms req then Some s
       else do {
         (_, s) \<leftarrow> r_send_rate_request hk req True True s;
         Some s } }"

subsection \<open>Rounds\<close>

definition r_start_round ::
  "'w hooks \<Rightarrow> r_client_req \<Rightarrow> u32 \<Rightarrow> 'w sys \<Rightarrow> ((r_client_error \<times> r_client_req) \<times> 'w sys) option" where
  "r_start_round hk req round s = do {
     c \<leftarrow> client s;
     let p = policy c;
     if round > replay_count p then Some ((RCLIENT_ERR_TIMEOUT, req), s)
     else do {
       let (now, s) = r_now_ms hk s;
       if now \<ge> dedup_deadline_ms req then Some ((RCLIENT_ERR_TIMEOUT, req), s)
       else case r_ha_schedule_units (replay_gap p) round False of
         Inl e \<Rightarrow> Some ((e, req), s)
       | Inr gap_units \<Rightarrow> do {
           let start = (if round = 0 then start_ms req else ha_round_deadline_ms req);
           let deadline = start + unit_ms p * ucast gap_units;
           let req = req\<lparr>phase := R_REQUEST_PHASE_ROUND, ha_round := round, ha_round_start_ms := start,
                         ha_round_deadline_ms := deadline,
                         ha_preference_deadline_ms := if round = 0 then deadline else start,
                         attempt_deadline_ms := deadline\<rparr>;
           (rc, s) \<leftarrow> r_send_rate_request hk req (round > 0) False s;
           Some ((rc, req), s) } } }"

definition r_enter_final :: "r_client \<Rightarrow> r_client_req \<Rightarrow> r_client_error \<times> r_client_req" where
  "r_enter_final c req =
    (let p = policy c in
     if final_receive_units p = 0 then (RCLIENT_ERR_TIMEOUT, req)
     else
       let start = ha_round_deadline_ms req;
           deadline = start + unit_ms p * ucast (final_receive_units p) in
       (RCLIENT_OK, req\<lparr>phase := R_REQUEST_PHASE_FINAL, ha_round_start_ms := start,
          ha_preference_deadline_ms := start, ha_round_deadline_ms := deadline,
          attempt_deadline_ms := deadline\<rparr>))"

subsection \<open>Completion\<close>

definition find_req :: "nat \<Rightarrow> r_client \<Rightarrow> r_client_req option" where
  "find_req h c = find (\<lambda>q. handle q = h) (inflight c)"

definition put_req :: "r_client_req \<Rightarrow> r_client \<Rightarrow> r_client" where
  "put_req q c = c\<lparr>inflight := map (\<lambda>q'. if handle q' = handle q then q else q') (inflight c)\<rparr>"

definition r_notify_steering_when_drained :: "'w hooks \<Rightarrow> 'w sys \<Rightarrow> 'w sys option" where
  "r_notify_steering_when_drained hk s = do {
     c \<leftarrow> client s;
     case h_on_steering_feedback hk of
       None \<Rightarrow> Some s
     | Some feedback \<Rightarrow>
         if steering_rebind_pending c \<and> inflight c = [] then
           let s = put_client (c\<lparr>steering_rebind_pending := False\<rparr>) s in
           Some (emit (Ev_Steering False) (s\<lparr>world := feedback False (world s)\<rparr>))
         else Some s }"

text \<open>
  \<open>selected\<close> tells whether the candidate is passed; the callers pass it only when it is set.  The
  callback runs on a state in which the request is no longer in flight; the request object is
  freed after it returned.
\<close>

definition r_request_complete :: "'w hooks \<Rightarrow> nat \<Rightarrow> r_client_error \<Rightarrow> bool \<Rightarrow> 'w sys \<Rightarrow> 'w sys option" where
  "r_request_complete hk h status selected s = do {
     c \<leftarrow> client s;
     req \<leftarrow> find_req h c;
     let has = (selected \<and> best req \<noteq> None);
     let s = (case h_profile_cb hk of
       None \<Rightarrow> s
     | Some profile_cb \<Rightarrow>
         let (completed_ms, s) = r_now_ms hk s;
             profile = \<lparr>wait_ms = (if completed_ms \<ge> start_ms req then completed_ms - start_ms req else 0),
               profile_round = ha_round req,
               profile_phase = (if phase req = R_REQUEST_PHASE_FINAL then R_REQUEST_COMPLETION_FINAL_RECEIVE
                                else R_REQUEST_COMPLETION_ROUND),
               profile_status = status, response_selected = has\<rparr>
         in emit (Ev_Profile profile) (s\<lparr>world := profile_cb profile (world s)\<rparr>));
     s \<leftarrow> (if status = RCLIENT_OK \<and> has then r_completion_delivery hk req s else Some s);
     c \<leftarrow> client s;
     let (_, qs) = r_request_remove h (inflight c);
     let c = c\<lparr>inflight := qs, steering_rebind_pending := steering_rebind_pending c \<or> steering_rebind req\<rparr>;
     let result = (if selected then best req else None);
     let s = emit (Ev_Callback (user req) (Some h) status result) (put_client c s);
     s \<leftarrow> h_cb hk (user req) (Some h) status result s;
     r_notify_steering_when_drained hk s }"

subsection \<open>Submitting\<close>

text \<open>
  \<open>cb\<close> is the callback with its user pointer, \<open>None\<close> for a null callback.  The result carries the
  handle stored to \<open>out_req\<close>.
\<close>

definition r_copy_array :: "'w hooks \<Rightarrow> bool \<Rightarrow> nat \<Rightarrow> 'w sys \<Rightarrow> bool \<times> 'w sys" where
  "r_copy_array hk borrowed count s = (if count > 0 \<and> \<not> borrowed then alloc hk s else (True, s))"

definition r_local_result :: r_rate_limit_result where
  "r_local_result = \<lparr>success = True, result_server_id = 0, result_steering_feedback = False,
     result_guards = [], result_resources = []\<rparr>"

definition r_local_profile :: r_request_profile where
  "r_local_profile = \<lparr>wait_ms = 0, profile_round = 0, profile_phase = R_REQUEST_COMPLETION_ROUND,
     profile_status = RCLIENT_OK, response_selected = False\<rparr>"

text \<open>From the packet to the first round, and before that from the generated identity to the deduplication deadline.\<close>

definition r_first_round ::
  "'w hooks \<Rightarrow> r_client \<Rightarrow> r_client_req \<Rightarrow> 'w sys \<Rightarrow> ((r_client_error + r_client_req) \<times> 'w sys) option" where
  "r_first_round hk c req s = do {
     (r, s) \<leftarrow> r_build_rate_request_packet hk c req (packet req) R_MAX_PACKET_SIZE s;
     case r of
       Inl e \<Rightarrow> Some (Inl e, s)
     | Inr (pkt, len) \<Rightarrow>
         let req = req\<lparr>packet := pkt, packet_len := len\<rparr>;
             (r, s) = r_request_snapshot_targets hk c req s in
         (case r of
            Inl e \<Rightarrow> Some (Inl e, s)
          | Inr req \<Rightarrow> do {
              ((rc, req), s) \<leftarrow> r_start_round hk req 0 s;
              Some (if rc = RCLIENT_OK then Inr req else Inl rc, s) }) }"

definition r_launch_request ::
  "'w hooks \<Rightarrow> r_client_req \<Rightarrow> 'w sys \<Rightarrow> ((r_client_error + r_client_req) \<times> 'w sys) option" where
  "r_launch_request hk req s = do {
     let (r, s) = r_generate_request_id hk s;
     case r of
       Inl e \<Rightarrow> Some (Inl e, s)
     | Inr rid \<Rightarrow> do {
         let (now, s) = r_now_ms hk s;
         let req = req\<lparr>request_id := rid, start_ms := now\<rparr>;
         c \<leftarrow> client s;
         case r_request_policy_ttl_ms (policy c) (quotas c) of
           Inl e \<Rightarrow> Some (Inl e, s)
         | Inr ttl \<Rightarrow>
             if ttl = 0 then Some (Inl RCLIENT_ERR_CONFIG, s)
             else if start_ms req > UINT64_MAX - ucast ttl then Some (Inl RCLIENT_ERR_CONFIG, s)
             else r_first_round hk c (req\<lparr>dedup_ttl_ms := ttl, dedup_deadline_ms := start_ms req + ucast ttl,
                                          phase := R_REQUEST_PHASE_ROUND\<rparr>) s } }"

text \<open>The copy of the metrics label; the flag is false when its allocation failed.\<close>

definition r_copy_label ::
  "'w hooks \<Rightarrow> bool \<Rightarrow> byte list option \<Rightarrow> nat \<Rightarrow> 'w sys \<Rightarrow> (byte list option \<times> nat \<times> bool \<times> 'w sys) option" where
  "r_copy_label hk borrowed metrics_label metrics_label_len s = (case metrics_label of
     Some l \<Rightarrow>
       if nonempty_str metrics_label then
         let len = (if metrics_label_len = 0 then strlen l else metrics_label_len) in
         if borrowed then Some (Some l, len, True, s)
         else do {
           let (ok, s) = alloc hk s;
           if \<not> ok then Some (None, 0, False, s)
           else do {
             copy \<leftarrow> rd_bytes (l @ [0]) 0 len;
             Some (Some copy, len, True, s) } }
       else Some (None, 0, True, s)
   | None \<Rightarrow> Some (None, 0, True, s))"

text \<open>The zeroed request object with its arguments.\<close>

definition r_new_request ::
  "nat \<Rightarrow> nat \<Rightarrow> r_resource_request list \<Rightarrow> r_latency_guard list \<Rightarrow> byte list option \<Rightarrow> nat \<Rightarrow> r_client_req" where
  "r_new_request h usr rs gs lbl len =
    \<lparr>handle = h, request_id = replicate 16 0, user = usr, rq_resources = rs, rq_guards = gs,
     rq_metrics_label = lbl, rq_metrics_label_len = len, targets = [], allowed_ids = [], start_ms = 0,
     attempt_deadline_ms = 0, dedup_deadline_ms = 0, dedup_ttl_ms = 0, phase = R_REQUEST_PHASE_ROUND,
     ha_round = 0, ha_round_start_ms = 0, ha_preference_deadline_ms = 0, ha_round_deadline_ms = 0,
     seen_addrs = [], seen_addr_cap = 0, seen_server_ids = [], seen_server_id_cap = 0,
     steering_rebind = False, packet = replicate R_MAX_PACKET_SIZE 0, packet_len = 0, best = None\<rparr>"

text \<open>From the allocation of the request to its insertion into the list of the client.\<close>

definition r_submit_request ::
  "'w hooks \<Rightarrow> r_resource_request list \<Rightarrow> r_latency_guard list \<Rightarrow> byte list option \<Rightarrow> nat \<Rightarrow> nat \<Rightarrow> bool \<Rightarrow> 'w sys
     \<Rightarrow> ((r_client_error \<times> nat option) \<times> 'w sys) option" where
  "r_submit_request hk rs gs metrics_label metrics_label_len usr borrowed s =
    (let (ok, s) = alloc hk s in
     if \<not> ok then Some ((RCLIENT_ERR_NOMEM, None), s)
     else
     let h = next_ptr s;
         s = s\<lparr>next_ptr := h + 1\<rparr>;
         (ok, s) = r_copy_array hk borrowed (length rs) s in
     if \<not> ok then Some ((RCLIENT_ERR_NOMEM, None), s)
     else
     let (ok, s) = r_copy_array hk borrowed (length gs) s in
     if \<not> ok then Some ((RCLIENT_ERR_NOMEM, None), s)
     else do {
       (lbl, len, ok, s) \<leftarrow> r_copy_label hk borrowed metrics_label metrics_label_len s;
       if \<not> ok then Some ((RCLIENT_ERR_NOMEM, None), s)
       else do {
         (r, s) \<leftarrow> r_launch_request hk (r_new_request h usr rs gs lbl len) s;
         case r of
           Inl e \<Rightarrow> Some ((e, None), s)
         | Inr req \<Rightarrow> do {
             c \<leftarrow> client s;
             Some ((RCLIENT_OK, Some h), put_client (c\<lparr>inflight := req # inflight c\<rparr>) s) } } })"

definition r_client_check_rate_limit_async_impl ::
  "'w hooks \<Rightarrow> r_resource_request list option \<Rightarrow> nat \<Rightarrow> r_latency_guard list option \<Rightarrow> nat \<Rightarrow> byte list option \<Rightarrow> nat
     \<Rightarrow> nat option \<Rightarrow> bool \<Rightarrow> 'w sys \<Rightarrow> ((r_client_error \<times> nat option) \<times> 'w sys) option" where
  "r_client_check_rate_limit_async_impl hk resources resource_count guards guard_count metrics_label
      metrics_label_len cb borrowed s = (case cb of
     None \<Rightarrow> Some ((RCLIENT_ERR_CONFIG, None), s)
   | Some usr \<Rightarrow>
     if resource_count > 0 \<and> resources = None then Some ((RCLIENT_ERR_CONFIG, None), s)
     else if guard_count > 0 \<and> guards = None then Some ((RCLIENT_ERR_CONFIG, None), s)
     else if resource_count = 0 \<and> guard_count = 0 then do {
       let s = (case h_profile_cb hk of
         None \<Rightarrow> s
       | Some profile_cb \<Rightarrow>
           emit (Ev_Profile r_local_profile) (s\<lparr>world := profile_cb r_local_profile (world s)\<rparr>));
       let s = emit (Ev_Callback usr None RCLIENT_OK (Some r_local_result)) s;
       s \<leftarrow> h_cb hk usr None RCLIENT_OK (Some r_local_result) s;
       Some ((RCLIENT_OK, None), s) }
     else do {
       let rs = (case resources of None \<Rightarrow> [] | Some rs \<Rightarrow> rs);
       let gs = (case guards of None \<Rightarrow> [] | Some gs \<Rightarrow> gs);
       _ \<leftarrow> (if resource_count \<le> length rs \<and> guard_count \<le> length gs then Some () else None);
       let rs = take resource_count rs;
       let gs = take guard_count gs;
       c \<leftarrow> client s;
       let rc = r_validate_resource_windows (quotas c) rs;
       if rc \<noteq> RCLIENT_OK then Some ((rc, None), s)
       else do {
         (_, s) \<leftarrow> r_dns_maybe_refresh hk False s;
         c \<leftarrow> client s;
         if servers c = [] then do {
           (_, s) \<leftarrow> r_dns_maybe_refresh hk True s;
           Some ((RCLIENT_ERR_DNS, None), s) }
         else r_submit_request hk rs gs metrics_label metrics_label_len usr borrowed s } })"

definition r_client_check_rate_limit_async where
  "r_client_check_rate_limit_async hk resources resource_count guards guard_count metrics_label metrics_label_len cb s =
    r_client_check_rate_limit_async_impl hk resources resource_count guards guard_count metrics_label
      metrics_label_len cb False s"

definition r_client_check_rate_limit_async_borrowed where
  "r_client_check_rate_limit_async_borrowed hk resources resource_count guards guard_count metrics_label
      metrics_label_len cb s =
    r_client_check_rate_limit_async_impl hk resources resource_count guards guard_count metrics_label
      metrics_label_len cb True s"

subsection \<open>Reporting a latency\<close>

fun r_report_loop ::
  "(r_addr \<Rightarrow> byte list \<Rightarrow> 'w \<Rightarrow> bool \<times> 'w) \<Rightarrow> byte list \<Rightarrow> r_server_endpoint list \<Rightarrow> nat \<Rightarrow> 'w sys \<Rightarrow> nat \<times> 'w sys" where
  "r_report_loop send bytes [] delivered s = (delivered, s)"
| "r_report_loop send bytes (t # ts) delivered s =
    (let (ok, s) = udp_send send (ep_addr t) bytes s in
     r_report_loop send bytes ts (if ok then delivered + 1 else delivered) s)"

text \<open>The packet of a report, with a fresh identity and the current time.\<close>

definition r_build_report_packet ::
  "'w hooks \<Rightarrow> r_service_latency_report list \<Rightarrow> 'w sys \<Rightarrow> ((r_client_error + byte list) \<times> 'w sys) option" where
  "r_build_report_packet hk reports s = do {
     r \<leftarrow> r_build_latency_report_body reports local_buf R_MAX_PACKET_SIZE;
     case r of
       Inl e \<Rightarrow> Some (Inl e, s)
     | Inr (body, body_len) \<Rightarrow> do {
         r \<leftarrow> r_build_pdu R_PDU_LATENCY_REPORT body body_len local_buf R_MAX_PACKET_SIZE;
         case r of
           Inl e \<Rightarrow> Some (Inl e, s)
         | Inr (pdu, pdu_len) \<Rightarrow> do {
             let (r, s) = r_generate_request_id hk s;
             case r of
               Inl e \<Rightarrow> Some (Inl e, s)
             | Inr uid \<Rightarrow> do {
                 let (now, s) = r_now_ms hk s;
                 c \<leftarrow> client s;
                 (r, s) \<leftarrow> r_authenticate_packet hk c (tenant_header_for (cl_key_id c) uid now)
                            pdu pdu_len local_buf R_MAX_PACKET_SIZE s;
                 case r of
                   Inl e \<Rightarrow> Some (Inl e, s)
                 | Inr (pkt, pos) \<Rightarrow> do {
                     bytes \<leftarrow> rd_bytes pkt 0 pos;
                     Some (Inr bytes, s) } } } } }"

definition r_client_report_latency ::
  "'w hooks \<Rightarrow> r_service_latency_report list option \<Rightarrow> nat \<Rightarrow> 'w sys \<Rightarrow> (r_client_error \<times> 'w sys) option" where
  "r_client_report_latency hk reports report_count s = (case reports of
     None \<Rightarrow> Some (RCLIENT_ERR_CONFIG, s)
   | Some reps \<Rightarrow>
     if report_count = 0 then Some (RCLIENT_ERR_CONFIG, s)
     else case h_udp_send hk of
       None \<Rightarrow> Some (RCLIENT_ERR_IO, s)
     | Some send \<Rightarrow> do {
         (_, s) \<leftarrow> r_dns_maybe_refresh hk False s;
         c \<leftarrow> client s;
         if servers c = [] then do {
           (_, s) \<leftarrow> r_dns_maybe_refresh hk True s;
           Some (RCLIENT_ERR_DNS, s) }
         else do {
           _ \<leftarrow> (if report_count \<le> length reps then Some () else None);
           (r, s) \<leftarrow> r_build_report_packet hk (take report_count reps) s;
           case r of
             Inl e \<Rightarrow> Some (e, s)
           | Inr bytes \<Rightarrow> do {
               c \<leftarrow> client s;
               let (delivered, s) = r_report_loop send bytes (servers c) 0 s;
               let server_count = length (servers c);
               if server_count > 0 \<and> delivered = 0 then Some (RCLIENT_ERR_IO, s)
               else if delivered > 0 \<and> delivered < server_count then do {
                 c \<leftarrow> client s;
                 Some (RCLIENT_OK, put_client (r_record_send_failures c (of_nat (server_count - delivered))) s) }
               else Some (RCLIENT_OK, s) } } })"

subsection \<open>Incoming datagrams\<close>

text \<open>An accepted response: the part of the handler behind the parser.\<close>

definition r_apply_response ::
  "'w hooks \<Rightarrow> r_client_req \<Rightarrow> bool \<Rightarrow> u64 \<Rightarrow> r_addr \<Rightarrow> r_guard_result list \<Rightarrow> r_resource_result list \<Rightarrow> bool \<Rightarrow> 'w sys
     \<Rightarrow> (r_client_error \<times> 'w sys) option" where
  "r_apply_response hk req feedback server_id from gs rs ok s = do {
     let req = (if \<not> feedback then req\<lparr>steering_rebind := True\<rparr> else req);
     let (now_ms, s) = r_now_ms hk s;
     let (grow, s) = (if \<not> list_ex (\<lambda>a. r_addr_equal a from) (seen_addrs req)
          \<and> length (seen_addrs req) = seen_addr_cap req then alloc hk s else (True, s));
     let (_, req) = r_seen_addr_add grow req from;
     let (grow, s) = (if \<not> list_ex (\<lambda>i. i = server_id) (seen_server_ids req)
          \<and> length (seen_server_ids req) = seen_server_id_cap req then alloc hk s else (True, s));
     let (_, req) = r_seen_server_add grow req server_id;
     let result = \<lparr>success = ok, result_server_id = server_id, result_steering_feedback = feedback,
       result_guards = [], result_resources = []\<rparr>;
     let (_, bst) = r_candidate_try_update_best (best req) result gs rs;
     let req = req\<lparr>best := bst\<rparr>;
     c \<leftarrow> client s;
     case bst of
       None \<Rightarrow> Some (RCLIENT_OK, put_client (put_req req c) s)
     | Some b \<Rightarrow>
         if r_is_oldest_known_server req (result_server_id b) \<or> now_ms \<ge> ha_preference_deadline_ms req then do {
           s \<leftarrow> r_request_complete hk (handle req) RCLIENT_OK True (put_client (put_req req c) s);
           Some (RCLIENT_OK, s) }
         else if ha_preference_deadline_ms req < attempt_deadline_ms req then
           Some (RCLIENT_OK, put_client (put_req (req\<lparr>attempt_deadline_ms := ha_preference_deadline_ms req\<rparr>) c) s)
         else Some (RCLIENT_OK, put_client (put_req req c) s) }"

definition r_client_on_datagram ::
  "'w hooks \<Rightarrow> byte list option \<Rightarrow> nat \<Rightarrow> r_addr option \<Rightarrow> 'w sys \<Rightarrow> (r_client_error \<times> 'w sys) option" where
  "r_client_on_datagram hk buf len from s = (case (buf, from) of
     (Some buf, Some from) \<Rightarrow>
       if len = 0 then Some (RCLIENT_ERR_PROTOCOL, s)
       else do {
         r \<leftarrow> r_parse_tenant_header buf len;
         case r of
           Inl e \<Rightarrow> Some (e, s)
         | Inr (tenant, pos) \<Rightarrow> do {
             c \<leftarrow> client s;
             case find (\<lambda>q. request_id q = unique_id tenant) (inflight c) of
               None \<Rightarrow> Some (RCLIENT_OK, s)
             | Some req \<Rightarrow> do {
                 let (now, s) = r_now_ms hk s;
                 if now > dedup_deadline_ms req then Some (RCLIENT_OK, s)
                 else
                   let server_id = key_id tenant in
                   if \<not> r_allowed_server_id req server_id then Some (RCLIENT_OK, s)
                   else do {
                     r \<leftarrow> r_extract_pdu_data (h_evp_decrypt hk) c buf len pos R_MAX_PACKET_SIZE;
                     case r of
                       Inl e \<Rightarrow> Some (e, s)
                     | Inr pdu \<Rightarrow> do {
                         (r, s) \<leftarrow> r_parse_rate_response_alloc hk pdu (length pdu) s;
                         case r of
                           Inl e \<Rightarrow> Some (e, s)
                         | Inr (gs, rs, ok) \<Rightarrow>
                             r_apply_response hk req (steering_feedback tenant \<noteq> 0) server_id from gs rs ok s } } } } }
   | _ \<Rightarrow> Some (RCLIENT_ERR_PROTOCOL, s))"

subsection \<open>Time-outs and cancellation\<close>

definition r_client_request_deadline_ms :: "nat option \<Rightarrow> 'w sys \<Rightarrow> (r_client_error + u64) option" where
  "r_client_request_deadline_ms req s = (case req of
     None \<Rightarrow> Some (Inl RCLIENT_ERR_CONFIG)
   | Some h \<Rightarrow> do {
       c \<leftarrow> client s;
       q \<leftarrow> find_req h c;
       Some (Inr (attempt_deadline_ms q)) })"

definition r_request_policy_on_timeout ::
  "'w hooks \<Rightarrow> nat \<Rightarrow> u64 \<Rightarrow> 'w sys \<Rightarrow> (r_client_error \<times> 'w sys) option" where
  "r_request_policy_on_timeout hk h now_ms s = do {
     c \<leftarrow> client s;
     req \<leftarrow> find_req h c;
     if best req \<noteq> None then
       (if now_ms \<ge> ha_preference_deadline_ms req then do {
          s \<leftarrow> r_request_complete hk h RCLIENT_OK True s;
          Some (RCLIENT_OK, s) }
        else Some (RCLIENT_OK, put_client (put_req (req\<lparr>attempt_deadline_ms := ha_preference_deadline_ms req\<rparr>) c) s))
     else if now_ms < ha_round_deadline_ms req then
       Some (RCLIENT_OK, put_client (put_req (req\<lparr>attempt_deadline_ms := ha_round_deadline_ms req\<rparr>) c) s)
     else case phase req of
       R_REQUEST_PHASE_ROUND \<Rightarrow>
         if ha_round req < replay_count (policy c) then do {
           ((rc, req), s) \<leftarrow> r_start_round hk req (ha_round req + 1) s;
           c \<leftarrow> client s;
           let s = put_client (put_req req c) s;
           if rc \<noteq> RCLIENT_OK then do {
             s \<leftarrow> r_request_complete hk h (if rc = RCLIENT_ERR_TIMEOUT then RCLIENT_ERR_TIMEOUT else rc) False s;
             Some (RCLIENT_OK, s) }
           else Some (RCLIENT_OK, s) }
         else do {
           let (rc, req) = r_enter_final c req;
           let s = put_client (put_req req c) s;
           if rc = RCLIENT_ERR_TIMEOUT then do {
             s \<leftarrow> r_request_complete hk h RCLIENT_ERR_TIMEOUT False s;
             Some (RCLIENT_OK, s) }
           else if rc \<noteq> RCLIENT_OK then do {
             s \<leftarrow> r_request_complete hk h rc False s;
             Some (RCLIENT_OK, s) }
           else Some (RCLIENT_OK, s) }
     | R_REQUEST_PHASE_FINAL \<Rightarrow> do {
         s \<leftarrow> r_request_complete hk h RCLIENT_ERR_TIMEOUT False s;
         Some (RCLIENT_OK, s) } }"

definition r_client_on_timeout ::
  "'w hooks \<Rightarrow> nat option \<Rightarrow> u64 \<Rightarrow> 'w sys \<Rightarrow> (r_client_error \<times> 'w sys) option" where
  "r_client_on_timeout hk req now_ms s = (case req of
     None \<Rightarrow> Some (RCLIENT_ERR_CONFIG, s)
   | Some h \<Rightarrow> do {
       c \<leftarrow> client s;
       q \<leftarrow> find_req h c;
       if now_ms < attempt_deadline_ms q then Some (RCLIENT_OK, s)
       else r_request_policy_on_timeout hk h now_ms s })"

definition r_client_send_failure_count :: "r_client option \<Rightarrow> u64" where
  "r_client_send_failure_count cl = (case cl of None \<Rightarrow> 0 | Some c \<Rightarrow> send_failure_count c)"

text \<open>A handle that is not in the list is only compared, so cancelling twice is harmless.\<close>

definition r_client_cancel_request :: "'w hooks \<Rightarrow> nat option \<Rightarrow> 'w sys \<Rightarrow> 'w sys option" where
  "r_client_cancel_request hk req s = (case req of
     None \<Rightarrow> Some s
   | Some h \<Rightarrow> do {
       c \<leftarrow> client s;
       let (found, qs) = r_request_remove h (inflight c);
       if \<not> found then Some s
       else r_notify_steering_when_drained hk (put_client (c\<lparr>inflight := qs\<rparr>) s) })"

end
