(* ===== verification/Request_Inv.thy ===== *)
theory Request_Inv
  imports Request
begin

text \<open>
  The invariant of a client with requests in flight, and that every operation of \<open>Request\<close> keeps it:
  no operation runs into undefined behaviour, every request follows the schedule of its policy, and
  no request is called back twice.  \<open>quiet\<close> describes the steps that only reach the host; \<open>sys_ok\<close> is
  the invariant; \<open>host_ok\<close> collects what the client relies on: the resolver contract, random bytes of
  the requested length, the AES-GCM laws and a completion callback that uses the client correctly.
\<close>

subsection \<open>Facts: what happens besides callbacks\<close>

fun cb_handles :: "event list \<Rightarrow> nat list" where
  "cb_handles [] = []"
| "cb_handles (Ev_Callback u (Some h) st r # es) = h # cb_handles es"
| "cb_handles (e # es) = cb_handles es"

definition is_callback :: "event \<Rightarrow> bool" where
  "is_callback e = (case e of Ev_Callback _ _ _ _ \<Rightarrow> True | _ \<Rightarrow> False)"

lemma cb_handles_append [simp]: "cb_handles (xs @ ys) = cb_handles xs @ cb_handles ys"
  by (induction xs rule: cb_handles.induct) auto

lemma cb_handles_none: "list_all (\<lambda>e. \<not> is_callback e) es \<Longrightarrow> cb_handles es = []"
  by (induction es rule: cb_handles.induct) (auto simp: is_callback_def)

lemma dns_event_no_callback: "list_all dns_event es \<Longrightarrow> cb_handles es = []"
  by (rule cb_handles_none) (auto simp: list_all_iff dns_event_def is_callback_def split: event.splits)

text \<open>Steps that reach the host but neither the DNS heap nor the list of requests.\<close>

definition marks_only :: "r_client \<Rightarrow> r_client \<Rightarrow> bool" where
  "marks_only c c' \<longleftrightarrow> (\<exists>n b. c' = c\<lparr>send_failure_count := n, steering_rebind_pending := b\<rparr>)"

lemma marks_only_refl [simp]: "marks_only c c"
  unfolding marks_only_def by (rule exI [of _ "send_failure_count c"], rule exI [of _ "steering_rebind_pending c"]) simp

lemma marks_only_fields: "marks_only c c' \<Longrightarrow> policy c' = policy c \<and> quotas c' = quotas c \<and> cookie c' = cookie c
  \<and> aes_key c' = aes_key c \<and> dns_policy c' = dns_policy c \<and> inflight c' = inflight c \<and> auth_type c' = auth_type c
  \<and> cl_key_id c' = cl_key_id c \<and> servers c' = servers c \<and> dns_refresh c' = dns_refresh c
  \<and> dns_refresh_inflight c' = dns_refresh_inflight c"
  by (auto simp: marks_only_def)

lemma marks_only_trans: "marks_only a b \<Longrightarrow> marks_only b c \<Longrightarrow> marks_only a c"
proof -
  assume "marks_only a b" "marks_only b c"
  then obtain n x m y where "b = a\<lparr>send_failure_count := n, steering_rebind_pending := x\<rparr>"
    "c = b\<lparr>send_failure_count := m, steering_rebind_pending := y\<rparr>" unfolding marks_only_def by blast
  then have "c = a\<lparr>send_failure_count := m, steering_rebind_pending := y\<rparr>" by simp
  then show ?thesis unfolding marks_only_def by blast
qed

definition quiet :: "'w sys \<Rightarrow> 'w sys \<Rightarrow> bool" where
  "quiet s s' \<longleftrightarrow> refreshes s' = refreshes s \<and> lookups s' = lookups s \<and> next_ptr s' = next_ptr s
     \<and> rel_option marks_only (client s) (client s')
     \<and> (\<exists>evs. trace s' = trace s @ evs \<and> list_all (\<lambda>e. \<not> is_callback e) evs)"

lemma quiet_refl [simp]: "quiet s s"
  by (simp add: quiet_def option.rel_refl)

lemma quiet_trans [trans]: "quiet s t \<Longrightarrow> quiet t u \<Longrightarrow> quiet s u"
proof -
  assume a: "quiet s t" "quiet t u"
  have "rel_option marks_only (client s) (client u)"
    using a by (auto simp: quiet_def option.rel_sel intro: marks_only_trans)
  moreover obtain e1 e2 where "trace t = trace s @ e1" "trace u = trace t @ e2"
    "list_all (\<lambda>e. \<not> is_callback e) e1" "list_all (\<lambda>e. \<not> is_callback e) e2"
    using a by (auto simp: quiet_def)
  ultimately show ?thesis using a by (auto simp: quiet_def)
qed

lemma quiet_world [simp]: "quiet s (s'\<lparr>world := w\<rparr>) = quiet s s'"
  by (simp add: quiet_def)

lemma quiet_emit: "quiet s s' \<Longrightarrow> \<not> is_callback e \<Longrightarrow> quiet s (emit e s')"
  by (auto simp: quiet_def emit_def)

lemma quiet_Some: "quiet s s' \<Longrightarrow> client s = Some c \<Longrightarrow> \<exists>c'. client s' = Some c' \<and> marks_only c c'"
  by (auto simp: quiet_def option_rel_Some1)

lemma quiet_now: "r_now_ms hk s = (t, s') \<Longrightarrow> quiet s s'"
  by (auto simp: r_now_ms_def is_callback_def split: option.splits prod.splits intro!: quiet_emit)

lemma quiet_alloc: "alloc hk s = (ok, s') \<Longrightarrow> quiet s s'"
  using alloc_upd by fastforce

lemma quiet_if_alloc: "(if b then alloc hk s else (True, s)) = (ok, s') \<Longrightarrow> quiet s s'"
  using quiet_alloc by (cases b) auto

lemma quiet_rand: "rand_bytes hk n s = (b, s') \<Longrightarrow> quiet s s'"
  by (auto simp: rand_bytes_def split: prod.splits)

lemma quiet_request_id: "r_generate_request_id hk s = (r, s') \<Longrightarrow> quiet s s'"
  by (auto simp: r_generate_request_id_def split: prod.splits option.splits dest: quiet_rand)

lemma quiet_udp: "udp_send f a b s = (ok, s') \<Longrightarrow> quiet s s'"
  by (auto simp: udp_send_def is_callback_def Let_def split: prod.splits intro!: quiet_emit)

lemma quiet_send_loop: "r_send_loop f req b m ts i j s = (i', j', s') \<Longrightarrow> quiet s s'"
proof (induction ts arbitrary: i j s)
  case (Cons t ts)
  obtain ok s1 where u: "udp_send f (ep_addr t) b s = (ok, s1)" by fastforce
  show ?case
  proof (cases "m \<and> r_request_target_responded req t")
    case False
    then have "quiet s1 s'" using Cons u by (auto split: if_splits)
    then show ?thesis using quiet_udp [OF u] quiet_trans by blast
  qed (use Cons in auto)
qed simp

lemma quiet_report_loop: "r_report_loop f b ts j s = (j', s') \<Longrightarrow> quiet s s'"
proof (induction ts arbitrary: j s)
  case (Cons t ts)
  obtain ok s1 where u: "udp_send f (ep_addr t) b s = (ok, s1)" by fastforce
  then have "quiet s1 s'" using Cons by auto
  then show ?case using quiet_udp [OF u] quiet_trans by blast
qed simp

lemma quiet_put_failures:
  assumes "quiet s s'" and "client s' = Some c" shows "quiet s (put_client (r_record_send_failures c n) s')"
proof -
  have "marks_only c (r_record_send_failures c n)"
  proof -
    define m where "m = send_failure_count (r_record_send_failures c n)"
    have "r_record_send_failures c n = c\<lparr>send_failure_count := m\<rparr>"
      unfolding m_def r_record_send_failures_def by (simp split: if_split)
    then have "r_record_send_failures c n = c\<lparr>send_failure_count := m, steering_rebind_pending := steering_rebind_pending c\<rparr>" by simp
    then show ?thesis unfolding marks_only_def by blast
  qed
  then have "quiet s' (put_client (r_record_send_failures c n) s')"
    using assms(2) by (simp add: quiet_def store_defs)
  then show ?thesis using assms(1) quiet_trans by blast
qed

lemma send_packet_total:
  assumes "client s = Some c" and "pkt_len \<le> length pkt"
  shows "\<exists>rc s'. r_send_packet_to_targets hk req pkt pkt_len m b s = Some (rc, s') \<and> quiet s s'"
proof (cases "pkt_len = 0 \<or> h_udp_send hk = None")
  case False
  then obtain f where f: "h_udp_send hk = Some f" by auto
  obtain i j s1 where l: "r_send_loop f req (take pkt_len pkt) m (targets req) 0 0 s = (i, j, s1)" by (metis prod_cases3)
  note q = quiet_send_loop [OF l]
  obtain c' where c': "client s1 = Some c'" using quiet_Some [OF q assms(1)] by blast
  have "r_send_packet_to_targets hk req pkt pkt_len m b s =
      (if \<not> b \<and> i > 0 \<and> j = 0 then Some (RCLIENT_ERR_IO, s1)
       else if \<not> b \<and> j > 0 \<and> j < i then Some (RCLIENT_OK, put_client (r_record_send_failures c' (of_nat (i - j))) s1)
       else Some (RCLIENT_OK, s1))"
    using False f l c' assms(2) by (simp add: r_send_packet_to_targets_def rd_bytes_def)
  then show ?thesis using q quiet_put_failures [OF q c'] by auto
qed (auto simp: r_send_packet_to_targets_def)

lemma send_request_total:
  assumes "client s = Some c" and "packet_len req \<le> length (packet req)"
  shows "\<exists>rc s'. r_send_rate_request hk req m b s = Some (rc, s') \<and> quiet s s'"
  using send_packet_total [OF assms] by (simp add: r_send_rate_request_def)

lemma completion_delivery_total:
  assumes "client s = Some c" and "packet_len req \<le> length (packet req)"
  shows "\<exists>s'. r_completion_delivery hk req s = Some s' \<and> quiet s s'"
proof -
  obtain now s1 where n: "r_now_ms hk s = (now, s1)" by fastforce
  obtain c1 where "client s1 = Some c1" using quiet_Some [OF quiet_now [OF n] assms(1)] by blast
  from send_request_total [OF this assms(2), of hk True True] obtain rc s2 where
    "r_send_rate_request hk req True True s1 = Some (rc, s2)" "quiet s1 s2" by blast
  then show ?thesis using assms(1) n quiet_now [OF n] quiet_trans [OF quiet_now [OF n]]
    by (auto simp: r_completion_delivery_def)
qed

lemma quiet_snapshot: "r_request_snapshot_targets hk c req s = (r, s') \<Longrightarrow> quiet s s'"
  by (auto simp: r_request_snapshot_targets_def Let_def split: prod.splits if_splits
      dest!: quiet_alloc intro: quiet_trans)

subsection \<open>The invariant of a client\<close>

text \<open>
  A request in flight follows the policy of its client: the deadline of round \<open>k\<close> lies exactly the
  first \<open>k + 1\<close> gaps after the start, and the final receive phase ends with the deduplication time.
  The host is told to come back at the end of the round, or from the preference deadline on when an
  answer is already there.
\<close>

definition end_units :: "r_request_policy \<Rightarrow> r_client_req \<Rightarrow> nat" where
  "end_units p q = (case phase q of
     R_REQUEST_PHASE_ROUND \<Rightarrow> policy_rounds p (unat (ha_round q) + 1)
   | R_REQUEST_PHASE_FINAL \<Rightarrow> policy_units p)"

definition on_schedule :: "r_request_policy \<Rightarrow> r_bech32_quotas option \<Rightarrow> r_client_req \<Rightarrow> bool" where
  "on_schedule p qu q \<longleftrightarrow> policy_valid p qu
     \<and> unat (dedup_deadline_ms q) = unat (start_ms q) + unat (unit_ms p) * policy_units p
     \<and> unat (ha_round_deadline_ms q) = unat (start_ms q) + unat (unit_ms p) * end_units p q
     \<and> unat (ha_round q) \<le> unat (replay_count p)
     \<and> ha_preference_deadline_ms q \<le> attempt_deadline_ms q
     \<and> attempt_deadline_ms q \<le> ha_round_deadline_ms q
     \<and> (best q = None \<longrightarrow> attempt_deadline_ms q = ha_round_deadline_ms q)"

definition req_ok :: "r_client \<Rightarrow> r_client_req \<Rightarrow> bool" where
  "req_ok c q \<longleftrightarrow> length (request_id q) = 16 \<and> 0 < packet_len q \<and> packet_len q \<le> length (packet q)
     \<and> on_schedule (policy c) (quotas c) q"

definition requests_ok :: "nat \<Rightarrow> event list \<Rightarrow> r_client \<Rightarrow> bool" where
  "requests_ok n tr c \<longleftrightarrow> wf_client c \<and> forced_refresh_jitter_ms (dns_policy c) \<noteq> UINT64_MAX
     \<and> distinct (map handle (inflight c))
     \<and> (\<forall>q \<in> set (inflight c). req_ok c q \<and> handle q < n \<and> handle q \<notin> set (cb_handles tr))"

text \<open>
  The trace tells each callback only once: a handle that was called back is used up, it is neither
  in flight nor called back again.
\<close>

definition sys_ok :: "'w sys \<Rightarrow> bool" where
  "sys_ok s \<longleftrightarrow> dns_idle s \<and> distinct (cb_handles (trace s)) \<and> (\<forall>h \<in> set (cb_handles (trace s)). h < next_ptr s)
     \<and> (\<forall>c. client s = Some c \<longrightarrow> requests_ok (next_ptr s) (trace s) c)"

definition host_ok :: "'w hooks \<Rightarrow> bool" where
  "host_ok hk \<longleftrightarrow> resolver_ok hk \<and> rand_laws hk \<and> aead_laws (h_evp_encrypt hk) (h_evp_decrypt hk)
     \<and> (\<forall>u h st r s. sys_ok s \<and> client s \<noteq> None \<longrightarrow>
          (\<exists>s'. h_cb hk u h st r s = Some s' \<and> sys_ok s' \<and> client s' \<noteq> None \<and> (\<exists>evs. trace s' = trace s @ evs)))"

lemma req_ok_cong: "policy c' = policy c \<Longrightarrow> quotas c' = quotas c \<Longrightarrow> req_ok c' q = req_ok c q"
  by (simp add: req_ok_def)

lemma wf_client_cong: "cookie c' = cookie c \<Longrightarrow> aes_key c' = aes_key c \<Longrightarrow> wf_client c' = wf_client c"
  by (simp add: wf_client_def)

lemma requests_ok_mono:
  assumes "requests_ok n tr c" and "n \<le> n'" and "cb_handles tr' = cb_handles tr"
    and "policy c' = policy c" "quotas c' = quotas c" "cookie c' = cookie c" "aes_key c' = aes_key c"
      "dns_policy c' = dns_policy c" "inflight c' = inflight c"
  shows "requests_ok n' tr' c'"
  using assms req_ok_cong [of c' c] wf_client_cong [of c' c] unfolding requests_ok_def by auto

lemma dns_idle_client:
  assumes "dns_idle s" and "refreshes s' = refreshes s" "lookups s' = lookups s" "next_ptr s \<le> next_ptr s'"
    and "rel_option (\<lambda>c c'. dns_refresh c' = dns_refresh c \<and> dns_refresh_inflight c' = dns_refresh_inflight c) (client s) (client s')"
  shows "dns_idle s'"
proof -
  have R: "refreshes_ok None 0 s" and L: "lookups_ok {} s" and C: "client_ok s" using assms(1) by (auto simp: dns_idle_def dns_mid_def)
  have n: "client s' = None \<longleftrightarrow> client s = None" using assms(5) by (cases "client s"; cases "client s'") auto
  have "refreshes_ok None 0 s'" unfolding refreshes_ok_def
  proof (intro allI impI)
    fix r rf assume "refreshes s' r = Some rf"
    then have "refreshes s r = Some rf" by (simp add: assms(2))
    from R [unfolded refreshes_ok_def, rule_format, OF this]
    show "r < next_ptr s' \<and> rf_ok (lookups s') r rf \<and> (attached rf \<longrightarrow> client s' \<noteq> None)
        \<and> (if None = Some r then scheduling rf = 0 else scheduling rf = 0 \<and> 0 < pending rf \<and> \<not> (attached rf \<and> detached rf))"
      using assms(3,4) n by auto
  qed
  moreover have "lookups_ok {} s'" unfolding lookups_ok_def
  proof (intro allI impI)
    fix l lk assume "lookups s' l = Some lk"
    then have "lookups s l = Some lk" by (simp add: assms(3))
    from L [unfolded lookups_ok_def, rule_format, OF this]
    show "l < next_ptr s' \<and> (\<exists>r. lk_refresh lk = Some r \<and> refreshes s' r \<noteq> None)
        \<and> in_resolver_call lk = (l \<in> {}) \<and> (completed lk \<longrightarrow> l \<in> {})" using assms(2,4) by auto
  qed
  moreover have "client_ok s'"
    using C assms(2,5) by (cases "client s"; cases "client s'") (auto simp: client_ok_def)
  ultimately show ?thesis by (simp add: dns_idle_def dns_mid_def)
qed

lemma sys_ok_quiet:
  assumes "sys_ok s" and "quiet s s'" shows "sys_ok s'"
proof -
  have f: "refreshes s' = refreshes s" "lookups s' = lookups s" "next_ptr s' = next_ptr s"
    and r: "rel_option marks_only (client s) (client s')" using assms(2) by (auto simp: quiet_def)
  have t: "cb_handles (trace s') = cb_handles (trace s)" using assms(2) cb_handles_none by (auto simp: quiet_def)
  have "rel_option (\<lambda>c c'. dns_refresh c' = dns_refresh c \<and> dns_refresh_inflight c' = dns_refresh_inflight c) (client s) (client s')"
    by (rule option.rel_mono_strong [OF r]) (auto simp: marks_only_def)
  then have "dns_idle s'" using dns_idle_client [of s s'] assms(1) f by (simp add: sys_ok_def)
  moreover have "requests_ok (next_ptr s') (trace s') c'" if c1: "client s' = Some c'" for c'
  proof -
    obtain c where c: "client s = Some c" "marks_only c c'" using r c1 by (cases "client s") auto
    then have "requests_ok (next_ptr s) (trace s) c" using assms(1) by (simp add: sys_ok_def)
    then show ?thesis by (rule requests_ok_mono) (use c(2) f t in \<open>auto simp: marks_only_def\<close>)
  qed
  ultimately show ?thesis using assms(1) f t by (simp add: sys_ok_def)
qed

lemma dns_only_fields: "dns_only c c' \<Longrightarrow> policy c' = policy c \<and> quotas c' = quotas c \<and> cookie c' = cookie c
  \<and> aes_key c' = aes_key c \<and> dns_policy c' = dns_policy c \<and> inflight c' = inflight c \<and> auth_type c' = auth_type c
  \<and> cl_key_id c' = cl_key_id c \<and> send_failure_count c' = send_failure_count c
  \<and> steering_rebind_pending c' = steering_rebind_pending c \<and> dns_name c' = dns_name c"
  by (cases c, cases c') (simp add: dns_only_def)

lemma sys_ok_dns:
  assumes "sys_ok s" and "dns_frame s s'" and "dns_idle s'" shows "sys_ok s'"
proof -
  have t: "cb_handles (trace s') = cb_handles (trace s)" using assms(2) dns_event_no_callback by (auto simp: dns_frame_def)
  have n: "next_ptr s \<le> next_ptr s'" using assms(2) by (simp add: dns_frame_def)
  have "requests_ok (next_ptr s') (trace s') c'" if c1: "client s' = Some c'" for c'
  proof -
    obtain c where c: "client s = Some c" "dns_only c c'" using assms(2) c1
      by (cases "client s") (auto simp: dns_frame_def)
    then have "requests_ok (next_ptr s) (trace s) c" using assms(1) by (simp add: sys_ok_def)
    then show ?thesis by (rule requests_ok_mono) (use dns_only_fields [OF c(2)] n t in auto)
  qed
  then show ?thesis using assms(1,3) t n by (fastforce simp: sys_ok_def)
qed

lemma maybe_refresh_sys_ok:
  assumes "host_ok hk" and "sys_ok s" and "client s = Some c"
  shows "\<exists>rc s' c'. r_dns_maybe_refresh hk force s = Some (rc, s') \<and> sys_ok s' \<and> dns_frame s s'
    \<and> client s' = Some c' \<and> dns_only c c'"
proof -
  have "dns_idle s" "requests_ok (next_ptr s) (trace s) c" using assms(2,3) by (auto simp: sys_ok_def)
  then have "\<exists>rc s'. r_dns_maybe_refresh hk force s = Some (rc, s') \<and> dns_idle s' \<and> dns_frame s s'"
    using maybe_refresh_ok [OF _ assms(3), of hk force] assms(1) by (auto simp: host_ok_def requests_ok_def)
  then show ?thesis using sys_ok_dns [OF assms(2)] dns_frame_Some [OF _ assms(3)] by blast
qed

text \<open>Changing the list of requests.\<close>

lemma sys_ok_put_client:
  assumes "sys_ok s" and "client s = Some c" and "dns_refresh c' = dns_refresh c" "dns_refresh_inflight c' = dns_refresh_inflight c"
    and "requests_ok (next_ptr s) (trace s) c'"
  shows "sys_ok (put_client c' s)"
proof -
  have "dns_idle (put_client c' s)"
    by (rule dns_idle_client [of s]) (use assms in \<open>auto simp: sys_ok_def store_defs\<close>)
  then show ?thesis using assms(1,5) by (simp add: sys_ok_def store_defs)
qed

subsection \<open>Facts: rounds\<close>

lemma policy_rounds_mono: "m \<le> n \<Longrightarrow> policy_rounds p m \<le> policy_rounds p n"
  unfolding policy_rounds_def by (rule sum_mono2) auto

lemma policy_rounds_Suc: "policy_rounds p (Suc n) = policy_rounds p n + schedule_value (replay_gap p) n"
  by (simp add: policy_rounds_def)

lemma round_le_units: "k \<le> unat (replay_count p) \<Longrightarrow> policy_rounds p (Suc k) \<le> policy_units p"
  using policy_rounds_mono [of "Suc k" "unat (replay_count p) + 1" p] by (simp add: policy_units_def)

lemma end_units_le: "unat (ha_round q) \<le> unat (replay_count p) \<Longrightarrow> end_units p q \<le> policy_units p"
  using round_le_units by (simp add: end_units_def split: r_request_phase.split)

text \<open>A deadline that lies within the deduplication time is computed without wrap-around.\<close>

lemma unat_deadline:
  assumes "unat (a :: u64) + unat u * unat (g :: u32) < 2 ^ 64"
  shows "unat (a + u * ucast g) = unat a + unat u * unat g"
proof -
  have m: "unat (u * ucast g) = unat u * unat g"
    using unat_mult_fits [of u "ucast g"] assms unfolding unat_ucast_u64 by simp
  show ?thesis using unat_add_fits [of a "u * ucast g"] assms unfolding m by simp
qed

definition next_round :: "r_request_policy \<Rightarrow> r_client_req \<Rightarrow> u32 \<Rightarrow> r_client_req" where
  "next_round p req rnd =
    (let start = (if rnd = 0 then start_ms req else ha_round_deadline_ms req);
         deadline = start + unit_ms p * ucast (of_nat (schedule_value (replay_gap p) (unat rnd)) :: u32) in
     req\<lparr>phase := R_REQUEST_PHASE_ROUND, ha_round := rnd, ha_round_start_ms := start,
         ha_round_deadline_ms := deadline, ha_preference_deadline_ms := if rnd = 0 then deadline else start,
         attempt_deadline_ms := deadline\<rparr>)"

lemma next_round_fields [simp]:
  "handle (next_round p q r) = handle q" "request_id (next_round p q r) = request_id q" "packet (next_round p q r) = packet q"
  "packet_len (next_round p q r) = packet_len q" "best (next_round p q r) = best q" "user (next_round p q r) = user q"
  "start_ms (next_round p q r) = start_ms q" "dedup_deadline_ms (next_round p q r) = dedup_deadline_ms q"
  "phase (next_round p q r) = R_REQUEST_PHASE_ROUND" "ha_round (next_round p q r) = r" "targets (next_round p q r) = targets q"
  "steering_rebind (next_round p q r) = steering_rebind q"
  by (simp_all add: next_round_def Let_def)

lemma next_round_schedule:
  assumes "policy_valid p qu" and "unat (dedup_deadline_ms q) = unat (start_ms q) + unat (unit_ms p) * policy_units p"
    and "unat rnd \<le> unat (replay_count p)"
    and "rnd = 0 \<or> on_schedule p qu q \<and> phase q = R_REQUEST_PHASE_ROUND \<and> rnd = ha_round q + 1 \<and> ha_round q < replay_count p"
  shows "on_schedule p qu (next_round p q rnd)"
proof -
  let ?U = "unat (unit_ms p)" let ?v = "schedule_value (replay_gap p) (unat rnd)"
  let ?a = "if rnd = 0 then start_ms q else ha_round_deadline_ms q"
  let ?d = "?a + unit_ms p * ucast (of_nat ?v :: u32)"
  have v: "unat (of_nat ?v :: u32) = ?v"
    using schedule_value_bounds(3) [of False "replay_gap p" "unat rnd"] assms(1)
    by (simp add: policy_valid_def unat_of_nat take_bit_nat_eq_self)
  have a: "unat ?a = unat (start_ms q) + ?U * policy_rounds p (unat rnd)"
  proof (cases "rnd = 0")
    case False
    then have h: "on_schedule p qu q" "phase q = R_REQUEST_PHASE_ROUND" "rnd = ha_round q + 1" "ha_round q < replay_count p"
      using assms(4) by auto
    then have "unat rnd = unat (ha_round q) + 1"
      using unat_add_fits [of "ha_round q" 1] unat_bound [of "replay_count p"] by (simp add: word_less_nat_alt)
    then show ?thesis using h False by (simp add: on_schedule_def end_units_def)
  qed (simp add: policy_rounds_def)
  have le: "?U * policy_rounds p (Suc (unat rnd)) \<le> ?U * policy_units p"
    using round_le_units [OF assms(3)] by simp
  have s: "unat ?a + ?U * ?v = unat (start_ms q) + ?U * policy_rounds p (Suc (unat rnd))"
    unfolding a policy_rounds_Suc by (simp add: algebra_simps)
  have "unat (dedup_deadline_ms q) < 2 ^ 64" using unat_bound [of "dedup_deadline_ms q"] by simp
  then have "unat ?a + ?U * ?v < 2 ^ 64" unfolding s using le assms(2) by linarith
  then have d: "unat ?d = unat (start_ms q) + ?U * policy_rounds p (Suc (unat rnd))"
    using unat_deadline [of ?a "unit_ms p" "of_nat ?v"] s unfolding v by simp
  have "?a \<le> ?d" unfolding word_le_nat_alt d a policy_rounds_Suc by simp
  then show ?thesis using assms(1-3) d
    by (cases "rnd = 0") (simp add: on_schedule_def end_units_def, simp add: next_round_def Let_def)+
qed

lemma start_round_cases:
  assumes "client s = Some c" and "policy_valid (policy c) (quotas c)" and "packet_len q \<le> length (packet q)"
  shows "\<exists>rc s'. quiet s s' \<and>
    (r_start_round hk q rnd s = Some ((rc, q), s') \<and> rc = RCLIENT_ERR_TIMEOUT
     \<or> unat rnd \<le> unat (replay_count (policy c)) \<and> r_start_round hk q rnd s = Some ((rc, next_round (policy c) q rnd), s'))"
proof -
  let ?p = "policy c"
  obtain now s1 where n: "r_now_ms hk s = (now, s1)" by fastforce
  have g: "r_ha_schedule_units (replay_gap ?p) rnd False = Inr (of_nat (schedule_value (replay_gap ?p) (unat rnd)))"
    using assms(2) by (simp add: r_ha_schedule_units_eq policy_valid_def)
  obtain c1 where "client s1 = Some c1" using quiet_Some [OF quiet_now [OF n] assms(1)] by blast
  from send_request_total [OF this, of "next_round ?p q rnd" hk "rnd > 0" False] assms(3) obtain rc s2 where
    s2: "r_send_rate_request hk (next_round ?p q rnd) (rnd > 0) False s1 = Some (rc, s2)" "quiet s1 s2" by auto
  have q2: "quiet s s2" using quiet_now [OF n] s2(2) quiet_trans by blast
  show ?thesis
  proof (cases "rnd > replay_count ?p \<or> now \<ge> dedup_deadline_ms q")
    case True
    then have "r_start_round hk q rnd s = Some ((RCLIENT_ERR_TIMEOUT, q), s)
        \<or> r_start_round hk q rnd s = Some ((RCLIENT_ERR_TIMEOUT, q), s1)"
      using assms(1) n by (cases "rnd > replay_count ?p") (simp_all add: r_start_round_def)
    then show ?thesis using quiet_now [OF n] quiet_refl [of s] by blast
  next
    case False
    then have "r_start_round hk q rnd s = Some ((rc, next_round ?p q rnd), s2)"
      using assms(1) n g s2(1) by (simp add: r_start_round_def next_round_def Let_def)
    moreover have "unat rnd \<le> unat (replay_count ?p)" using False by (simp add: word_less_nat_alt)
    ultimately show ?thesis using q2 by blast
  qed
qed

lemma enter_final_schedule:
  assumes "on_schedule (policy c) qu q" and "phase q = R_REQUEST_PHASE_ROUND" and "\<not> ha_round q < replay_count (policy c)"
    and "r_enter_final c q = (rc, q')"
  shows "(rc = RCLIENT_ERR_TIMEOUT \<and> q' = q) \<or>
    (rc = RCLIENT_OK \<and> on_schedule (policy c) qu q' \<and> phase q' = R_REQUEST_PHASE_FINAL \<and> handle q' = handle q
      \<and> request_id q' = request_id q \<and> packet q' = packet q \<and> packet_len q' = packet_len q \<and> best q' = best q
      \<and> user q' = user q \<and> steering_rebind q' = steering_rebind q)"
proof (cases "final_receive_units (policy c) = 0")
  case False
  let ?p = "policy c" let ?U = "unat (unit_ms ?p)" let ?f = "final_receive_units ?p"
  let ?d = "ha_round_deadline_ms q + unit_ms ?p * ucast ?f"
  have r: "unat (ha_round q) = unat (replay_count ?p)"
    using assms(1,3) by (auto simp: on_schedule_def word_less_nat_alt)
  have e: "unat (ha_round_deadline_ms q) = unat (start_ms q) + ?U * policy_rounds ?p (unat (replay_count ?p) + 1)"
    using assms(1,2) r by (simp add: on_schedule_def end_units_def)
  have s: "unat (ha_round_deadline_ms q) + ?U * unat ?f = unat (start_ms q) + ?U * policy_units ?p"
    unfolding e policy_units_def by (simp add: algebra_simps)
  have b: "unat (start_ms q) + ?U * policy_units ?p < 2 ^ 64"
    using assms(1) unat_bound [of "dedup_deadline_ms q"] by (simp add: on_schedule_def)
  have d: "unat ?d = unat (start_ms q) + ?U * policy_units ?p"
    using unat_deadline [of "ha_round_deadline_ms q" "unit_ms ?p" ?f] s b by simp
  have "ha_round_deadline_ms q \<le> ?d" unfolding word_le_nat_alt d using s by simp
  then show ?thesis using assms False d by (auto simp: r_enter_final_def on_schedule_def end_units_def Let_def)
qed (use assms(4) in \<open>auto simp: r_enter_final_def\<close>)

subsection \<open>Facts: the list of requests\<close>

lemma find_req_Some: "find_req h c = Some q \<Longrightarrow> q \<in> set (inflight c) \<and> handle q = h"
  by (auto simp: find_req_def find_Some_iff)

lemma find_req_None: "find_req h c = None \<longleftrightarrow> h \<notin> handle ` set (inflight c)"
  by (auto simp: find_req_def find_None_iff)

lemma put_req_fields [simp]:
  "map handle (inflight (put_req q c)) = map handle (inflight c)" "policy (put_req q c) = policy c"
  "quotas (put_req q c) = quotas c" "dns_refresh (put_req q c) = dns_refresh c"
  "dns_refresh_inflight (put_req q c) = dns_refresh_inflight c" "servers (put_req q c) = servers c"
  "set (inflight (put_req q c)) \<subseteq> insert q (set (inflight c))"
  by (auto simp: put_req_def)

lemma find_map_update:
  "find (\<lambda>q. handle q = h) qs = Some q \<Longrightarrow> handle q' = h \<Longrightarrow>
   find (\<lambda>q. handle q = h) (map (\<lambda>q. if handle q = h then q' else q) qs) = Some q'"
  by (induction qs) (auto split: if_splits)

lemma find_put_req: "find_req h c = Some q \<Longrightarrow> handle q' = h \<Longrightarrow> find_req h (put_req q' c) = Some q'"
  unfolding find_req_def put_req_def by (simp add: find_map_update)

lemma request_remove_filter:
  "distinct (map handle qs) \<Longrightarrow> r_request_remove h qs = (h \<in> handle ` set qs, filter (\<lambda>q. handle q \<noteq> h) qs)"
proof (induction qs)
  case (Cons q qs)
  have "filter (\<lambda>q'. handle q' \<noteq> handle q) qs = qs" using Cons.prems by (simp add: filter_id_conv) (metis imageI)
  with Cons show ?case by auto
qed simp

lemma requests_ok_put:
  assumes "requests_ok n tr c" and "find_req h c = Some q" and "handle q' = h" and "req_ok c q'"
  shows "requests_ok n tr (put_req q' c)"
proof -
  have "q \<in> set (inflight c)" "handle q = h" using find_req_Some [OF assms(2)] by auto
  then have "handle q' < n" "handle q' \<notin> set (cb_handles tr)" using assms(1,3) by (auto simp: requests_ok_def)
  then have "req_ok c x \<and> handle x < n \<and> handle x \<notin> set (cb_handles tr)" if "x \<in> set (inflight (put_req q' c))" for x
    using that assms(1,4) subsetD [OF put_req_fields(7) that] by (auto simp: requests_ok_def)
  moreover have "req_ok (put_req q' c) x = req_ok c x" for x by (rule req_ok_cong) simp_all
  moreover have "wf_client (put_req q' c) = wf_client c" by (simp add: wf_client_def put_req_def)
  moreover have "dns_policy (put_req q' c) = dns_policy c" by (simp add: put_req_def)
  ultimately show ?thesis using assms(1) unfolding requests_ok_def by simp
qed

lemma requests_ok_remove:
  assumes "requests_ok n tr c" and "set (cb_handles tr') \<subseteq> insert h (set (cb_handles tr))"
  shows "requests_ok n tr' (c\<lparr>inflight := snd (r_request_remove h (inflight c)), steering_rebind_pending := x\<rparr>)"
proof -
  let ?c = "c\<lparr>inflight := snd (r_request_remove h (inflight c)), steering_rebind_pending := x\<rparr>"
  have d: "distinct (map handle (inflight c))" using assms(1) by (simp add: requests_ok_def)
  have i: "inflight ?c = filter (\<lambda>q. handle q \<noteq> h) (inflight c)" by (simp add: request_remove_filter [OF d])
  have "req_ok ?c q = req_ok c q" for q by (rule req_ok_cong) simp_all
  moreover have "wf_client ?c = wf_client c" by (simp add: wf_client_def)
  moreover have "dns_policy ?c = dns_policy c" by simp
  moreover have "distinct (map handle (filter (\<lambda>q. handle q \<noteq> h) (inflight c)))" using d by (simp add: distinct_map_filter)
  ultimately show ?thesis using assms unfolding requests_ok_def i by auto
qed

lemma notify_total: "client s = Some c \<Longrightarrow> \<exists>s'. r_notify_steering_when_drained hk s = Some s' \<and> quiet s s'"
proof (cases "h_on_steering_feedback hk")
  case (Some f)
  assume c: "client s = Some c"
  let ?s = "put_client (c\<lparr>steering_rebind_pending := False\<rparr>) s"
  have "c\<lparr>steering_rebind_pending := False\<rparr> = c\<lparr>send_failure_count := send_failure_count c, steering_rebind_pending := False\<rparr>" by simp
  then have "marks_only c (c\<lparr>steering_rebind_pending := False\<rparr>)" unfolding marks_only_def by blast
  then have "quiet s ?s" using c by (simp add: quiet_def store_defs)
  then have "quiet s (emit (Ev_Steering False) (?s\<lparr>world := f False (world ?s)\<rparr>))"
    by (intro quiet_emit) (simp_all add: is_callback_def)
  then show ?thesis using Some c by (auto simp: r_notify_steering_when_drained_def Let_def)
qed (auto simp: r_notify_steering_when_drained_def)

subsection \<open>Facts: completion\<close>

definition profile_of :: "r_client_req \<Rightarrow> r_client_error \<Rightarrow> bool \<Rightarrow> u64 \<Rightarrow> r_request_profile" where
  "profile_of q st has t =
     \<lparr>wait_ms = (if t \<ge> start_ms q then t - start_ms q else 0), profile_round = ha_round q,
      profile_phase = (if phase q = R_REQUEST_PHASE_FINAL then R_REQUEST_COMPLETION_FINAL_RECEIVE else R_REQUEST_COMPLETION_ROUND),
      profile_status = st, response_selected = has\<rparr>"

definition after_profile :: "'w hooks \<Rightarrow> r_client_req \<Rightarrow> r_client_error \<Rightarrow> bool \<Rightarrow> 'w sys \<Rightarrow> 'w sys" where
  "after_profile hk q st has s = (case h_profile_cb hk of None \<Rightarrow> s | Some f \<Rightarrow>
     (let (t, s) = r_now_ms hk s in emit (Ev_Profile (profile_of q st has t)) (s\<lparr>world := f (profile_of q st has t) (world s)\<rparr>)))"

lemma request_complete_eq:
  assumes "client s = Some c" and "find_req h c = Some q" and "has = (sel \<and> best q \<noteq> None)"
  shows "r_request_complete hk h st sel s = do {
     s \<leftarrow> (if st = RCLIENT_OK \<and> has then r_completion_delivery hk q (after_profile hk q st has s)
          else Some (after_profile hk q st has s));
     c \<leftarrow> client s;
     s \<leftarrow> h_cb hk (user q) (Some h) st (if sel then best q else None)
       (emit (Ev_Callback (user q) (Some h) st (if sel then best q else None))
        (put_client (c\<lparr>inflight := snd (r_request_remove h (inflight c)),
           steering_rebind_pending := steering_rebind_pending c \<or> steering_rebind q\<rparr>) s));
     r_notify_steering_when_drained hk s }"
  unfolding r_request_complete_def assms(1,2) bind.simps Let_def after_profile_def profile_of_def assms(3) [symmetric]
  by (simp add: split_def)

lemma complete_prefix:
  assumes "client s = Some c" and "packet_len q \<le> length (packet q)"
  shows "\<exists>s2. (if b then r_completion_delivery hk q (after_profile hk q st has s) else Some (after_profile hk q st has s)) = Some s2
    \<and> quiet s s2"
proof -
  let ?s1 = "after_profile hk q st has s"
  have q1: "quiet s ?s1"
    using quiet_now by (auto simp: after_profile_def is_callback_def split: option.splits prod.splits intro!: quiet_emit)
  obtain c1 where "client ?s1 = Some c1" using quiet_Some [OF q1 assms(1)] by blast
  from completion_delivery_total [OF this assms(2), of hk] obtain s2 where
    "r_completion_delivery hk q ?s1 = Some s2" "quiet ?s1 s2" by blast
  then show ?thesis using q1 quiet_trans [OF q1] by auto
qed

text \<open>The completion calls back on a state that satisfies the invariant, with the request already gone.\<close>

lemma complete_steps:
  assumes "sys_ok s" and "client s = Some c" and "find_req h c = Some q"
  shows "\<exists>s2 c2 s3. quiet s s2 \<and> client s2 = Some c2 \<and> marks_only c c2
    \<and> s3 = emit (Ev_Callback (user q) (Some h) st (if sel then best q else None))
        (put_client (c2\<lparr>inflight := snd (r_request_remove h (inflight c2)),
           steering_rebind_pending := steering_rebind_pending c2 \<or> steering_rebind q\<rparr>) s2)
    \<and> sys_ok s3 \<and> r_request_complete hk h st sel s =
        do { s' \<leftarrow> h_cb hk (user q) (Some h) st (if sel then best q else None) s3; r_notify_steering_when_drained hk s' }"
proof -
  define has where "has = (sel \<and> best q \<noteq> None)"
  let ?s1 = "after_profile hk q st has s"
  have ro: "requests_ok (next_ptr s) (trace s) c" using assms(1,2) by (simp add: sys_ok_def)
  have m: "q \<in> set (inflight c)" "handle q = h" using find_req_Some [OF assms(3)] by auto
  then have rq: "req_ok c q" "h < next_ptr s" "h \<notin> set (cb_handles (trace s))" using ro by (auto simp: requests_ok_def)
  obtain s2 where s2: "(if st = RCLIENT_OK \<and> has then r_completion_delivery hk q ?s1 else Some ?s1) = Some s2" "quiet s s2"
    using complete_prefix [OF assms(2), of q "st = RCLIENT_OK \<and> has" hk st has] rq(1) by (auto simp: req_ok_def)
  obtain c2 where c2: "client s2 = Some c2" "marks_only c c2" using quiet_Some [OF s2(2) assms(2)] by blast
  define s3 where "s3 = emit (Ev_Callback (user q) (Some h) st (if sel then best q else None))
        (put_client (c2\<lparr>inflight := snd (r_request_remove h (inflight c2)),
           steering_rebind_pending := steering_rebind_pending c2 \<or> steering_rebind q\<rparr>) s2)"
  have ok2: "sys_ok s2" using sys_ok_quiet [OF assms(1) s2(2)] .
  have t: "cb_handles (trace s2) = cb_handles (trace s)" "next_ptr s2 = next_ptr s"
    using s2(2) cb_handles_none by (auto simp: quiet_def)
  have r2: "requests_ok (next_ptr s2) (trace s2) c2" using ok2 c2(1) by (simp add: sys_ok_def)
  have "requests_ok (next_ptr s3) (trace s3) (c2\<lparr>inflight := snd (r_request_remove h (inflight c2)),
           steering_rebind_pending := steering_rebind_pending c2 \<or> steering_rebind q\<rparr>)"
    using requests_ok_remove [OF r2, of "trace s3" h] by (simp add: s3_def emit_def store_defs)
  moreover have "dns_idle s3"
    by (rule dns_idle_client [of s2]) (use ok2 c2(1) in \<open>auto simp: sys_ok_def s3_def emit_def store_defs\<close>)
  ultimately have "sys_ok s3" using ok2 rq(2,3) t by (auto simp: sys_ok_def s3_def emit_def store_defs)
  moreover have "r_request_complete hk h st sel s =
      do { s' \<leftarrow> h_cb hk (user q) (Some h) st (if sel then best q else None) s3; r_notify_steering_when_drained hk s' }"
    unfolding request_complete_eq [OF assms(2,3) has_def] s2(1) by (simp add: c2(1) s3_def)
  ultimately show ?thesis using s2(2) c2 s3_def by blast
qed

lemma request_complete_ok:
  assumes "host_ok hk" and "sys_ok s" and "client s = Some c" and "find_req h c = Some q"
  shows "\<exists>s' evs. r_request_complete hk h st sel s = Some s' \<and> sys_ok s' \<and> client s' \<noteq> None
    \<and> trace s' = trace s @ evs \<and> h \<in> set (cb_handles evs)"
proof -
  obtain s2 c2 s3 where k: "quiet s s2" "client s2 = Some c2"
    "s3 = emit (Ev_Callback (user q) (Some h) st (if sel then best q else None))
        (put_client (c2\<lparr>inflight := snd (r_request_remove h (inflight c2)),
           steering_rebind_pending := steering_rebind_pending c2 \<or> steering_rebind q\<rparr>) s2)" "sys_ok s3"
    "r_request_complete hk h st sel s =
        do { s' \<leftarrow> h_cb hk (user q) (Some h) st (if sel then best q else None) s3; r_notify_steering_when_drained hk s' }"
    using complete_steps [OF assms(2-4)] by blast
  obtain e1 where e1: "trace s3 = trace s @ e1" "h \<in> set (cb_handles e1)"
    using k(1,3) by (auto simp: quiet_def emit_def store_defs)
  have "client s3 \<noteq> None" using k(3) by (simp add: emit_def store_defs)
  with k(4) assms(1) obtain s4 e2 where s4: "h_cb hk (user q) (Some h) st (if sel then best q else None) s3 = Some s4"
      "sys_ok s4" "client s4 \<noteq> None" "trace s4 = trace s3 @ e2"
    unfolding host_ok_def by meson
  then obtain c4 where c4: "client s4 = Some c4" by auto
  from notify_total [OF this, of hk] obtain s5 where s5: "r_notify_steering_when_drained hk s4 = Some s5" "quiet s4 s5" by blast
  obtain e3 where "trace s5 = trace s4 @ e3" using s5(2) by (auto simp: quiet_def)
  then have "trace s5 = trace s @ (e1 @ e2 @ e3)" using e1(1) s4(4) by simp
  moreover have "h \<in> set (cb_handles (e1 @ e2 @ e3))" using e1(2) by simp
  ultimately show ?thesis using k(5) s4(1) s5 sys_ok_quiet [OF s4(2) s5(2)] quiet_Some [OF s5(2) c4] by auto
qed

subsection \<open>Facts: time-outs\<close>

definition steps_left :: "r_request_policy \<Rightarrow> r_client_req \<Rightarrow> nat" where
  "steps_left p q = (case phase q of
     R_REQUEST_PHASE_ROUND \<Rightarrow> unat (replay_count p) - unat (ha_round q) + 2
   | R_REQUEST_PHASE_FINAL \<Rightarrow> 1)"

definition in_flight :: "nat \<Rightarrow> r_request_policy \<Rightarrow> (r_client_req \<Rightarrow> bool) \<Rightarrow> 'w sys \<Rightarrow> bool" where
  "in_flight h p Q s \<longleftrightarrow> (\<exists>c q. client s = Some c \<and> policy c = p \<and> find_req h c = Some q \<and> Q q)"

abbreviation waiting :: "nat \<Rightarrow> r_request_policy \<Rightarrow> nat \<Rightarrow> 'w sys \<Rightarrow> bool" where
  "waiting h p n \<equiv> in_flight h p (\<lambda>q. steps_left p q \<le> n)"

text \<open>What a time-out may do with the request \<open>h\<close>: call it back, or leave it in flight in a state of \<open>Q\<close>.\<close>

definition advanced :: "nat \<Rightarrow> r_request_policy \<Rightarrow> (r_client_req \<Rightarrow> bool) \<Rightarrow> 'w sys \<Rightarrow> 'w sys \<Rightarrow> bool" where
  "advanced h p Q s s' \<longleftrightarrow> sys_ok s' \<and> client s' \<noteq> None
     \<and> (\<exists>evs. trace s' = trace s @ evs \<and> (h \<in> set (cb_handles evs) \<or> in_flight h p Q s'))"

text \<open>The states that can follow a request whose round is over.\<close>

definition next_state :: "r_client_req \<Rightarrow> r_client_req \<Rightarrow> bool" where
  "next_state q q' \<longleftrightarrow> phase q = R_REQUEST_PHASE_ROUND \<and> user q' = user q \<and>
     (phase q' = R_REQUEST_PHASE_ROUND \<and> unat (ha_round q') = unat (ha_round q) + 1 \<or> phase q' = R_REQUEST_PHASE_FINAL)"

lemma advanced_complete:
  assumes "host_ok hk" and "sys_ok s" and "client s = Some c" and "find_req h c = Some q"
  shows "\<exists>s'. r_request_complete hk h st sel s = Some s' \<and> advanced h p Q s s'"
  using request_complete_ok [OF assms, of st sel] by (auto simp: advanced_def)

lemma advanced_quiet:
  assumes "advanced h p Q s1 s'" and "quiet s s1" shows "advanced h p Q s s'"
proof -
  obtain e where "trace s1 = trace s @ e" using assms(2) by (auto simp: quiet_def)
  moreover obtain e' where "trace s' = trace s1 @ e'" "h \<in> set (cb_handles e') \<or> in_flight h p Q s'"
    using assms(1) by (auto simp: advanced_def)
  ultimately have "trace s' = trace s @ (e @ e')" "h \<in> set (cb_handles (e @ e')) \<or> in_flight h p Q s'" by auto
  then show ?thesis using assms(1) unfolding advanced_def by blast
qed

lemma sys_ok_put_req:
  assumes "sys_ok s" and "client s = Some c" and "find_req h c = Some q" and "handle q' = h" and "req_ok c q'"
  shows "sys_ok (put_client (put_req q' c) s)" and "client (put_client (put_req q' c) s) = Some (put_req q' c)"
    and "find_req h (put_req q' c) = Some q'"
proof -
  have "requests_ok (next_ptr s) (trace s) c" using assms(1,2) by (simp add: sys_ok_def)
  from requests_ok_put [OF this assms(3-5)] show "sys_ok (put_client (put_req q' c) s)"
    by (intro sys_ok_put_client [OF assms(1,2)]) simp_all
  show "client (put_client (put_req q' c) s) = Some (put_req q' c)" by (simp add: store_defs)
  show "find_req h (put_req q' c) = Some q'" using find_put_req [OF assms(3,4)] .
qed

lemma advanced_put:
  assumes "sys_ok s" and "client s = Some c" and "find_req h c = Some q" and "handle q' = h" and "req_ok c q'"
    and "Q q'"
  shows "advanced h (policy c) Q s (put_client (put_req q' c) s)"
  using sys_ok_put_req [OF assms(1-5)] assms(6)
  by (auto simp: advanced_def in_flight_def store_defs intro!: exI [of _ "[]"])

lemma req_of_sys:
  assumes "sys_ok s" and "client s = Some c" and "find_req h c = Some q"
  shows "req_ok c q" and "handle q = h" and "on_schedule (policy c) (quotas c) q" and "packet_len q \<le> length (packet q)"
    and "policy_valid (policy c) (quotas c)"
proof -
  have "q \<in> set (inflight c)" "handle q = h" using find_req_Some [OF assms(3)] by auto
  then show "req_ok c q" "handle q = h" using assms(1,2) by (auto simp: sys_ok_def requests_ok_def)
  then show "on_schedule (policy c) (quotas c) q" "packet_len q \<le> length (packet q)" "policy_valid (policy c) (quotas c)"
    by (auto simp: req_ok_def on_schedule_def)
qed

lemma replay_advances:
  assumes "host_ok hk" and "sys_ok s" and "client s = Some c" and "find_req h c = Some q"
    and "phase q = R_REQUEST_PHASE_ROUND" and "ha_round q < replay_count (policy c)"
    and "\<And>q'. next_state q q' \<Longrightarrow> unat (ha_round q') \<le> unat (replay_count (policy c)) \<Longrightarrow> phase q' = R_REQUEST_PHASE_ROUND \<Longrightarrow> Q q'"
  shows "\<exists>rc q' s1 c1 s'. r_start_round hk q (ha_round q + 1) s = Some ((rc, q'), s1) \<and> client s1 = Some c1
    \<and> (if rc = RCLIENT_OK then Some (put_client (put_req q' c1) s1)
       else r_request_complete hk h rc False (put_client (put_req q' c1) s1)) = Some s' \<and> advanced h (policy c) Q s s'"
proof -
  note r = req_of_sys [OF assms(2-4)]
  let ?n = "next_round (policy c) q (ha_round q + 1)"
  obtain rc s1 q' where s1: "quiet s s1" "r_start_round hk q (ha_round q + 1) s = Some ((rc, q'), s1)"
      "rc = RCLIENT_ERR_TIMEOUT \<and> q' = q \<or> unat (ha_round q + 1) \<le> unat (replay_count (policy c)) \<and> q' = ?n"
    using start_round_cases [OF assms(3) r(5,4), of hk "ha_round q + 1"] by blast
  obtain c1 where c1: "client s1 = Some c1" "marks_only c c1" using quiet_Some [OF s1(1) assms(3)] by blast
  have f: "policy c1 = policy c" "quotas c1 = quotas c" "inflight c1 = inflight c" using marks_only_fields [OF c1(2)] by auto
  have u: "unat (ha_round q + 1) = unat (ha_round q) + 1"
    using assms(6) unat_add_fits [of "ha_round q" 1] unat_bound [of "replay_count (policy c)"] by (simp add: word_less_nat_alt)
  have l: "unat (ha_round q) < unat (replay_count (policy c))" using assms(6) by (simp add: word_less_nat_alt)
  have n: "on_schedule (policy c) (quotas c) ?n"
    by (rule next_round_schedule) (use r u l assms(5,6) in \<open>auto simp: on_schedule_def\<close>)
  have ok1: "sys_ok s1" using sys_ok_quiet [OF assms(2) s1(1)] .
  have f1: "find_req h c1 = Some q" using assms(4) f(3) by (simp add: find_req_def)
  have h': "handle q' = h" using s1(3) r(2) by auto
  have k': "req_ok c1 q'"
  proof (cases "q' = ?n")
    case True
    then show ?thesis using r(1) n f unfolding req_ok_def by simp
  next
    case False
    then show ?thesis using s1(3) r(1) req_ok_cong [OF f(1,2)] by auto
  qed
  let ?s = "put_client (put_req q' c1) s1"
  note p = sys_ok_put_req [OF ok1 c1(1) f1 h' k']
  show ?thesis
  proof (cases "rc = RCLIENT_OK")
    case True
    then have q': "q' = ?n" using s1(3) by auto
    have "Q q'" unfolding q' by (rule assms(7)) (use assms(5) u l in \<open>simp_all add: next_state_def\<close>)
    then have "advanced h (policy c) Q s1 ?s" using advanced_put [OF ok1 c1(1) f1 h' k'] f(1) by simp
    then show ?thesis using True s1(2) c1(1) advanced_quiet [OF _ s1(1)] by auto
  next
    case False
    obtain s' where s': "r_request_complete hk h rc False ?s = Some s'" "advanced h (policy c) Q ?s s'"
      using advanced_complete [OF assms(1) p(1,2,3)] by blast
    then have "advanced h (policy c) Q s1 s'" by (auto simp: advanced_def store_defs)
    then show ?thesis using False s1(2) c1(1) s'(1) advanced_quiet [OF _ s1(1)] by auto
  qed
qed

lemma final_advances:
  assumes "host_ok hk" and "sys_ok s" and "client s = Some c" and "find_req h c = Some q"
    and "phase q = R_REQUEST_PHASE_ROUND" and "\<not> ha_round q < replay_count (policy c)"
    and "\<And>q'. next_state q q' \<Longrightarrow> phase q' = R_REQUEST_PHASE_FINAL \<Longrightarrow> final_receive_units (policy c) \<noteq> 0 \<Longrightarrow> Q q'" and "r_enter_final c q = (rc, q')"
  shows "\<exists>s'. (if rc = RCLIENT_OK then Some (put_client (put_req q' c) s)
       else r_request_complete hk h rc False (put_client (put_req q' c) s)) = Some s' \<and> advanced h (policy c) Q s s'"
proof -
  note r = req_of_sys [OF assms(2-4)]
  from enter_final_schedule [OF r(3) assms(5,6,8)] consider
    (t) "rc = RCLIENT_ERR_TIMEOUT" "q' = q" | (f) "rc = RCLIENT_OK" "on_schedule (policy c) (quotas c) q'"
      "phase q' = R_REQUEST_PHASE_FINAL" "handle q' = handle q" "request_id q' = request_id q" "packet q' = packet q"
      "packet_len q' = packet_len q" by blast
  then show ?thesis
  proof cases
    case t
    note p = sys_ok_put_req [OF assms(2-4) r(2,1)]
    obtain s' where s': "r_request_complete hk h rc False (put_client (put_req q c) s) = Some s'"
        "advanced h (policy c) Q (put_client (put_req q c) s) s'"
      using advanced_complete [OF assms(1) p(1,2,3)] by blast
    then have "advanced h (policy c) Q s s'" by (auto simp: advanced_def store_defs)
    then show ?thesis using t s'(1) by simp
  next
    case f
    have "req_ok c q'" using r(1) f unfolding req_ok_def by simp
    moreover have "final_receive_units (policy c) \<noteq> 0" using assms(8) f(1) by (auto simp: r_enter_final_def)
    moreover have "user q' = user q" using assms(8) f(1) by (auto simp: r_enter_final_def Let_def split: if_splits)
    ultimately have "Q q'" by (intro assms(7)) (use assms(5) f(3) in \<open>simp_all add: next_state_def\<close>)
    with \<open>req_ok c q'\<close> show ?thesis using advanced_put [OF assms(2-4), of q' Q] f r(2) by simp
  qed
qed

text \<open>A time-out that is due always advances; the branches that only re-arm the timer are not reached.\<close>

lemma due_timeout_advances:
  assumes "host_ok hk" and "sys_ok s" and "client s = Some c" and "find_req h c = Some q"
    and "attempt_deadline_ms q \<le> t"
    and "\<And>q'. next_state q q' \<Longrightarrow> unat (ha_round q') \<le> unat (replay_count (policy c)) \<Longrightarrow> phase q' = R_REQUEST_PHASE_ROUND \<Longrightarrow>
      ha_round q < replay_count (policy c) \<Longrightarrow> Q q'"
    and "\<And>q'. next_state q q' \<Longrightarrow> phase q' = R_REQUEST_PHASE_FINAL \<Longrightarrow> \<not> ha_round q < replay_count (policy c) \<Longrightarrow>
      final_receive_units (policy c) \<noteq> 0 \<Longrightarrow> Q q'"
  shows "\<exists>s'. r_client_on_timeout hk (Some h) t s = Some (RCLIENT_OK, s') \<and> advanced h (policy c) Q s s'"
proof -
  note r = req_of_sys [OF assms(2-4)]
  have e: "r_client_on_timeout hk (Some h) t s = r_request_policy_on_timeout hk h t s"
    using assms(3,4) leD [OF assms(5)] by (simp add: r_client_on_timeout_def)
  have fin: "\<exists>s'. r_request_complete hk h st sel s = Some s' \<and> advanced h (policy c) Q s s'" for st sel
    by (rule advanced_complete [OF assms(1-4)])
  consider (b) "best q \<noteq> None" | (f) "best q = None" "phase q = R_REQUEST_PHASE_FINAL"
    | (r) "best q = None" "phase q = R_REQUEST_PHASE_ROUND" "ha_round q < replay_count (policy c)"
    | (e) "best q = None" "phase q = R_REQUEST_PHASE_ROUND" "\<not> ha_round q < replay_count (policy c)"
    by (cases "phase q") auto
  then show ?thesis
  proof cases
    case b
    have "ha_preference_deadline_ms q \<le> t" using r(3) assms(5) by (auto simp: on_schedule_def)
    then show ?thesis unfolding e using b assms(3,4) fin [of RCLIENT_OK True] by (auto simp: r_request_policy_on_timeout_def)
  next
    case f
    have "\<not> t < ha_round_deadline_ms q" using r(3) assms(5) f by (auto simp: on_schedule_def)
    then show ?thesis unfolding e using f assms(3,4) fin [of RCLIENT_ERR_TIMEOUT False] by (auto simp: r_request_policy_on_timeout_def)
  next
    case r': r
    have "\<not> t < ha_round_deadline_ms q" using r(3) assms(5) r' by (auto simp: on_schedule_def)
    moreover obtain rc q' s1 c1 s' where "r_start_round hk q (ha_round q + 1) s = Some ((rc, q'), s1)" "client s1 = Some c1"
      "(if rc = RCLIENT_OK then Some (put_client (put_req q' c1) s1)
       else r_request_complete hk h rc False (put_client (put_req q' c1) s1)) = Some s'" "advanced h (policy c) Q s s'"
      using replay_advances [OF assms(1-4) r'(2,3), of Q] assms(6) r'(3) by blast
    ultimately show ?thesis unfolding e using r' assms(3,4)
      by (cases "rc = RCLIENT_OK"; cases "rc = RCLIENT_ERR_TIMEOUT") (auto simp: r_request_policy_on_timeout_def Let_def)
  next
    case e': e
    have "\<not> t < ha_round_deadline_ms q" using r(3) assms(5) e' by (auto simp: on_schedule_def)
    moreover obtain rc q' where f: "r_enter_final c q = (rc, q')" by fastforce
    moreover obtain s' where "(if rc = RCLIENT_OK then Some (put_client (put_req q' c) s)
       else r_request_complete hk h rc False (put_client (put_req q' c) s)) = Some s'" "advanced h (policy c) Q s s'"
      using final_advances [OF assms(1-4) e'(2,3) _ f, of Q] assms(7) e'(3) by blast
    ultimately show ?thesis unfolding e using e' assms(3,4)
      by (cases "rc = RCLIENT_OK"; cases "rc = RCLIENT_ERR_TIMEOUT") (auto simp: r_request_policy_on_timeout_def Let_def)
  qed
qed

text \<open>A time-out that is not due changes nothing.\<close>

lemma timeout_ok:
  assumes "host_ok hk" and "sys_ok s" and "client s = Some c" and "find_req h c = Some q"
  shows "\<exists>rc s'. r_client_on_timeout hk (Some h) t s = Some (rc, s') \<and> sys_ok s' \<and> client s' \<noteq> None
    \<and> (\<exists>evs. trace s' = trace s @ evs)"
proof (cases "t < attempt_deadline_ms q")
  case True
  then show ?thesis using assms(2-4) by (simp add: r_client_on_timeout_def)
next
  case False
  then have "attempt_deadline_ms q \<le> t" by simp
  from due_timeout_advances [OF assms this, of "\<lambda>_. True"] show ?thesis unfolding advanced_def by auto
qed

text \<open>
  A host that serves the timer of the request \<open>h\<close>: the \<open>i\<close>-th call happens at the deadline the client
  announced or later, at the latest time of the two the list gives.  It stops when the request is no
  longer in flight.
\<close>

fun fire :: "'w hooks \<Rightarrow> nat \<Rightarrow> u64 list \<Rightarrow> 'w sys \<Rightarrow> 'w sys option" where
  "fire hk h [] s = Some s"
| "fire hk h (t # ts) s = do {
     c \<leftarrow> client s;
     if find_req h c = None then Some s
     else do {
       d \<leftarrow> r_client_request_deadline_ms (Some h) s;
       case d of
         Inl _ \<Rightarrow> None
       | Inr d \<Rightarrow> do {
           (_, s) \<leftarrow> r_client_on_timeout hk (Some h) (max d t) s;
           fire hk h ts s } } }"

lemma steps_left_next:
  assumes "next_state q q'" and "unat (ha_round q') \<le> unat (replay_count p) \<or> phase q' = R_REQUEST_PHASE_FINAL"
  shows "steps_left p q' < steps_left p q"
  using assms by (auto simp: next_state_def steps_left_def)

lemma steps_left_pos: "0 < steps_left p q"
  by (cases "phase q") (simp_all add: steps_left_def)

lemma called_back_gone:
  assumes "sys_ok s" and "client s = Some c" and "h \<in> set (cb_handles (trace s))"
  shows "find_req h c = None"
  using assms by (auto simp: sys_ok_def requests_ok_def find_req_None)

lemma fire_done:
  assumes "sys_ok s" and "client s \<noteq> None" and "h \<in> set (cb_handles (trace s))"
  shows "fire hk h ts s = Some s"
  using assms called_back_gone [OF assms(1) _ assms(3)] by (cases ts) auto

lemma fire_completes:
  assumes "host_ok hk" and "sys_ok s" and "waiting h p (length ts) s"
  shows "\<exists>s'. fire hk h ts s = Some s' \<and> sys_ok s' \<and> h \<in> set (cb_handles (trace s'))"
  using assms(2,3)
proof (induction ts arbitrary: s)
  case Nil
  then obtain q where "steps_left p q \<le> 0" by (auto simp: in_flight_def)
  then show ?case using steps_left_pos [of p q] by simp
next
  case (Cons t ts)
  obtain c q where c: "client s = Some c" "policy c = p" "find_req h c = Some q" "steps_left p q \<le> Suc (length ts)"
    using Cons.prems(2) by (auto simp: in_flight_def)
  obtain s1 where s1: "r_client_on_timeout hk (Some h) (max (attempt_deadline_ms q) t) s = Some (RCLIENT_OK, s1)"
      "advanced h p (\<lambda>q. steps_left p q \<le> length ts) s s1"
    using due_timeout_advances [OF assms(1) Cons.prems(1) c(1,3), of "max (attempt_deadline_ms q) t" "\<lambda>q. steps_left p q \<le> length ts"]
      steps_left_next [of q _ p] c(2,4) by fastforce
  have f: "fire hk h (t # ts) s = fire hk h ts s1"
    using c(1,3) s1(1) by (simp add: r_client_request_deadline_ms_def)
  have ok: "sys_ok s1" "client s1 \<noteq> None" using s1(2) by (auto simp: advanced_def)
  show ?case
  proof (cases "waiting h p (length ts) s1")
    case True
    then show ?thesis using Cons.IH [OF ok(1)] f by simp
  next
    case False
    then have "h \<in> set (cb_handles (trace s1))" using s1(2) by (auto simp: advanced_def)
    then show ?thesis using f fire_done [OF ok] ok(1) by simp
  qed
qed

subsection \<open>Facts: packets are always built\<close>

lemma authenticate_total:
  assumes "wf_client c" and "aead_laws (h_evp_encrypt hk) dec" and "rand_laws hk" and "wf_tenant h"
    and "pdu_len \<le> length pdu" and "length out = 1200"
  shows "\<exists>r s'. r_authenticate_packet hk c h pdu pdu_len out 1200 s = Some (r, s') \<and> quiet s s'
    \<and> (\<forall>p n. r = Inr (p, n) \<longrightarrow> 0 < n \<and> n \<le> length p)"
proof -
  consider (ck) ck where "auth_type c = 1" "cookie c = Some ck" | (aes) key where "auth_type c = 2" "aes_key c = Some key"
    | (no) "\<not> (auth_type c = 1 \<and> cookie c \<noteq> None)" "\<not> (auth_type c = 2 \<and> aes_key c \<noteq> None)"
    by blast
  then show ?thesis
  proof cases
    case ck
    then have l: "length ck = 32" using assms(1) by (simp add: wf_client_def)
    have "length (cookie_packet h ck (take pdu_len pdu)) = 76 + pdu_len"
      using l assms(4,5) by (simp add: cookie_packet_def length_auth_header)
    then show ?thesis using r_authenticate_cookie [OF ck l assms(4,5) _ _ refl, of 1200 out hk s] assms(6) by simp
  next
    case aes
    obtain rnd s' where r: "rand_bytes hk 12 s = (rnd, s')" by fastforce
    have "72 + pdu_len \<le> length p"
      if a: "rnd = Some nonce" "aes_packet (h_evp_encrypt hk) h key nonce (take pdu_len pdu) = Some p" for nonce p
    proof -
      have "length nonce = 12" using assms(3) r a(1) unfolding rand_laws_def rand_bytes_def by (auto split: prod.splits)
      moreover obtain ci tag where "h_evp_encrypt hk key nonce (aes_header h @ nonce) (take pdu_len pdu) = Some (ci, tag)"
        "p = aes_header h @ nonce @ tag @ ci" using a(2) by (auto simp: aes_packet_def bind_eq_Some_conv)
      moreover from this(1) have "length ci = pdu_len" "length tag = 16" using assms(2,5) unfolding aead_laws_def by auto
      ultimately show ?thesis using assms(4) by (simp add: length_auth_header)
    qed
    then show ?thesis using r_authenticate_aes [OF aes assms(4,2,3,5) _ _ _ r, of 1200 out] assms(6) quiet_rand [OF r]
      by (fastforce split: option.splits)
  next
    case no
    obtain e where "r_authenticate_packet hk c h pdu pdu_len out 1200 s = Some (Inl e, s)"
      using no_credential [OF assms(4) _ _ no, of 1200 out hk pdu pdu_len s] assms(6) by auto
    then show ?thesis by simp
  qed
qed

lemma build_packet_total:
  assumes "wf_client c" and "aead_laws (h_evp_encrypt hk) dec" and "rand_laws hk" and "wf_req req" and "length out = R_MAX_PACKET_SIZE"
  shows "\<exists>r s'. r_build_rate_request_packet hk c req out R_MAX_PACKET_SIZE s = Some (r, s') \<and> quiet s s'
    \<and> (\<forall>p n. r = Inr (p, n) \<longrightarrow> 0 < n \<and> n \<le> length p)"
proof -
  obtain ts s1 where t: "(if start_ms req \<noteq> 0 then (start_ms req, s) else r_now_ms hk s) = (ts, s1)" by fastforce
  have q: "quiet s s1" using t quiet_now [of hk s] by (auto split: if_splits)
  have h: "wf_tenant (tenant_header_for (cl_key_id c) (request_id req) ts)"
    using assms(4) by (simp add: wf_tenant_header_for wf_req_def)
  have l: "8 + length (request_body req) \<le> length (request_pdu req @ drop (8 + length (request_body req)) local_buf)"
    by (simp add: length_request_pdu)
  have o: "length out = 1200" using assms(5) by (simp add: R_MAX_PACKET_SIZE_def)
  from authenticate_total [OF assms(1-3) h l o, of s1] obtain r s2 where
    "r_authenticate_packet hk c (tenant_header_for (cl_key_id c) (request_id req) ts)
       (request_pdu req @ drop (8 + length (request_body req)) local_buf) (8 + length (request_body req)) out 1200 s1 = Some (r, s2)"
    "quiet s1 s2" "\<forall>p n. r = Inr (p, n) \<longrightarrow> 0 < n \<and> n \<le> length p" by blast
  then show ?thesis unfolding r_build_rate_request_packet_eq [OF assms(4)] t
    using quiet_trans [OF q, of s2] by (simp add: R_MAX_PACKET_SIZE_def)
qed

lemma request_id_length:
  assumes "rand_laws hk" and "r_generate_request_id hk s = (Inr rid, s')" shows "length rid = 16"
proof -
  obtain b w where "h_rand_bytes hk 16 (world s) = (Some b, w)" "length rid = length b"
    using assms(2) by (auto simp: r_generate_request_id_def rand_bytes_def split: prod.splits option.splits)
  then show ?thesis using assms(1) unfolding rand_laws_def by metis
qed

lemma snapshot_fields:
  assumes "r_request_snapshot_targets hk c req s = (Inr q, s')"
  shows "handle q = handle req" and "request_id q = request_id req" and "packet q = packet req" and "packet_len q = packet_len req"
    and "start_ms q = start_ms req" and "dedup_deadline_ms q = dedup_deadline_ms req" and "targets q = servers c"
  using assms by (auto simp: r_request_snapshot_targets_def Let_def split: prod.splits if_splits)

lemma max_ttl_bound: "max_ttl qu < 2 ^ 32"
  using unat_bound [where 'a=32] by (auto simp: max_ttl_def split: option.splits)

text \<open>The deduplication deadline does not wrap.\<close>

lemma dedup_deadline:
  assumes "r_request_policy_ttl_ms p qu = Inr ttl" and "\<not> start > UINT64_MAX - ucast ttl"
  shows "policy_valid p qu" and "unat (start + ucast ttl :: u64) = unat start + unat (unit_ms p) * policy_units p"
proof -
  show v: "policy_valid p qu" using assms(1) by (auto simp: r_request_policy_ttl_ms_eq split: if_splits)
  then have e: "ttl = of_nat (unat (unit_ms p) * policy_units p)" using assms(1) by (simp add: r_request_policy_ttl_ms_eq)
  have "unat (unit_ms p) * policy_units p < 2 ^ 32"
    using v max_ttl_bound [of qu] by (simp add: policy_valid_def)
  then have t: "unat ttl = unat (unit_ms p) * policy_units p" using unat_of_nat_fits [where 'a=32] unfolding e by (simp del: of_nat_mult)
  have "start \<le> UINT64_MAX - ucast ttl" using assms(2) by simp
  moreover have "unat (UINT64_MAX - ucast ttl :: u64) = 2 ^ 64 - 1 - unat ttl"
  proof (subst unat_sub)
    show "ucast ttl \<le> UINT64_MAX"
      using unat_bound [of "ucast ttl :: u64"] by (simp add: UINT64_MAX_def word_le_nat_alt)
  qed (simp add: UINT64_MAX_def unat_ucast_u64)
  ultimately have "unat start + unat ttl < 2 ^ 64"
    using unat_bound [of ttl] by (simp add: word_le_nat_alt)
  then have "unat (start + ucast ttl :: u64) = unat start + unat ttl"
    using unat_add_fits [of start "ucast ttl"] unfolding unat_ucast_u64 by simp
  then show "unat (start + ucast ttl :: u64) = unat start + unat (unit_ms p) * policy_units p" unfolding t .
qed

subsection \<open>Facts: submitting\<close>

definition launched :: "r_client \<Rightarrow> r_client_req \<Rightarrow> r_client_req \<Rightarrow> bool" where
  "launched c req q \<longleftrightarrow> handle q = handle req \<and> length (request_id q) = 16 \<and> 0 < packet_len q \<and> packet_len q \<le> length (packet q)
     \<and> on_schedule (policy c) (quotas c) q"

lemma first_round_ok:
  assumes "host_ok hk" and "wf_client c" and "client s = Some c" and "wf_req req" and "length (packet req) = R_MAX_PACKET_SIZE"
    and "policy_valid (policy c) (quotas c)"
    and "unat (dedup_deadline_ms req) = unat (start_ms req) + unat (unit_ms (policy c)) * policy_units (policy c)"
  shows "\<exists>r s'. r_first_round hk c req s = Some (r, s') \<and> quiet s s' \<and> (\<forall>q. r = Inr q \<longrightarrow> launched c req q)"
proof -
  have laws: "aead_laws (h_evp_encrypt hk) (h_evp_decrypt hk)" "rand_laws hk" using assms(1) by (auto simp: host_ok_def)
  from build_packet_total [OF assms(2) laws assms(4,5), of s] obtain r3 s3 where
    b: "r_build_rate_request_packet hk c req (packet req) R_MAX_PACKET_SIZE s = Some (r3, s3)" "quiet s s3"
      "\<forall>p n. r3 = Inr (p, n) \<longrightarrow> 0 < n \<and> n \<le> length p" by blast
  show ?thesis
  proof (cases r3)
    case (Inl e)
    then show ?thesis using b by (simp add: r_first_round_def)
  next
    case r3: (Inr pl)
    obtain pkt len where pl: "pl = (pkt, len)" by fastforce
    let ?r3 = "req\<lparr>packet := pkt, packet_len := len\<rparr>"
    have len: "0 < len" "len \<le> length pkt" using b(3) r3 pl by auto
    obtain r4 s4 where sn: "r_request_snapshot_targets hk c ?r3 s3 = (r4, s4)" by fastforce
    have q4: "quiet s s4" using quiet_trans [OF b(2) quiet_snapshot [OF sn]] .
    show ?thesis
    proof (cases r4)
      case (Inl e)
      then show ?thesis using q4 b(1) r3 pl sn by (simp add: r_first_round_def)
    next
      case r4: (Inr q)
      note sf = snapshot_fields [OF sn [unfolded r4]]
      obtain c4 where c4: "client s4 = Some c4" "marks_only c c4" using quiet_Some [OF q4 assms(3)] by blast
      note f4 = marks_only_fields [OF c4(2)]
      have dd: "unat (dedup_deadline_ms q) = unat (start_ms q) + unat (unit_ms (policy c)) * policy_units (policy c)"
        using assms(7) sf by simp
      have lq: "packet_len q \<le> length (packet q)" using sf len by simp
      obtain rc q5 s5 where st: "quiet s4 s5" "r_start_round hk q 0 s4 = Some ((rc, q5), s5)"
          "rc = RCLIENT_ERR_TIMEOUT \<and> q5 = q \<or> q5 = next_round (policy c) q 0"
        using start_round_cases [OF c4(1) _ lq, of hk 0] assms(6) f4 by auto
      have e: "r_first_round hk c req s = Some (if rc = RCLIENT_OK then Inr q5 else Inl rc, s5)"
        using b(1) r3 pl sn r4 st(2) by (simp add: r_first_round_def)
      have "on_schedule (policy c) (quotas c) (next_round (policy c) q 0)"
        by (rule next_round_schedule [OF assms(6) dd]) simp_all
      then show ?thesis using e quiet_trans [OF q4 st(1)] st(3) sf len assms(4) by (auto simp: launched_def wf_req_def)
    qed
  qed
qed

lemma launched_cong: "policy c' = policy c \<Longrightarrow> quotas c' = quotas c \<Longrightarrow> launched c' req q = launched c req q"
  by (simp add: launched_def)

lemma launch_ok:
  assumes "host_ok hk" and "wf_client c" and "client s = Some c" and "list_all wf_resource (rq_resources req)"
    and "list_all wf_guard (rq_guards req)" and "wf_label (rq_metrics_label req) (rq_metrics_label_len req)"
    and "length (packet req) = R_MAX_PACKET_SIZE"
  shows "\<exists>r s'. r_launch_request hk req s = Some (r, s') \<and> quiet s s' \<and> (\<forall>q. r = Inr q \<longrightarrow> launched c req q)"
proof -
  obtain r1 s1 where g: "r_generate_request_id hk s = (r1, s1)" by fastforce
  note q1 = quiet_request_id [OF g]
  show ?thesis
  proof (cases r1)
    case (Inl e)
    then show ?thesis using g q1 by (simp add: r_launch_request_def)
  next
    case (Inr rid)
    have rid: "length rid = 16" using request_id_length [of hk s rid s1] assms(1) g Inr by (simp add: host_ok_def)
    obtain now s2 where n: "r_now_ms hk s1 = (now, s2)" by fastforce
    have q2: "quiet s s2" using quiet_trans [OF q1 quiet_now [OF n]] .
    obtain c2 where c2: "client s2 = Some c2" "marks_only c c2" using quiet_Some [OF q2 assms(3)] by blast
    note f = marks_only_fields [OF c2(2)]
    show ?thesis
    proof (cases "r_request_policy_ttl_ms (policy c) (quotas c)")
      case (Inl e)
      then show ?thesis using g Inr n c2 f q2 by (simp add: r_launch_request_def)
    next
      case ttl: (Inr ttl)
      let ?r = "req\<lparr>request_id := rid, start_ms := now, dedup_ttl_ms := ttl, dedup_deadline_ms := now + ucast ttl,
                    phase := R_REQUEST_PHASE_ROUND\<rparr>"
      have e: "r_launch_request hk req s = (if ttl = 0 \<or> now > UINT64_MAX - ucast ttl then Some (Inl RCLIENT_ERR_CONFIG, s2)
          else r_first_round hk c2 ?r s2)"
        using g Inr n c2 f ttl by (simp add: r_launch_request_def Let_def)
      have "\<exists>r s'. r_first_round hk c2 ?r s2 = Some (r, s') \<and> quiet s2 s' \<and> (\<forall>q. r = Inr q \<longrightarrow> launched c2 ?r q)"
        if a: "\<not> now > UINT64_MAX - ucast ttl"
        by (rule first_round_ok [OF assms(1) _ c2(1)])
          (use assms rid f dedup_deadline [OF ttl a] in \<open>simp_all add: wf_req_def wf_client_def\<close>)
      moreover have "launched c2 ?r q = launched c req q" for q using f by (simp add: launched_def)
      ultimately show ?thesis using e q2 quiet_trans [OF q2] by (cases "ttl = 0 \<or> now > UINT64_MAX - ucast ttl") auto
    qed
  qed
qed

lemma copy_label_total:
  assumes "wf_label label len"
  shows "\<exists>lbl n ok s'. r_copy_label hk b label len s = Some (lbl, n, ok, s') \<and> quiet s s' \<and> wf_label lbl n"
proof (cases "nonempty_str label")
  case True
  then obtain l where l: "label = Some l" by (cases label) (auto simp: nonempty_str_def)
  let ?n = "if len = 0 then strlen l else len"
  have n: "?n \<le> Suc (length l)" using assms l strlen_le [of l] by (auto simp: wf_label_def)
  obtain ok s1 where a: "alloc hk s = (ok, s1)" by fastforce
  have "rd_bytes (l @ [0]) 0 ?n = Some (take ?n (l @ [0]))" using n by (simp add: rd_bytes_def)
  then have "r_copy_label hk b label len s = (if b then Some (Some l, ?n, True, s) else
      if \<not> ok then Some (None, 0, False, s1) else Some (Some (take ?n (l @ [0])), ?n, True, s1))"
    using True l a by (simp add: r_copy_label_def Let_def)
  moreover have "wf_label (Some l) ?n" "wf_label (Some (take ?n (l @ [0]))) ?n" "wf_label None 0"
    using n by (auto simp: wf_label_def)
  ultimately show ?thesis using quiet_alloc [OF a] quiet_refl [of s] by (cases b; cases ok) auto
next
  case False
  then have "r_copy_label hk b label len s = Some (None, 0, True, s)" by (cases label) (simp_all add: r_copy_label_def)
  then show ?thesis by (auto simp: wf_label_def)
qed

lemma quiet_copy_array: "r_copy_array hk b n s = (ok, s') \<Longrightarrow> quiet s s'"
  unfolding r_copy_array_def by (rule quiet_if_alloc)

lemma sys_ok_bump: "sys_ok s \<Longrightarrow> sys_ok (s\<lparr>next_ptr := Suc (next_ptr s)\<rparr>)"
proof -
  assume a: "sys_ok s"
  let ?s = "s\<lparr>next_ptr := Suc (next_ptr s)\<rparr>"
  have "dns_idle ?s" by (rule dns_idle_client [of s]) (use a in \<open>auto simp: sys_ok_def option.rel_refl\<close>)
  moreover have "requests_ok (Suc (next_ptr s)) (trace s) c" if "client s = Some c" for c
    by (rule requests_ok_mono [of "next_ptr s" "trace s" c]) (use a that in \<open>auto simp: sys_ok_def\<close>)
  ultimately show ?thesis using a by (auto simp: sys_ok_def)
qed

text \<open>Inserting a request whose handle is new.\<close>

lemma sys_ok_insert:
  assumes "sys_ok s" and "client s = Some c" and "req_ok c q" and "handle q < next_ptr s"
    and "handle q \<notin> handle ` set (inflight c)" and "handle q \<notin> set (cb_handles (trace s))"
  shows "sys_ok (put_client (c\<lparr>inflight := q # inflight c\<rparr>) s)"
proof (rule sys_ok_put_client [OF assms(1,2)])
  let ?c = "c\<lparr>inflight := q # inflight c\<rparr>"
  have "req_ok ?c x = req_ok c x" for x by (rule req_ok_cong) simp_all
  moreover have "wf_client ?c = wf_client c" by (simp add: wf_client_def)
  moreover have "requests_ok (next_ptr s) (trace s) c" using assms(1,2) by (simp add: sys_ok_def)
  ultimately show "requests_ok (next_ptr s) (trace s) ?c" using assms(3-6) by (simp add: requests_ok_def)
qed simp_all

text \<open>Steps that keep the invariant and call nobody back.\<close>

definition calm :: "'w sys \<Rightarrow> 'w sys \<Rightarrow> bool" where
  "calm s s' \<longleftrightarrow> sys_ok s' \<and> client s' \<noteq> None \<and> next_ptr s \<le> next_ptr s'
     \<and> (\<exists>evs. trace s' = trace s @ evs \<and> list_all (\<lambda>e. \<not> is_callback e) evs)"

lemma calm_trans: "calm s t \<Longrightarrow> calm t u \<Longrightarrow> calm s u"
  by (auto simp: calm_def)

lemma calm_quiet: "sys_ok s \<Longrightarrow> client s \<noteq> None \<Longrightarrow> quiet s s' \<Longrightarrow> calm s s'"
  using sys_ok_quiet [of s s'] quiet_Some [of s s'] by (auto simp: calm_def quiet_def option_rel_Some1)

lemma calm_bump: "sys_ok s \<Longrightarrow> client s \<noteq> None \<Longrightarrow> calm s (s\<lparr>next_ptr := Suc (next_ptr s)\<rparr>)"
  using sys_ok_bump by (auto simp: calm_def)

lemma steps_left_le: "steps_left p q \<le> unat (replay_count p) + 2"
  by (simp add: steps_left_def split: r_request_phase.split)

lemma insert_launched:
  assumes "sys_ok s" and "client s = Some c" and "launched c (r_new_request h usr rs gs lbl n) q" and "h < next_ptr s"
    and "\<forall>q' \<in> set (inflight c). handle q' < h" and "\<forall>h' \<in> set (cb_handles (trace s)). h' < h"
  shows "calm s (put_client (c\<lparr>inflight := q # inflight c\<rparr>) s)"
    and "waiting h (policy c) (unat (replay_count (policy c)) + 2) (put_client (c\<lparr>inflight := q # inflight c\<rparr>) s)"
proof -
  have h: "handle q = h" "req_ok c q" using assms(3) by (auto simp: launched_def req_ok_def r_new_request_def)
  have "sys_ok (put_client (c\<lparr>inflight := q # inflight c\<rparr>) s)"
    by (rule sys_ok_insert [OF assms(1,2)]) (use h assms(4-6) in auto)
  then show "calm s (put_client (c\<lparr>inflight := q # inflight c\<rparr>) s)" by (simp add: calm_def store_defs)
  show "waiting h (policy c) (unat (replay_count (policy c)) + 2) (put_client (c\<lparr>inflight := q # inflight c\<rparr>) s)"
    using h(1) steps_left_le [of "policy c" q] by (simp add: in_flight_def store_defs find_req_def)
qed

lemma submit_request_ok:
  assumes "host_ok hk" and "sys_ok s" and "client s = Some c" and "list_all wf_resource rs" and "list_all wf_guard gs"
    and "wf_label label len"
  shows "\<exists>rc ho s'. r_submit_request hk rs gs label len usr b s = Some ((rc, ho), s') \<and> calm s s'
    \<and> (\<forall>h. ho = Some h \<longrightarrow> rc = RCLIENT_OK \<and> h = next_ptr s \<and> waiting h (policy c) (unat (replay_count (policy c)) + 2) s')"
proof -
  obtain ok1 s1 where a1: "alloc hk s = (ok1, s1)" by fastforce
  note q1 = quiet_alloc [OF a1]
  let ?s2 = "s1\<lparr>next_ptr := Suc (next_ptr s1)\<rparr>" let ?h = "next_ptr s1"
  have n1: "next_ptr s1 = next_ptr s" using q1 by (simp add: quiet_def)
  have ok2: "sys_ok ?s2" using sys_ok_bump [OF sys_ok_quiet [OF assms(2) q1]] .
  obtain ok3 s3 where a3: "r_copy_array hk b (length rs) ?s2 = (ok3, s3)" by fastforce
  obtain ok4 s4 where a4: "r_copy_array hk b (length gs) s3 = (ok4, s4)" by fastforce
  obtain lbl n ok5 s5 where a5: "r_copy_label hk b label len s4 = Some (lbl, n, ok5, s5)" "quiet s4 s5" "wf_label lbl n"
    using copy_label_total [OF assms(6)] by blast
  have q3: "quiet ?s2 s3" using quiet_copy_array [OF a3] .
  have q4: "quiet ?s2 s4" using quiet_trans [OF q3 quiet_copy_array [OF a4]] .
  have q5: "quiet ?s2 s5" using quiet_trans [OF q4 a5(2)] .
  obtain c2 where c2: "client ?s2 = Some c2" "marks_only c c2" using quiet_Some [OF q1 assms(3)] by auto
  obtain c5 where c5: "client s5 = Some c5" "marks_only c2 c5" using quiet_Some [OF q5 c2(1)] by blast
  let ?req = "r_new_request ?h usr rs gs lbl n"
  have wc: "wf_client c5" using sys_ok_quiet [OF ok2 q5] c5(1) by (simp add: sys_ok_def requests_ok_def)
  obtain r s6 where a6: "r_launch_request hk ?req s5 = Some (r, s6)" "quiet s5 s6" "\<forall>q. r = Inr q \<longrightarrow> launched c5 ?req q"
    using launch_ok [OF assms(1) wc c5(1), of ?req] assms(4,5) a5(3) by (auto simp: r_new_request_def)
  have q6: "quiet ?s2 s6" using quiet_trans [OF q5 a6(2)] .
  obtain c6 where c6: "client s6 = Some c6" "marks_only c2 c6" using quiet_Some [OF q6 c2(1)] by blast
  let ?s' = "\<lambda>q. put_client (c6\<lparr>inflight := q # inflight c6\<rparr>) s6"
  have e: "r_submit_request hk rs gs label len usr b s =
     Some (if \<not> ok1 then ((RCLIENT_ERR_NOMEM, None), s1) else if \<not> ok3 then ((RCLIENT_ERR_NOMEM, None), s3)
       else if \<not> ok4 then ((RCLIENT_ERR_NOMEM, None), s4) else if \<not> ok5 then ((RCLIENT_ERR_NOMEM, None), s5)
       else case r of Inl e \<Rightarrow> ((e, None), s6) | Inr q \<Rightarrow> ((RCLIENT_OK, Some ?h), ?s' q))"
    using a1 a3 a4 a5(1) a6(1) c6(1) by (simp add: r_submit_request_def Let_def split: sum.split)
  have k1: "calm s s1" using calm_quiet [OF assms(2) _ q1] assms(3) by simp
  have k2: "calm s ?s2" using calm_trans [OF k1 calm_bump] k1 by (simp add: calm_def)
  have k: "calm s x" if "quiet ?s2 x" for x using calm_trans [OF k2 calm_quiet [OF _ _ that]] k2 by (simp add: calm_def)
  have "calm s (?s' q) \<and> waiting ?h (policy c) (unat (replay_count (policy c)) + 2) (?s' q)" if "r = Inr q" for q
  proof -
    have p: "policy c6 = policy c" "quotas c6 = quotas c" "inflight c6 = inflight c" "policy c5 = policy c" "quotas c5 = quotas c"
      using marks_only_fields c2(2) c5(2) c6(2) by simp_all
    have l: "launched c6 ?req q" using a6(3) that p by (simp add: launched_def)
    have o: "\<forall>h' \<in> set (cb_handles (trace s)). h' < next_ptr s" "\<forall>q' \<in> set (inflight c). handle q' < next_ptr s"
      using assms(2,3) by (auto simp: sys_ok_def requests_ok_def)
    have t: "cb_handles (trace s6) = cb_handles (trace s)" "next_ptr s6 = Suc ?h"
      using q6 k [OF q6] cb_handles_none by (auto simp: calm_def quiet_def)
    have "sys_ok s6" using k [OF q6] by (simp add: calm_def)
    from insert_launched [OF this c6(1) l] have "calm s6 (?s' q)" "waiting ?h (policy c6) (unat (replay_count (policy c6)) + 2) (?s' q)"
      using t o n1 p(3) by auto
    then show ?thesis using calm_trans [OF k [OF q6]] p(1) by simp
  qed
  then show ?thesis using e k1 k [OF q3] k [OF q4] k [OF q5] k [OF q6] n1
    by (cases ok1; cases ok3; cases ok4; cases ok5; cases r) auto
qed

subsection \<open>Facts: the entry points\<close>

text \<open>What every entry point guarantees.\<close>

definition fine :: "'w sys \<Rightarrow> 'w sys \<Rightarrow> bool" where
  "fine s s' \<longleftrightarrow> sys_ok s' \<and> client s' \<noteq> None \<and> (\<exists>evs. trace s' = trace s @ evs)"

lemma fine_calm: "calm s s' \<Longrightarrow> fine s s'"
  by (auto simp: fine_def calm_def)

lemma fine_trans: "fine s t \<Longrightarrow> fine t u \<Longrightarrow> fine s u"
  by (auto simp: fine_def)

lemma fine_advanced: "advanced h p Q s s' \<Longrightarrow> fine s s'"
  by (auto simp: fine_def advanced_def)

lemma calm_dns: "dns_frame s s' \<Longrightarrow> sys_ok s' \<Longrightarrow> client s' \<noteq> None \<Longrightarrow> calm s s'"
  by (auto simp: calm_def dns_frame_def list_all_iff dns_event_def is_callback_def split: event.splits)

lemma maybe_refresh_calm:
  assumes "host_ok hk" and "sys_ok s" and "client s = Some c"
  shows "\<exists>rc s' c'. r_dns_maybe_refresh hk force s = Some (rc, s') \<and> calm s s' \<and> sys_ok s' \<and> client s' = Some c' \<and> dns_only c c'"
  using maybe_refresh_sys_ok [OF assms, of force] calm_dns by fastforce

definition args_ok :: "r_resource_request list option \<Rightarrow> nat \<Rightarrow> r_latency_guard list option \<Rightarrow> nat \<Rightarrow> byte list option \<Rightarrow> nat \<Rightarrow> bool" where
  "args_ok resources rn guards gn label len \<longleftrightarrow>
     (\<forall>rs. resources = Some rs \<longrightarrow> rn \<le> length rs \<and> list_all wf_resource rs)
   \<and> (\<forall>gs. guards = Some gs \<longrightarrow> gn \<le> length gs \<and> list_all wf_guard gs) \<and> wf_label label len"

lemma list_all_take: "list_all P xs \<Longrightarrow> list_all P (take n xs)"
  by (auto simp: list_all_iff dest: in_set_takeD)

lemma local_answer_ok:
  assumes "host_ok hk" and "sys_ok s" and "client s \<noteq> None"
    and "s1 = (case h_profile_cb hk of None \<Rightarrow> s | Some f \<Rightarrow>
           emit (Ev_Profile r_local_profile) (s\<lparr>world := f r_local_profile (world s)\<rparr>))"
    and "s2 = emit (Ev_Callback usr None RCLIENT_OK (Some r_local_result)) s1"
  shows "\<exists>s'. h_cb hk usr None RCLIENT_OK (Some r_local_result) s2 = Some s' \<and> fine s s'"
proof -
  have "quiet s s1" unfolding assms(4) by (auto simp: is_callback_def split: option.split intro!: quiet_emit)
  then have k: "calm s s1" using calm_quiet assms(2,3) by blast
  then have "sys_ok s1" "client s1 \<noteq> None" by (auto simp: calm_def)
  moreover have "sys_ok s2 = sys_ok s1"
    using dns_idle_client [of s1 s2] dns_idle_client [of s2 s1] by (auto simp: assms(5) emit_def sys_ok_def option.rel_refl requests_ok_def)
  ultimately have "sys_ok s2" "client s2 \<noteq> None" by (auto simp: assms(5) emit_def)
  with assms(1) obtain s3 where s3: "h_cb hk usr None RCLIENT_OK (Some r_local_result) s2 = Some s3" "sys_ok s3" "client s3 \<noteq> None"
    "\<exists>evs. trace s3 = trace s2 @ evs" unfolding host_ok_def by blast
  have "fine s2 s3" using s3 by (auto simp: fine_def)
  moreover have "fine s s2" using fine_calm [OF k] \<open>sys_ok s2\<close> by (auto simp: fine_def assms(5) emit_def)
  ultimately show ?thesis using s3(1) fine_trans by blast
qed

lemma check_rate_limit_ok:
  assumes "host_ok hk" and "sys_ok s" and "client s = Some c" and "args_ok resources rn guards gn label len"
  shows "\<exists>rc ho s'. r_client_check_rate_limit_async_impl hk resources rn guards gn label len cb b s = Some ((rc, ho), s') \<and> fine s s'
    \<and> (\<forall>h. ho = Some h \<longrightarrow> rc = RCLIENT_OK \<and> waiting h (policy c) (unat (replay_count (policy c)) + 2) s')"
proof -
  have r: "fine s s" using assms(2,3) by (simp add: fine_def)
  consider (err) "cb = None \<or> (rn > 0 \<and> resources = None) \<or> (gn > 0 \<and> guards = None)"
    | (empty) usr where "cb = Some usr" "rn = 0" "gn = 0"
    | (go) usr where "cb = Some usr" "rn > 0 \<longrightarrow> resources \<noteq> None" "gn > 0 \<longrightarrow> guards \<noteq> None" "rn > 0 \<or> gn > 0"
    by (cases cb; cases "rn = 0"; cases "gn = 0"; cases resources; cases guards) auto
  then show ?thesis
  proof cases
    case err
    then have "r_client_check_rate_limit_async_impl hk resources rn guards gn label len cb b s = Some ((RCLIENT_ERR_CONFIG, None), s)"
      by (auto simp: r_client_check_rate_limit_async_impl_def split: option.split)
    then show ?thesis using r by simp
  next
    case empty
    have "client s \<noteq> None" using assms(3) by simp
    from local_answer_ok [OF assms(1,2) this refl refl, of usr] empty show ?thesis
      by (auto simp: r_client_check_rate_limit_async_impl_def Let_def)
  next
    case go
    let ?rs = "take rn (case resources of None \<Rightarrow> [] | Some rs \<Rightarrow> rs)" let ?gs = "take gn (case guards of None \<Rightarrow> [] | Some gs \<Rightarrow> gs)"
    have wf: "list_all wf_resource ?rs" "list_all wf_guard ?gs" "wf_label label len"
      using assms(4) by (auto simp: args_ok_def list_all_take split: option.splits)
    have l: "rn \<le> length (case resources of None \<Rightarrow> [] | Some rs \<Rightarrow> rs)" "gn \<le> length (case guards of None \<Rightarrow> [] | Some gs \<Rightarrow> gs)"
      using assms(4) go by (auto simp: args_ok_def split: option.splits)
    obtain r1 s1 c1 where d1: "r_dns_maybe_refresh hk False s = Some (r1, s1)" "calm s s1" "sys_ok s1" "client s1 = Some c1" "dns_only c c1"
      using maybe_refresh_calm [OF assms(1-3)] by blast
    obtain r2 s2 where d2: "r_dns_maybe_refresh hk True s1 = Some (r2, s2)" "calm s1 s2"
      using maybe_refresh_calm [OF assms(1) d1(3,4)] by blast
    obtain rc ho s3 where d3: "r_submit_request hk ?rs ?gs label len usr b s1 = Some ((rc, ho), s3)" "calm s1 s3"
      "\<forall>h. ho = Some h \<longrightarrow> rc = RCLIENT_OK \<and> h = next_ptr s1 \<and> waiting h (policy c1) (unat (replay_count (policy c1)) + 2) s3"
      using submit_request_ok [OF assms(1) d1(3,4) wf] by blast
    have e: "r_client_check_rate_limit_async_impl hk resources rn guards gn label len cb b s =
       Some (let rc = r_validate_resource_windows (quotas c) ?rs in
         if rc \<noteq> RCLIENT_OK then ((rc, None), s) else if servers c1 = [] then ((RCLIENT_ERR_DNS, None), s2) else ((rc', ho), s3))"
      if "rc' = rc" for rc'
      using go l assms(3) d1(1,4) d2(1) d3(1) that by (auto simp: r_client_check_rate_limit_async_impl_def Let_def)
    have p: "policy c1 = policy c" using dns_only_fields [OF d1(5)] by simp
    have "fine s s2" "fine s s3" using fine_trans [OF fine_calm [OF d1(2)] fine_calm] d2(2) d3(2) by auto
    then show ?thesis using e [OF refl] r d3(3) p by (simp add: Let_def split: if_split) blast
  qed
qed

lemma cancel_ok:
  assumes "sys_ok s" and "client s = Some c"
  shows "\<exists>s'. r_client_cancel_request hk req s = Some s' \<and> calm s s'
    \<and> (\<forall>h. req = Some h \<longrightarrow> (\<exists>c'. client s' = Some c' \<and> find_req h c' = None))"
proof (cases req)
  case None
  then show ?thesis using assms by (auto simp: r_client_cancel_request_def calm_def)
next
  case (Some h)
  have ro: "requests_ok (next_ptr s) (trace s) c" using assms by (simp add: sys_ok_def)
  then have r: "r_request_remove h (inflight c) = (h \<in> handle ` set (inflight c), filter (\<lambda>q. handle q \<noteq> h) (inflight c))"
    by (intro request_remove_filter) (simp add: requests_ok_def)
  show ?thesis
  proof (cases "h \<in> handle ` set (inflight c)")
    case False
    then have "r_client_cancel_request hk req s = Some s" using Some assms(2) r by (simp add: r_client_cancel_request_def)
    then show ?thesis using assms False Some by (auto simp: calm_def find_req_None)
  next
    case True
    let ?c = "c\<lparr>inflight := filter (\<lambda>q. handle q \<noteq> h) (inflight c)\<rparr>" let ?s = "put_client ?c s"
    have "?c = c\<lparr>inflight := snd (r_request_remove h (inflight c)), steering_rebind_pending := steering_rebind_pending c\<rparr>" using r by simp
    then have "requests_ok (next_ptr s) (trace s) ?c" using requests_ok_remove [OF ro, of "trace s" h] by (metis subset_insertI)
    then have "sys_ok ?s" by (intro sys_ok_put_client [OF assms]) simp_all
    moreover have cs: "client ?s = Some ?c" by (simp add: store_defs)
    moreover obtain s' where s': "r_notify_steering_when_drained hk ?s = Some s'" "quiet ?s s'" using notify_total [OF cs] by blast
    ultimately have "calm ?s s'" using calm_quiet by blast
    then have k: "calm s s'" by (auto simp: calm_def store_defs)
    obtain c' where c': "client s' = Some c'" "marks_only ?c c'" using quiet_Some [OF s'(2) cs] by blast
    have "find_req h c' = None" using marks_only_fields [OF c'(2)] by (auto simp: find_req_None)
    moreover have "r_client_cancel_request hk req s = Some s'" using True Some assms(2) r s'(1) by (simp add: r_client_cancel_request_def)
    ultimately show ?thesis using k c'(1) Some by auto
  qed
qed

lemma report_packet_total:
  assumes "host_ok hk" and "wf_client c" and "client s = Some c" and "list_all wf_report rs"
  shows "\<exists>r s'. r_build_report_packet hk rs s = Some (r, s') \<and> quiet s s'"
proof -
  let ?b = "le_bytes 2 (of_nat (length rs) :: u16) @ le_bytes 2 (0 :: u16) @ reports_bytes rs" let ?n = "length ?b"
  have laws: "aead_laws (h_evp_encrypt hk) (h_evp_decrypt hk)" "rand_laws hk" using assms(1) by (auto simp: host_ok_def)
  have lb: "length local_buf = 1200" by (simp add: local_buf_def wire_lens)
  have n: "?n = 4 + length rs * 32" using assms(4) by (simp add: length_reports_bytes)
  have body: "r_build_latency_report_body rs local_buf 1200 =
      (if ?n \<le> 1200 then Some (Inr (?b @ drop ?n local_buf, ?n)) else Some (Inl RCLIENT_ERR_PROTOCOL))"
    using latency_report_body_eq [OF assms(4), of 1200 local_buf ?b] lb n by simp
  let ?p = "pdu_bytes R_PDU_LATENCY_REPORT 0 ?b"
  have pdu: "r_build_pdu R_PDU_LATENCY_REPORT (?b @ drop ?n local_buf) ?n local_buf 1200 =
      (if ?n \<le> 1192 then Some (Inr (?p @ drop (8 + ?n) local_buf, 8 + ?n)) else Some (Inl RCLIENT_ERR_PROTOCOL))"
    by (subst build_pdu_eq [of _ _ _ _ ?p]) (use lb in auto)
  obtain r1 s1 where g: "r_generate_request_id hk s = (r1, s1)" by fastforce
  obtain now s2 where t: "r_now_ms hk s1 = (now, s2)" by fastforce
  note q1 = quiet_request_id [OF g] note q2 = quiet_trans [OF q1 quiet_now [OF t]]
  obtain c2 where c2: "client s2 = Some c2" "marks_only c c2" using quiet_Some [OF q2 assms(3)] by blast
  have wc: "wf_client c2" using assms(2) marks_only_fields [OF c2(2)] wf_client_cong [of c2 c] by simp
  show ?thesis
  proof (cases "?n \<le> 1192 \<and> (\<exists>uid. r1 = Inr uid)")
    case False
    then consider "\<not> ?n \<le> 1200" | "?n \<le> 1200" "\<not> ?n \<le> 1192" | e where "?n \<le> 1192" "r1 = Inl e" by (cases r1) auto
    then show ?thesis
      by cases (use body pdu g q1 in \<open>simp_all add: r_build_report_packet_def R_MAX_PACKET_SIZE_def\<close>)
  next
    case True
    then obtain uid where u: "r1 = Inr uid" by auto
    have h: "wf_tenant (tenant_header_for (cl_key_id c2) uid now)"
      using request_id_length [OF laws(2)] g u by (simp add: wf_tenant_header_for)
    have "8 + ?n \<le> length (?p @ drop (8 + ?n) local_buf)" by (simp add: length_pdu_bytes)
    from authenticate_total [OF wc laws h this lb, of s2] obtain r3 s3 where
      a: "r_authenticate_packet hk c2 (tenant_header_for (cl_key_id c2) uid now) (?p @ drop (8 + ?n) local_buf) (8 + ?n) local_buf 1200 s2
          = Some (r3, s3)" "quiet s2 s3" "\<forall>p n. r3 = Inr (p, n) \<longrightarrow> 0 < n \<and> n \<le> length p" by blast
    have "\<exists>r. r_build_report_packet hk rs s = Some (r, s3)"
    proof (cases r3)
      case (Inl e)
      then show ?thesis using True body pdu g u t c2(1) a(1) by (simp add: r_build_report_packet_def R_MAX_PACKET_SIZE_def)
    next
      case (Inr pn)
      obtain p n where pn: "pn = (p, n)" by fastforce
      then have "rd_bytes p 0 n = Some (take n p)" using a(3) Inr by (simp add: rd_bytes_def)
      then show ?thesis using True body pdu g u t c2(1) a(1) Inr pn by (simp add: r_build_report_packet_def R_MAX_PACKET_SIZE_def)
    qed
    then show ?thesis using quiet_trans [OF q2 a(2)] by blast
  qed
qed

lemma report_ok:
  assumes "host_ok hk" and "sys_ok s" and "client s = Some c"
    and "\<forall>rs. reports = Some rs \<longrightarrow> n \<le> length rs \<and> list_all wf_report rs"
  shows "\<exists>rc s'. r_client_report_latency hk reports n s = Some (rc, s') \<and> calm s s'"
proof -
  have r: "calm s s" using assms(2,3) by (simp add: calm_def)
  show ?thesis
  proof (cases "reports = None \<or> n = 0 \<or> h_udp_send hk = None")
    case True
    then show ?thesis using r by (cases reports; cases "h_udp_send hk") (auto simp: r_client_report_latency_def)
  next
    case False
    then obtain rs f where f: "reports = Some rs" "h_udp_send hk = Some f" "n \<noteq> 0" by auto
    have wf: "n \<le> length rs" "list_all wf_report (take n rs)" using assms(4) f(1) by (auto simp: list_all_take)
    obtain r1 s1 c1 where d1: "r_dns_maybe_refresh hk False s = Some (r1, s1)" "calm s s1" "sys_ok s1" "client s1 = Some c1"
      using maybe_refresh_calm [OF assms(1-3)] by blast
    obtain r2 s2 where d2: "r_dns_maybe_refresh hk True s1 = Some (r2, s2)" "calm s1 s2"
      using maybe_refresh_calm [OF assms(1) d1(3,4)] by blast
    have "wf_client c1" using d1(3,4) by (simp add: sys_ok_def requests_ok_def)
    then obtain r3 s3 where d3: "r_build_report_packet hk (take n rs) s1 = Some (r3, s3)" "quiet s1 s3"
      using report_packet_total [OF assms(1) _ d1(4) wf(2)] by blast
    obtain c3 where c3: "client s3 = Some c3" using quiet_Some [OF d3(2) d1(4)] by blast
    have k: "calm s x" if "quiet s1 x" for x using calm_trans [OF d1(2) calm_quiet [OF d1(3) _ that]] d1(4) by simp
    show ?thesis
    proof (cases "servers c1 = []")
      case True
      then show ?thesis using f wf(1) d1(1,4) d2 calm_trans [OF d1(2)] by (auto simp: r_client_report_latency_def)
    next
      case False
      show ?thesis
      proof (cases r3)
        case (Inl e)
        then show ?thesis using f wf(1) d1(1,4) d3(1) False k [OF d3(2)] by (simp add: r_client_report_latency_def)
      next
        case (Inr bytes)
        obtain i s4 where l: "r_report_loop f bytes (servers c3) 0 s3 = (i, s4)" by fastforce
        note q4 = quiet_trans [OF d3(2) quiet_report_loop [OF l]]
        obtain c4 where c4: "client s4 = Some c4" using quiet_Some [OF q4 d1(4)] by blast
        then show ?thesis using f wf(1) d1(1,4) d3(1) False Inr c3 l k [OF q4] k [OF quiet_put_failures [OF q4 c4]]
          by (simp add: r_client_report_latency_def Let_def)
      qed
    qed
  qed
qed

lemma update_best_None: "r_candidate_try_update_best b r gs rs = (k, None) \<Longrightarrow> b = None"
  by (auto simp: r_candidate_try_update_best_def r_candidate_set_def Let_def split: option.splits if_splits)

text \<open>An answer changes none of the fields that the schedule depends on, and the candidate is never dropped.\<close>

definition same_schedule :: "r_client_req \<Rightarrow> r_client_req \<Rightarrow> bool" where
  "same_schedule q q' \<longleftrightarrow> handle q' = handle q \<and> request_id q' = request_id q \<and> packet q' = packet q \<and> packet_len q' = packet_len q
     \<and> start_ms q' = start_ms q \<and> dedup_deadline_ms q' = dedup_deadline_ms q \<and> phase q' = phase q \<and> ha_round q' = ha_round q
     \<and> ha_round_deadline_ms q' = ha_round_deadline_ms q \<and> ha_preference_deadline_ms q' = ha_preference_deadline_ms q
     \<and> targets q' = targets q \<and> allowed_ids q' = allowed_ids q \<and> user q' = user q"

lemma seen_add_schedule:
  "r_seen_addr_add g q a = (r, q') \<Longrightarrow> same_schedule q q' \<and> attempt_deadline_ms q' = attempt_deadline_ms q \<and> best q' = best q"
  "r_seen_server_add g q i = (r, q') \<Longrightarrow> same_schedule q q' \<and> attempt_deadline_ms q' = attempt_deadline_ms q \<and> best q' = best q"
  by (auto simp: r_seen_addr_add_def r_seen_server_add_def Let_def same_schedule_def split: if_splits)

lemma same_schedule_ok:
  assumes "req_ok c q" and "same_schedule q q'"
    and "attempt_deadline_ms q' = attempt_deadline_ms q \<and> (best q' = None \<longrightarrow> best q = None)
         \<or> attempt_deadline_ms q' = ha_preference_deadline_ms q \<and> best q' \<noteq> None"
  shows "req_ok c q'"
proof -
  have "end_units (policy c) q' = end_units (policy c) q" using assms(2) by (cases "phase q") (auto simp: same_schedule_def end_units_def)
  then show ?thesis using assms by (auto simp: req_ok_def on_schedule_def same_schedule_def)
qed

lemma find_req_mem:
  assumes "distinct (map handle (inflight c))" and "q \<in> set (inflight c)"
  shows "find_req (handle q) c = Some q"
proof -
  obtain q' where q': "find_req (handle q) c = Some q'" using assms(2) find_req_None [of "handle q" c] by fastforce
  have "q' = q" using find_req_Some [OF q'] assms by (metis distinct_map inj_onD)
  then show ?thesis using q' by simp
qed

text \<open>The request after the bookkeeping of an answer.\<close>

definition noted ::
  "'w hooks \<Rightarrow> r_client_req \<Rightarrow> bool \<Rightarrow> u64 \<Rightarrow> r_addr \<Rightarrow> 'w sys \<Rightarrow> u64 \<times> r_client_req \<times> 'w sys" where
  "noted hk req feedback server_id from s =
    (let req = (if \<not> feedback then req\<lparr>steering_rebind := True\<rparr> else req);
         (now_ms, s) = r_now_ms hk s;
         (grow, s) = (if \<not> list_ex (\<lambda>a. r_addr_equal a from) (seen_addrs req)
            \<and> length (seen_addrs req) = seen_addr_cap req then alloc hk s else (True, s));
         (_, req) = r_seen_addr_add grow req from;
         (grow, s) = (if \<not> list_ex (\<lambda>i. i = server_id) (seen_server_ids req)
            \<and> length (seen_server_ids req) = seen_server_id_cap req then alloc hk s else (True, s));
         (_, req) = r_seen_server_add grow req server_id
     in (now_ms, req, s))"

lemma noted_frame:
  assumes "noted hk q fb i a s = (now, q', s')"
  shows "quiet s s'" and "same_schedule q q'" and "attempt_deadline_ms q' = attempt_deadline_ms q" and "best q' = best q"
proof -
  let ?q = "if \<not> fb then q\<lparr>steering_rebind := True\<rparr> else q"
  obtain t s1 where n: "r_now_ms hk s = (t, s1)" by fastforce
  obtain g s2 where g: "(if \<not> list_ex (\<lambda>x. r_addr_equal x a) (seen_addrs ?q)
      \<and> length (seen_addrs ?q) = seen_addr_cap ?q then alloc hk s1 else (True, s1)) = (g, s2)" by fastforce
  obtain r q2 where a: "r_seen_addr_add g ?q a = (r, q2)" by fastforce
  obtain g' s3 where g': "(if \<not> list_ex (\<lambda>x. x = i) (seen_server_ids q2)
      \<and> length (seen_server_ids q2) = seen_server_id_cap q2 then alloc hk s2 else (True, s2)) = (g', s3)" by fastforce
  obtain r' q3 where b: "r_seen_server_add g' q2 i = (r', q3)" by fastforce
  have e: "q' = q3" "s' = s3" using assms n g a g' b by (auto simp: noted_def Let_def)
  show "quiet s s'" unfolding e using quiet_now [OF n] quiet_if_alloc [OF g] quiet_if_alloc [OF g'] quiet_trans by blast
  have k: "same_schedule q ?q" "attempt_deadline_ms ?q = attempt_deadline_ms q" "best ?q = best q" by (simp_all add: same_schedule_def)
  show "same_schedule q q'" "attempt_deadline_ms q' = attempt_deadline_ms q" "best q' = best q"
    unfolding e using k seen_add_schedule(1) [OF a] seen_add_schedule(2) [OF b] by (auto simp: same_schedule_def)
qed

lemma apply_response_eq:
  assumes "noted hk req fb i a s = (now, q, s')" and "client s' = Some c"
    and "r_candidate_try_update_best (best q) \<lparr>success = ok, result_server_id = i, result_steering_feedback = fb,
           result_guards = [], result_resources = []\<rparr> gs rs = (k, bst)"
  shows "r_apply_response hk req fb i a gs rs ok s =
    (let q = q\<lparr>best := bst\<rparr> in
     case bst of
       None \<Rightarrow> Some (RCLIENT_OK, put_client (put_req q c) s')
     | Some b \<Rightarrow>
         if r_is_oldest_known_server q (result_server_id b) \<or> now \<ge> ha_preference_deadline_ms q then do {
           s \<leftarrow> r_request_complete hk (handle q) RCLIENT_OK True (put_client (put_req q c) s');
           Some (RCLIENT_OK, s) }
         else if ha_preference_deadline_ms q < attempt_deadline_ms q then
           Some (RCLIENT_OK, put_client (put_req (q\<lparr>attempt_deadline_ms := ha_preference_deadline_ms q\<rparr>) c) s')
         else Some (RCLIENT_OK, put_client (put_req q c) s'))"
proof -
  have "r_apply_response hk req fb i a gs rs ok s =
    (let (now, q, s') = noted hk req fb i a s; (k, bst) = r_candidate_try_update_best (best q) \<lparr>success = ok, result_server_id = i,
           result_steering_feedback = fb, result_guards = [], result_resources = []\<rparr> gs rs; q = q\<lparr>best := bst\<rparr> in
     (client s' \<bind> (\<lambda>c. case bst of
       None \<Rightarrow> Some (RCLIENT_OK, put_client (put_req q c) s')
     | Some b \<Rightarrow>
         if r_is_oldest_known_server q (result_server_id b) \<or> now \<ge> ha_preference_deadline_ms q then do {
           s \<leftarrow> r_request_complete hk (handle q) RCLIENT_OK True (put_client (put_req q c) s');
           Some (RCLIENT_OK, s) }
         else if ha_preference_deadline_ms q < attempt_deadline_ms q then
           Some (RCLIENT_OK, put_client (put_req (q\<lparr>attempt_deadline_ms := ha_preference_deadline_ms q\<rparr>) c) s')
         else Some (RCLIENT_OK, put_client (put_req q c) s'))))"
    unfolding r_apply_response_def noted_def Let_def by (simp only: split_def prod.sel)
  then show ?thesis using assms by (simp add: Let_def)
qed

lemma apply_response_ok:
  assumes "host_ok hk" and "sys_ok s" and "client s = Some c" and "req \<in> set (inflight c)"
  shows "\<exists>s'. r_apply_response hk req fb i a gs rs ok s = Some (RCLIENT_OK, s') \<and> fine s s'"
proof -
  obtain now q s1 where n: "noted hk req fb i a s = (now, q, s1)" by (metis prod_cases3)
  note f = noted_frame [OF n]
  have k1: "calm s s1" using calm_quiet [OF assms(2) _ f(1)] assms(3) by simp
  then have ok1: "sys_ok s1" by (simp add: calm_def)
  obtain c1 where c1: "client s1 = Some c1" "marks_only c c1" using quiet_Some [OF f(1) assms(3)] by blast
  have ro: "requests_ok (next_ptr s1) (trace s1) c1" using ok1 c1(1) by (simp add: sys_ok_def)
  have m: "req \<in> set (inflight c1)" using assms(4) marks_only_fields [OF c1(2)] by simp
  have fr: "find_req (handle req) c1 = Some req" using find_req_mem [OF _ m] ro by (simp add: requests_ok_def)
  have rk: "req_ok c1 req" using ro m by (simp add: requests_ok_def)
  obtain k bst where u: "r_candidate_try_update_best (best q) \<lparr>success = ok, result_server_id = i, result_steering_feedback = fb,
           result_guards = [], result_resources = []\<rparr> gs rs = (k, bst)" by fastforce
  note e = apply_response_eq [OF n c1(1) u]
  let ?q = "q\<lparr>best := bst\<rparr>"
  have put: "sys_ok (put_client (put_req q' c1) s1) \<and> client (put_client (put_req q' c1) s1) = Some (put_req q' c1)
      \<and> find_req (handle req) (put_req q' c1) = Some q' \<and> fine s (put_client (put_req q' c1) s1)"
    if "q' = ?q \<or> q' = ?q\<lparr>attempt_deadline_ms := ha_preference_deadline_ms ?q\<rparr> \<and> bst \<noteq> None" for q'
  proof -
    have "same_schedule req q'" using that f(2) by (auto simp: same_schedule_def)
    moreover have "bst = None \<longrightarrow> best req = None" using u update_best_None f(4) by auto
    ultimately have "req_ok c1 q'" using that f(2-4) by (intro same_schedule_ok [OF rk]) (auto simp: same_schedule_def)
    moreover have "handle q' = handle req" using \<open>same_schedule req q'\<close> by (simp add: same_schedule_def)
    ultimately have "sys_ok (put_client (put_req q' c1) s1)" "client (put_client (put_req q' c1) s1) = Some (put_req q' c1)"
      "find_req (handle req) (put_req q' c1) = Some q'" using sys_ok_put_req [OF ok1 c1(1) fr] by auto
    then show ?thesis using k1 by (auto simp: fine_def calm_def store_defs)
  qed
  have h: "handle ?q = handle req" using f(2) by (simp add: same_schedule_def)
  have p: "sys_ok (put_client (put_req ?q c1) s1)" "client (put_client (put_req ?q c1) s1) = Some (put_req ?q c1)"
    "find_req (handle ?q) (put_req ?q c1) = Some ?q" "fine s (put_client (put_req ?q c1) s1)" using put [of ?q] h by auto
  obtain s2 where s2: "r_request_complete hk (handle ?q) RCLIENT_OK True (put_client (put_req ?q c1) s1) = Some s2"
    "fine (put_client (put_req ?q c1) s1) s2"
    using request_complete_ok [OF assms(1) p(1-3), of RCLIENT_OK True] by (auto simp: fine_def)
  show ?thesis
  proof (cases bst)
    case None
    then show ?thesis using e p(4) by (simp add: Let_def)
  next
    case (Some b)
    then show ?thesis
      using e s2(1) p(4) fine_trans [OF p(4) s2(2)] put [of "?q\<lparr>attempt_deadline_ms := ha_preference_deadline_ms ?q\<rparr>"]
      by (simp add: Let_def)
  qed
qed

lemma datagram_ok:
  assumes "host_ok hk" and "sys_ok s" and "client s = Some c" and "\<forall>b. buf = Some b \<longrightarrow> len \<le> length b"
  shows "\<exists>rc s'. r_client_on_datagram hk buf len from s = Some (rc, s') \<and> fine s s'"
proof -
  have r: "fine s s" using assms(2,3) by (simp add: fine_def)
  show ?thesis
  proof (cases "buf = None \<or> from = None \<or> len = 0")
    case True
    then show ?thesis using r by (cases buf; cases "from") (auto simp: r_client_on_datagram_def)
  next
    case False
    then obtain b a where b: "buf = Some b" "from = Some a" "len \<noteq> 0" by auto
    have l: "len \<le> length b" using assms(4) b(1) by simp
    obtain rh where h: "r_parse_tenant_header b len = Some rh" using r_parse_tenant_header_eq [OF l] by blast
    consider e where "rh = Inl e" | t pos where "rh = Inr (t, pos)" "find (\<lambda>q. request_id q = unique_id t) (inflight c) = None"
      | t pos q where "rh = Inr (t, pos)" "find (\<lambda>q. request_id q = unique_id t) (inflight c) = Some q"
      by (metis option.exhaust sum.exhaust surj_pair)
    then show ?thesis
    proof cases
      case (3 t pos q)
      obtain now s1 where n: "r_now_ms hk s = (now, s1)" by fastforce
      have k1: "calm s s1" using calm_quiet [OF assms(2) _ quiet_now [OF n]] assms(3) by simp
      obtain c1 where c1: "client s1 = Some c1" "marks_only c c1" using quiet_Some [OF quiet_now [OF n] assms(3)] by blast
      have wf: "wf_client c" "dec_length (h_evp_decrypt hk)"
        using assms(1-3) by (auto simp: sys_ok_def requests_ok_def host_ok_def aead_laws_def dec_length_def)
      obtain rx where x: "r_extract_pdu_data (h_evp_decrypt hk) c b len pos R_MAX_PACKET_SIZE = Some rx"
        using r_extract_authentic [OF l wf, of pos R_MAX_PACKET_SIZE] by blast
      have e: "r_client_on_datagram hk buf len from s =
        (if now > dedup_deadline_ms q \<or> \<not> r_allowed_server_id q (key_id t) then Some (RCLIENT_OK, s1)
         else case rx of Inl e \<Rightarrow> Some (e, s1) | Inr pdu \<Rightarrow> do {
           (r, s) \<leftarrow> r_parse_rate_response_alloc hk pdu (length pdu) s1;
           case r of Inl e \<Rightarrow> Some (e, s)
           | Inr (gs, rs, ok) \<Rightarrow> r_apply_response hk q (steering_feedback t \<noteq> 0) (key_id t) a gs rs ok s })"
        using b h 3 assms(3) n x by (simp add: r_client_on_datagram_def Let_def)
      show ?thesis
      proof (cases "(now > dedup_deadline_ms q \<or> \<not> r_allowed_server_id q (key_id t)) \<or> (\<exists>e. rx = Inl e)")
        case True
        then show ?thesis using e fine_calm [OF k1] by (cases "now > dedup_deadline_ms q \<or> \<not> r_allowed_server_id q (key_id t)") auto
      next
        case False
        then obtain pdu where pdu: "rx = Inr pdu" by (cases rx) auto
        obtain rp w where rp: "r_parse_rate_response_alloc hk pdu (length pdu) s1 = Some (rp, s1\<lparr>world := w\<rparr>)"
          using r_parse_rate_response_alloc_safe [of "length pdu" pdu hk s1] by auto
        let ?s2 = "s1\<lparr>world := w\<rparr>"
        have k2: "calm s ?s2" using calm_trans [OF k1 calm_quiet] k1 by (simp add: calm_def)
        have m: "q \<in> set (inflight c1)" using 3(2) marks_only_fields [OF c1(2)] by (auto simp: find_Some_iff)
        have "sys_ok ?s2" "client ?s2 = Some c1" using k2 c1(1) by (auto simp: calm_def)
        then show ?thesis using e False pdu rp fine_calm [OF k2]
            apply_response_ok [OF assms(1) _ _ m, of ?s2] fine_trans [OF fine_calm [OF k2]]
          by (auto split: sum.split) (metis option.sel prod.sel)
      qed
    qed (use b h r assms(3) in \<open>simp_all add: r_client_on_datagram_def\<close>)
  qed
qed

subsection \<open>The client as a machine\<close>

text \<open>
  What the host may do with a live client: call an entry point with arguments that point to what
  they claim, serve the timer of a request in flight, or answer an outstanding DNS lookup.
\<close>

inductive client_step :: "'w hooks \<Rightarrow> 'w sys \<Rightarrow> 'w sys \<Rightarrow> bool" for hk where
  submit: "args_ok resources rn guards gn label len \<Longrightarrow>
    r_client_check_rate_limit_async_impl hk resources rn guards gn label len cb borrowed s = Some (r, s') \<Longrightarrow> client_step hk s s'"
| report: "(\<forall>rs. reports = Some rs \<longrightarrow> n \<le> length rs \<and> list_all wf_report rs) \<Longrightarrow>
    r_client_report_latency hk reports n s = Some (rc, s') \<Longrightarrow> client_step hk s s'"
| datagram: "(\<forall>b. buf = Some b \<longrightarrow> len \<le> length b) \<Longrightarrow>
    r_client_on_datagram hk buf len from s = Some (rc, s') \<Longrightarrow> client_step hk s s'"
| timeout: "client s = Some c \<Longrightarrow> find_req h c \<noteq> None \<Longrightarrow> r_client_on_timeout hk (Some h) t s = Some (rc, s') \<Longrightarrow> client_step hk s s'"
| cancel: "r_client_cancel_request hk req s = Some s' \<Longrightarrow> client_step hk s s'"
| srv_answer: "lookups s l \<noteq> None \<Longrightarrow> r_dns_srv_cb_fn hk l ok recs s = Some s' \<Longrightarrow> client_step hk s s'"
| addr_answer: "lookups s l \<noteq> None \<Longrightarrow> list_all addr_ok as \<Longrightarrow> r_dns_addr_cb_fn hk l ok as s = Some s' \<Longrightarrow> client_step hk s s'"

inductive client_reach :: "'w hooks \<Rightarrow> 'w sys \<Rightarrow> 'w sys \<Rightarrow> bool" for hk where
  start: "client_reach hk s s"
| step: "client_reach hk s t \<Longrightarrow> client_step hk t u \<Longrightarrow> client_reach hk s u"

lemma answer_fine:
  assumes "sys_ok s" and "client s = Some c" and "dns_idle s'" and "dns_frame s s'" shows "fine s s'"
proof -
  obtain c' where "client s' = Some c'" using dns_frame_Some [OF assms(4,2)] by blast
  then show ?thesis using sys_ok_dns [OF assms(1,4,3)] calm_dns [OF assms(4)] fine_calm by blast
qed

locale client_host =
  fixes hk :: "'w hooks"
  assumes host: "host_ok hk"
begin

lemma resolver: "resolver_ok hk"
  using host by (simp add: host_ok_def)

lemma step_fine:
  assumes "client_step hk s s'" and "sys_ok s" and "client s = Some c"
  shows "fine s s'"
proof -
  have d: "dns_idle s" using assms(2) by (simp add: sys_ok_def)
  show ?thesis using assms(1)
  proof cases
    case (submit resources rn guards gn label len cb borrowed r)
    then show ?thesis using check_rate_limit_ok [OF host assms(2,3) submit(1), of cb borrowed] by auto
  next
    case (report reports n rc)
    then show ?thesis using report_ok [OF host assms(2,3) report(1)] fine_calm by auto
  next
    case (datagram buf len "from" rc)
    then show ?thesis using datagram_ok [OF host assms(2,3) datagram(1), of "from"] by auto
  next
    case (timeout c h t rc)
    then obtain q where "find_req h c = Some q" by auto
    from timeout_ok [OF host assms(2) timeout(1) this, of t] timeout show ?thesis by (auto simp: fine_def)
  next
    case (cancel req)
    then show ?thesis using cancel_ok [OF assms(2,3), of hk req] fine_calm by auto
  next
    case (srv_answer l ok recs)
    then obtain lk where "lookups s l = Some lk" by auto
    from srv_cb_async [OF d this resolver, of ok recs] srv_answer(2) have "dns_idle s'" by simp
    then show ?thesis using answer_fine [OF assms(2,3)] srv_cb_frame [OF srv_answer(2)] by blast
  next
    case (addr_answer l "as" ok)
    then obtain lk where "lookups s l = Some lk" by auto
    from addr_cb_async [OF d this addr_answer(2), of hk ok] addr_answer(3) have "dns_idle s'" by simp
    then show ?thesis using answer_fine [OF assms(2,3)] addr_cb_frame [OF addr_answer(3)] by blast
  qed
qed

lemma reach_fine:
  assumes "client_reach hk s t" and "sys_ok s" and "client s \<noteq> None"
  shows "fine s t"
  using assms
proof (induction rule: client_reach.induct)
  case (start s)
  then show ?case by (simp add: fine_def)
next
  case (step s t u)
  then have f: "fine s t" by simp
  then obtain c where "sys_ok t" "client t = Some c" by (auto simp: fine_def)
  then show ?case using step_fine [OF step.hyps(2)] fine_trans [OF f] by blast
qed

lemma entry_points_defined:
  assumes "sys_ok s" and "client s = Some c"
  shows "args_ok resources rn guards gn label len \<Longrightarrow>
      r_client_check_rate_limit_async_impl hk resources rn guards gn label len cb borrowed s \<noteq> None"
    and "(\<forall>rs. reports = Some rs \<longrightarrow> n \<le> length rs \<and> list_all wf_report rs) \<Longrightarrow> r_client_report_latency hk reports n s \<noteq> None"
    and "(\<forall>b. buf = Some b \<longrightarrow> len' \<le> length b) \<Longrightarrow> r_client_on_datagram hk buf len' from s \<noteq> None"
    and "find_req h c \<noteq> None \<Longrightarrow> r_client_on_timeout hk (Some h) t s \<noteq> None"
    and "r_client_cancel_request hk req s \<noteq> None"
    and "lookups s l \<noteq> None \<Longrightarrow> r_dns_srv_cb_fn hk l ok recs s \<noteq> None"
    and "lookups s l \<noteq> None \<Longrightarrow> list_all addr_ok as \<Longrightarrow> r_dns_addr_cb_fn hk l ok as s \<noteq> None"
proof -
  have d: "dns_idle s" using assms(1) by (simp add: sys_ok_def)
  show "r_client_check_rate_limit_async_impl hk resources rn guards gn label len cb borrowed s \<noteq> None"
    if "args_ok resources rn guards gn label len"
    using check_rate_limit_ok [OF host assms that, of cb borrowed] by auto
  show "r_client_report_latency hk reports n s \<noteq> None" if "\<forall>rs. reports = Some rs \<longrightarrow> n \<le> length rs \<and> list_all wf_report rs"
    using report_ok [OF host assms that] by auto
  show "r_client_on_datagram hk buf len' from s \<noteq> None" if "\<forall>b. buf = Some b \<longrightarrow> len' \<le> length b"
    using datagram_ok [OF host assms that, of "from"] by auto
  show "r_client_on_timeout hk (Some h) t s \<noteq> None" if a: "find_req h c \<noteq> None"
  proof -
    obtain q where "find_req h c = Some q" using a by auto
    from timeout_ok [OF host assms this, of t] show ?thesis by auto
  qed
  show "r_client_cancel_request hk req s \<noteq> None" using cancel_ok [OF assms, of hk req] by auto
  show "r_dns_srv_cb_fn hk l ok recs s \<noteq> None" if a: "lookups s l \<noteq> None"
  proof -
    obtain lk where "lookups s l = Some lk" using a by auto
    from srv_cb_async [OF d this resolver, of ok recs] show ?thesis by auto
  qed
  show "r_dns_addr_cb_fn hk l ok as s \<noteq> None" if a: "lookups s l \<noteq> None" "list_all addr_ok as"
  proof -
    obtain lk where "lookups s l = Some lk" using a by auto
    from addr_cb_async [OF d this a(2), of hk ok] show ?thesis by auto
  qed
qed

end

subsection \<open>Facts: the abstract request\<close>

text \<open>
  The policy read as a machine: a request is in one of its rounds, in the final receive phase, or
  done; each state but the last ends at a time that only the policy determines.
\<close>

datatype request_state = Round nat | Final_Receive | Done

inductive policy_step :: "r_request_policy \<Rightarrow> request_state \<Rightarrow> request_state \<Rightarrow> bool" for p where
  replay: "k < unat (replay_count p) \<Longrightarrow> policy_step p (Round k) (Round (Suc k))"
| final: "k = unat (replay_count p) \<Longrightarrow> final_receive_units p \<noteq> 0 \<Longrightarrow> policy_step p (Round k) Final_Receive"
| finish: "st \<noteq> Done \<Longrightarrow> policy_step p st Done"

inductive_simps policy_step_simps: "policy_step p (Round k) st" "policy_step p Final_Receive st" "policy_step p Done st"

fun spec_deadline :: "r_request_policy \<Rightarrow> nat \<Rightarrow> request_state \<Rightarrow> nat" where
  "spec_deadline p start (Round k) = start + unat (unit_ms p) * (\<Sum>i\<le>k. schedule_value (replay_gap p) i)"
| "spec_deadline p start Final_Receive = start + unat (unit_ms p) * policy_units p"
| "spec_deadline p start Done = 0"

definition state_of :: "r_client_req \<Rightarrow> request_state" where
  "state_of q = (case phase q of R_REQUEST_PHASE_ROUND \<Rightarrow> Round (unat (ha_round q)) | R_REQUEST_PHASE_FINAL \<Rightarrow> Final_Receive)"

definition abs_state :: "nat \<Rightarrow> 'w sys \<Rightarrow> request_state" where
  "abs_state h s = (case client s of None \<Rightarrow> Done
     | Some c \<Rightarrow> (case find_req h c of None \<Rightarrow> Done | Some q \<Rightarrow> state_of q))"

lemma on_schedule_deadline:
  assumes "on_schedule p qu q"
  shows "unat (ha_round_deadline_ms q) = spec_deadline p (unat (start_ms q)) (state_of q)"
  using assms by (cases "phase q") (simp_all add: on_schedule_def state_of_def end_units_def policy_rounds_def lessThan_Suc_atMost)

lemma state_of_not_done [simp]: "state_of q \<noteq> Done"
  by (simp add: state_of_def split: r_request_phase.split)

lemma due_timeout_refines:
  assumes "host_ok hk" and "sys_ok s" and "client s = Some c" and "find_req h c = Some q" and "attempt_deadline_ms q \<le> t"
  shows "\<exists>s'. r_client_on_timeout hk (Some h) t s = Some (RCLIENT_OK, s') \<and> sys_ok s'
    \<and> policy_step (policy c) (state_of q) (abs_state h s')
    \<and> (abs_state h s' \<noteq> Done \<or> h \<in> set (cb_handles (trace s')))"
proof -
  note r = req_of_sys [OF assms(2-4)]
  have b: "unat (ha_round q) \<le> unat (replay_count (policy c))" using r(3) by (simp add: on_schedule_def)
  let ?Q = "\<lambda>q'. policy_step (policy c) (state_of q) (state_of q')"
  have Q1: "?Q q'" if "next_state q q'" "phase q' = R_REQUEST_PHASE_ROUND" "ha_round q < replay_count (policy c)" for q'
  proof -
    have "state_of q = Round (unat (ha_round q))" "state_of q' = Round (Suc (unat (ha_round q)))"
      using that by (simp_all add: next_state_def state_of_def)
    then show ?thesis using that(3) policy_step.replay by (simp add: word_less_nat_alt)
  qed
  have Q2: "?Q q'" if "next_state q q'" "phase q' = R_REQUEST_PHASE_FINAL" "\<not> ha_round q < replay_count (policy c)"
    "final_receive_units (policy c) \<noteq> 0" for q'
  proof -
    have "state_of q = Round (unat (ha_round q))" "state_of q' = Final_Receive"
      using that by (simp_all add: next_state_def state_of_def)
    moreover have "unat (ha_round q) = unat (replay_count (policy c))" using that(3) b by (simp add: word_less_nat_alt)
    ultimately show ?thesis using that(4) policy_step.final by simp
  qed
  have "\<exists>s'. r_client_on_timeout hk (Some h) t s = Some (RCLIENT_OK, s') \<and> advanced h (policy c) ?Q s s'"
    by (rule due_timeout_advances [OF assms]) (use Q1 Q2 in blast)+
  then obtain s' where s': "r_client_on_timeout hk (Some h) t s = Some (RCLIENT_OK, s')" "advanced h (policy c) ?Q s s'" by blast
  have ok: "sys_ok s'" "client s' \<noteq> None" using s'(2) by (auto simp: advanced_def)
  then obtain c' where c': "client s' = Some c'" by auto
  show ?thesis
  proof (cases "h \<in> set (cb_handles (trace s'))")
    case True
    then have "abs_state h s' = Done" using called_back_gone [OF ok(1) c'] c' by (simp add: abs_state_def)
    then show ?thesis using s'(1) ok True by (auto intro: policy_step.finish)
  next
    case False
    then obtain q' where "find_req h c' = Some q'" "policy_step (policy c) (state_of q) (state_of q')"
      using s'(2) c' by (auto simp: advanced_def in_flight_def)
    then show ?thesis using s'(1) ok c' by (auto simp: abs_state_def)
  qed
qed

subsection \<open>Facts: what is sent\<close>

definition send_events :: "byte list \<Rightarrow> r_server_endpoint list \<Rightarrow> bool list \<Rightarrow> event list" where
  "send_events bytes ts oks = map2 (\<lambda>t ok. Ev_Send (ep_addr t) bytes ok) ts oks"

definition missing :: "r_client_req \<Rightarrow> bool \<Rightarrow> r_server_endpoint list" where
  "missing req missing_only = filter (\<lambda>t. \<not> (missing_only \<and> r_request_target_responded req t)) (targets req)"

lemma send_loop_exact:
  assumes "r_send_loop f req bytes m ts i j s = (i', j', s')"
  shows "\<exists>oks w. length oks = length (filter (\<lambda>t. \<not> (m \<and> r_request_target_responded req t)) ts)
    \<and> s' = s\<lparr>world := w, trace := trace s @ send_events bytes (filter (\<lambda>t. \<not> (m \<and> r_request_target_responded req t)) ts) oks\<rparr>
    \<and> i' = i + length oks \<and> j' = j + count_list oks True"
  using assms
proof (induction ts arbitrary: i j s)
  case Nil
  then show ?case by (intro exI [of _ "[]"] exI [of _ "world s"]) (simp add: send_events_def)
next
  case (Cons t ts)
  show ?case
  proof (cases "m \<and> r_request_target_responded req t")
    case True
    then show ?thesis using Cons by simp
  next
    case False
    obtain ok w where u: "f (ep_addr t) bytes (world s) = (ok, w)" by fastforce
    let ?s1 = "emit (Ev_Send (ep_addr t) bytes ok) (s\<lparr>world := w\<rparr>)"
    have "r_send_loop f req bytes m ts (i + 1) (if ok then j + 1 else j) ?s1 = (i', j', s')"
      using Cons.prems False u by (auto simp: udp_send_def split: if_splits)
    from Cons.IH [OF this] obtain oks w' where o: "length oks = length (filter (\<lambda>t. \<not> (m \<and> r_request_target_responded req t)) ts)"
      "s' = ?s1\<lparr>world := w', trace := trace ?s1 @ send_events bytes (filter (\<lambda>t. \<not> (m \<and> r_request_target_responded req t)) ts) oks\<rparr>"
      "i' = i + 1 + length oks" "j' = (if ok then j + 1 else j) + count_list oks True" by blast
    show ?thesis
      by (rule exI [of _ "ok # oks"], rule exI [of _ w']) (use o False in \<open>simp add: send_events_def emit_def\<close>)
  qed
qed

lemma word_of_max: "of_nat (2 ^ 64 - 1) = UINT64_MAX"
  by (simp add: UINT64_MAX_def)

lemma record_failures_eq:
  "r_record_send_failures c n = c\<lparr>send_failure_count := of_nat (min (2 ^ 64 - 1) (unat (send_failure_count c) + unat n))\<rparr>"
proof -
  define M :: nat where "M = 2 ^ 64 - 1"
  let ?a = "send_failure_count c"
  have M: "of_nat M = UINT64_MAX" "unat UINT64_MAX = M" by (simp_all add: M_def word_of_max UINT64_MAX_def)
  have b: "unat n \<le> M" "unat ?a \<le> M" using unat_bound [of n] unat_bound [of ?a] by (simp_all add: M_def)
  have "n \<le> UINT64_MAX" using b(1) by (simp add: word_le_nat_alt M(2))
  then have m: "unat (UINT64_MAX - n) = M - unat n" by (simp add: unat_sub M(2))
  show ?thesis unfolding M_def [symmetric]
  proof (cases "?a > UINT64_MAX - n")
    case True
    then have "M < unat ?a + unat n" using m b by (simp add: word_less_nat_alt)
    then have "min M (unat ?a + unat n) = M" "n \<noteq> 0" using b(2) by (auto simp: unat_eq_0)
    then show "r_record_send_failures c n = c\<lparr>send_failure_count := of_nat (min M (unat ?a + unat n))\<rparr>"
      using True M(1) by (simp add: r_record_send_failures_def)
  next
    case False
    then have "min M (unat ?a + unat n) = unat ?a + unat n" using m b by (simp add: word_less_nat_alt)
    then show "r_record_send_failures c n = c\<lparr>send_failure_count := of_nat (min M (unat ?a + unat n))\<rparr>"
      using False by (simp add: r_record_send_failures_def)
  qed
qed

lemma send_packet_effect:
  assumes "h_udp_send hk = Some f" and "0 < n" and "n \<le> length pkt" and "client s = Some c" and "length (targets req) < 2 ^ 64"
  shows "\<exists>oks rc s'. r_send_packet_to_targets hk req pkt n m be s = Some (rc, s')
    \<and> length oks = length (missing req m) \<and> trace s' = trace s @ send_events (take n pkt) (missing req m) oks
    \<and> rc = (if \<not> be \<and> oks \<noteq> [] \<and> True \<notin> set oks then RCLIENT_ERR_IO else RCLIENT_OK)
    \<and> client s' = Some (if be \<or> rc \<noteq> RCLIENT_OK then c
        else c\<lparr>send_failure_count := of_nat (min (2 ^ 64 - 1) (unat (send_failure_count c) + count_list oks False))\<rparr>)"
proof -
  obtain i j s1 where l: "r_send_loop f req (take n pkt) m (targets req) 0 0 s = (i, j, s1)" by (metis prod_cases3)
  obtain oks w where o: "length oks = length (missing req m)"
      "s1 = s\<lparr>world := w, trace := trace s @ send_events (take n pkt) (missing req m) oks\<rparr>"
      "i = length oks" "j = count_list oks True"
    using send_loop_exact [OF l] unfolding missing_def by auto
  have c1: "client s1 = Some c" using o(2) assms(4) by simp
  have tot: "count_list oks True + count_list oks False = length oks" by (induction oks) auto
  have "length oks \<le> length (targets req)" unfolding o(1) missing_def by (rule length_filter_le)
  moreover have d: "i - j = count_list oks False" using tot by (simp add: o(3,4))
  ultimately have k: "unat (of_nat (i - j) :: u64) = count_list oks False"
    using assms(5) tot unat_of_nat_fits [of "count_list oks False", where 'a=64] unfolding d by simp
  define M :: nat where "M = 2 ^ 64 - 1"
  have "unat (send_failure_count c) \<le> M" using unat_bound [of "send_failure_count c"] by (simp add: M_def)
  then have nof: "c\<lparr>send_failure_count := of_nat (min M (unat (send_failure_count c) + 0))\<rparr> = c" by simp
  have "True \<in> set oks \<longleftrightarrow> count_list oks True \<noteq> 0" by (simp add: count_list_0_iff)
  then have T: "True \<in> set oks \<longleftrightarrow> 0 < j" "oks \<noteq> [] \<longleftrightarrow> 0 < i" "j < i \<longleftrightarrow> count_list oks False \<noteq> 0"
    using tot unfolding o(3,4) by (auto simp del: count_list_0_iff)
  have rec: "r_record_send_failures c (of_nat (i - j)) = c\<lparr>send_failure_count := of_nat (min M (unat (send_failure_count c) + count_list oks False))\<rparr>"
    unfolding record_failures_eq k M_def [symmetric] ..
  have e: "r_send_packet_to_targets hk req pkt n m be s =
      (if \<not> be \<and> i > 0 \<and> j = 0 then Some (RCLIENT_ERR_IO, s1)
       else if \<not> be \<and> j > 0 \<and> j < i then Some (RCLIENT_OK, put_client (r_record_send_failures c (of_nat (i - j))) s1)
       else Some (RCLIENT_OK, s1))"
    using assms(1-3) l c1 by (simp add: r_send_packet_to_targets_def rd_bytes_def)
  let ?rc = "if \<not> be \<and> oks \<noteq> [] \<and> True \<notin> set oks then RCLIENT_ERR_IO else RCLIENT_OK"
  define c' where "c' = c\<lparr>send_failure_count := of_nat (min M (unat (send_failure_count c) + count_list oks False))\<rparr>"
  have F: "c' = c" if "\<not> j < i" using that nof T(3) by (simp add: c'_def)
  consider "be" | "\<not> be" "i > 0" "j = 0" | "\<not> be" "j > 0" "j < i" | "\<not> be" "\<not> j < i" "i = 0 \<or> j > 0" by fastforce
  then have "\<exists>s'. r_send_packet_to_targets hk req pkt n m be s = Some (?rc, s') \<and> trace s' = trace s1
      \<and> client s' = Some (if be \<or> ?rc \<noteq> RCLIENT_OK then c else c')"
  proof cases
    case 1
    then show ?thesis using e c1 by simp
  next
    case 2
    then show ?thesis using e c1 T(1,2) by simp
  next
    case 3
    then show ?thesis using e T(1,2) rec c'_def by (simp add: store_defs)
  next
    case 4
    then show ?thesis using e c1 T(1,2) F by auto
  qed
  then obtain s' where "r_send_packet_to_targets hk req pkt n m be s = Some (?rc, s')" "trace s' = trace s1"
    "client s' = Some (if be \<or> ?rc \<noteq> RCLIENT_OK then c else c')" by blast
  moreover have "trace s1 = trace s @ send_events (take n pkt) (missing req m) oks" using o(2) by simp
  ultimately show ?thesis unfolding M_def [symmetric] c'_def [symmetric]
    by (intro exI [of _ oks] exI [of _ ?rc] exI [of _ s'] conjI) (simp_all only: o(1) c'_def)
qed

subsection \<open>Facts: which datagrams count\<close>

definition genuine :: "evp_decrypt \<Rightarrow> r_client \<Rightarrow> byte list \<Rightarrow> nat \<Rightarrow> nat \<Rightarrow> byte list \<Rightarrow> bool" where
  "genuine dec c buf len pos pdu \<longleftrightarrow>
     (auth_type c = 1 \<and> cookie c = Some (take 32 (drop (pos + 4) buf))
        \<and> pos + 36 \<le> len \<and> pdu = take (len - (pos + 36)) (drop (pos + 36) buf))
   \<or> (auth_type c = 2 \<and> pos + 32 < len \<and> (\<exists>key. aes_key c = Some key \<and>
        dec key (take 12 (drop (pos + 4) buf)) (take (pos + 16) buf) (take 16 (drop (pos + 16) buf))
          (take (len - (pos + 32)) (drop (pos + 32) buf)) = Some pdu))"

lemma now_effect: "r_now_ms hk s = (now, s1) \<Longrightarrow> client s1 = client s \<and> (trace s1 = trace s \<or> trace s1 = trace s @ [Ev_Now now])"
  by (auto simp: r_now_ms_def emit_def split: option.splits prod.splits)

lemma ignored_datagram:
  assumes "client s = Some c" and "len \<le> length buf" and "wf_client c" and "dec_length (h_evp_decrypt hk)"
    and "r_now_ms hk s = (now, s1)"
    and "\<And>q pdu. q \<in> set (inflight c) \<Longrightarrow> request_id q = unique_id (tenant_of_bytes buf) \<Longrightarrow> now \<le> dedup_deadline_ms q \<Longrightarrow>
        r_allowed_server_id q (key_id (tenant_of_bytes buf)) \<Longrightarrow>
        \<not> genuine (h_evp_decrypt hk) c buf len (unat (tlv_size (tenant_of_bytes buf))) pdu"
  shows "\<exists>rc s'. r_client_on_datagram hk (Some buf) len (Some from) s = Some (rc, s') \<and> (s' = s \<or> s' = s1)"
proof -
  let ?t = "tenant_of_bytes buf" let ?pos = "unat (tlv_size ?t)"
  have h: "r_parse_tenant_header buf len = Some (if tenant_ok buf len then Inr (?t, ?pos) else Inl RCLIENT_ERR_PROTOCOL)"
    by (rule r_parse_tenant_header_eq [OF assms(2)])
  consider "len = 0" | "len \<noteq> 0" "\<not> tenant_ok buf len" | "len \<noteq> 0" "tenant_ok buf len" "find (\<lambda>q. request_id q = unique_id ?t) (inflight c) = None"
    | q where "len \<noteq> 0" "tenant_ok buf len" "find (\<lambda>q. request_id q = unique_id ?t) (inflight c) = Some q"
    by (cases "find (\<lambda>q. request_id q = unique_id ?t) (inflight c)") auto
  then show ?thesis
  proof cases
    case (4 q)
    have q: "q \<in> set (inflight c)" "request_id q = unique_id ?t" using 4(3) by (auto simp: find_Some_iff)
    obtain rx where x: "r_extract_pdu_data (h_evp_decrypt hk) c buf len ?pos R_MAX_PACKET_SIZE = Some rx"
      "\<forall>pdu. rx = Inr pdu \<longrightarrow> genuine (h_evp_decrypt hk) c buf len ?pos pdu"
      using r_extract_authentic [OF assms(2-4), of ?pos R_MAX_PACKET_SIZE] unfolding genuine_def by blast
    show ?thesis
    proof (cases "now > dedup_deadline_ms q \<or> \<not> r_allowed_server_id q (key_id ?t)")
      case True
      then show ?thesis using 4 assms(1,5) h by (auto simp: r_client_on_datagram_def Let_def)
    next
      case False
      then have "\<not> genuine (h_evp_decrypt hk) c buf len ?pos pdu" for pdu using assms(6) [OF q] by (auto simp: not_less)
      then obtain e where "rx = Inl e" using x(2) by (cases rx) auto
      then show ?thesis using False 4 assms(1,5) h x(1) by (simp add: r_client_on_datagram_def Let_def)
    qed
  qed (use assms(1) h in \<open>simp_all add: r_client_on_datagram_def\<close>)
qed

subsection \<open>Properties\<close>

lemma distinct_count: "distinct xs \<Longrightarrow> x \<in> set xs \<Longrightarrow> count_list xs x = 1"
  by (induction xs) (auto simp: count_notin)

text \<open>
  A client with a request on its way, and a host whose completion callback submits the next request
  from inside the callback.
\<close>

definition flying_req :: r_client_req where
  "flying_req = sample_req\<lparr>start_ms := 1000, dedup_deadline_ms := 1060, dedup_ttl_ms := 60, attempt_deadline_ms := 1020,
     ha_preference_deadline_ms := 1020, ha_round_deadline_ms := 1020, packet := [1, 2, 3], packet_len := 3\<rparr>"

definition busy_client :: r_client where
  "busy_client = sample_client\<lparr>inflight := [flying_req]\<rparr>"

definition busy_sys :: "nat sys" where
  "busy_sys = sample_sys\<lparr>client := Some busy_client, next_ptr := 2\<rparr>"

definition chain_hooks :: "nat hooks" where
  "chain_hooks = sample_hooks\<lparr>h_cb := (\<lambda>u h st r s. map_option snd
     (r_client_check_rate_limit_async_impl sample_hooks (Some (rq_resources sample_req)) 1 None 0 None 0 (Some u) False s))\<rparr>"

lemma sample_host: "host_ok sample_hooks"
  using sample_fresh(3) sample_hooks_laws by (simp add: host_ok_def) (simp add: sample_hooks_def)

lemma chain_host: "host_ok chain_hooks"
proof -
  have a: "args_ok (Some (rq_resources sample_req)) 1 None 0 None 0"
    using sample_req_wf by (simp add: args_ok_def wf_req_def wf_label_def sample_req_def)
  have "\<exists>s'. h_cb chain_hooks u h st r s = Some s' \<and> sys_ok s' \<and> client s' \<noteq> None \<and> (\<exists>evs. trace s' = trace s @ evs)"
    if a': "sys_ok s \<and> client s \<noteq> None" for u h st r s
  proof -
    obtain c where "sys_ok s" "client s = Some c" using a' by auto
    from check_rate_limit_ok [OF sample_host this a, of "Some u" False] show ?thesis
      by (auto simp: chain_hooks_def fine_def)
  qed
  moreover have "resolver_ok chain_hooks" "rand_laws chain_hooks" "aead_laws (h_evp_encrypt chain_hooks) (h_evp_decrypt chain_hooks)"
    using sample_host by (auto simp: host_ok_def chain_hooks_def resolver_ok_def rand_laws_def)
  ultimately show ?thesis unfolding host_ok_def by blast
qed

lemma busy_ok: "sys_ok busy_sys" "client busy_sys = Some busy_client" "find_req 1 busy_client = Some flying_req"
proof -
  show c: "client busy_sys = Some busy_client" by (simp add: busy_sys_def)
  show "find_req 1 busy_client = Some flying_req" by (simp add: find_req_def busy_client_def flying_req_def sample_req_def)
  have p: "policy_valid r_client_default_request_policy None" "policy_units r_client_default_request_policy = 3"
    "policy_rounds r_client_default_request_policy (Suc 0) = 1"
    by (simp_all add: policy_valid_def policy_units_def policy_rounds_def r_client_default_request_policy_def
        schedule_valid_def schedule_value_def max_ttl_def)
  have "on_schedule r_client_default_request_policy None flying_req"
    using p by (simp add: on_schedule_def end_units_def flying_req_def sample_req_def)
      (simp add: r_client_default_request_policy_def)
  then have "req_ok busy_client flying_req"
    by (simp add: req_ok_def busy_client_def sample_client_def flying_req_def sample_req_def)
  moreover have "wf_client busy_client" using sample_client_wf by (simp add: wf_client_def busy_client_def)
  moreover have "forced_refresh_jitter_ms (dns_policy busy_client) \<noteq> UINT64_MAX" using sample_fresh(4) by (simp add: busy_client_def)
  ultimately have "requests_ok 2 [] busy_client"
    by (simp add: requests_ok_def busy_client_def flying_req_def sample_req_def)
  moreover have "dns_idle busy_sys"
    by (rule dns_fresh_idle) (simp add: dns_fresh_def busy_sys_def sample_sys_def busy_client_def sample_client_def)
  ultimately show "sys_ok busy_sys" by (simp add: sys_ok_def busy_sys_def sample_sys_def)
qed

text \<open>
  (C1) Under any sequence of calls, datagrams, time-outs, cancellations and DNS answers, with
  allocations, sends and random bytes failing at will and callbacks that call back into the client:
  no completion callback is delivered twice, no request that was called back is still in flight, and
  every call the host may make next is free of undefined behaviour.
\<close>

theorem client_never_stuck:
  assumes "host_ok hk" and "client_reach hk s t" and "sys_ok s" and "client s \<noteq> None"
  shows "distinct (cb_handles (trace t)) \<and> (\<exists>c. client t = Some c \<and> distinct (map handle (inflight c))
    \<and> handle ` set (inflight c) \<inter> set (cb_handles (trace t)) = {}
    \<and> (\<forall>resources rn guards gn label len cb borrowed. args_ok resources rn guards gn label len \<longrightarrow>
         r_client_check_rate_limit_async_impl hk resources rn guards gn label len cb borrowed t \<noteq> None)
    \<and> (\<forall>rs. list_all wf_report rs \<longrightarrow> r_client_report_latency hk (Some rs) (length rs) t \<noteq> None)
    \<and> (\<forall>buf from. r_client_on_datagram hk (Some buf) (length buf) from t \<noteq> None)
    \<and> (\<forall>h \<in> handle ` set (inflight c). \<forall>now. r_client_on_timeout hk (Some h) now t \<noteq> None)
    \<and> (\<forall>req. r_client_cancel_request hk req t \<noteq> None)
    \<and> (\<forall>l \<in> dom (lookups t). \<forall>ok recs as. r_dns_srv_cb_fn hk l ok recs t \<noteq> None
         \<and> (list_all addr_ok as \<longrightarrow> r_dns_addr_cb_fn hk l ok as t \<noteq> None)))"
proof -
  note h = client_host.intro [OF assms(1)]
  have f: "fine s t" by (rule client_host.reach_fine [OF h assms(2-4)])
  then obtain c where c: "sys_ok t" "client t = Some c" by (auto simp: fine_def)
  note e = client_host.entry_points_defined [OF h c]
  have rep: "r_client_report_latency hk (Some rs) (length rs) t \<noteq> None" if "list_all wf_report rs" for rs
    using e(2) [of "Some rs" "length rs"] that by simp
  have dg: "r_client_on_datagram hk (Some buf) (length buf) from t \<noteq> None" for buf "from"
    using e(3) [of "Some buf" "length buf"] by simp
  have tmo: "r_client_on_timeout hk (Some x) now t \<noteq> None" if "x \<in> handle ` set (inflight c)" for x now
    using e(4) [of x now] that by (simp add: find_req_None)
  have srv: "r_dns_srv_cb_fn hk l ok recs t \<noteq> None" if "l \<in> dom (lookups t)" for l ok recs
    using e(6) [of l ok recs] that by (simp add: dom_def)
  have addr: "r_dns_addr_cb_fn hk l ok as t \<noteq> None" if "l \<in> dom (lookups t)" "list_all addr_ok as" for l ok "as"
    using e(7) [of l "as" ok] that by (simp add: dom_def)
  have d: "distinct (cb_handles (trace t))" "distinct (map handle (inflight c))"
    "handle ` set (inflight c) \<inter> set (cb_handles (trace t)) = {}"
    using c by (auto simp: sys_ok_def requests_ok_def)
  show ?thesis
    by (intro conjI exI [of _ c] allI impI ballI) (rule c(2) d dg e(5) | erule e(1) rep tmo srv | erule (1) addr)+
qed

theorem client_never_stuck_witness:
  "\<exists>rc t. r_client_on_timeout chain_hooks (Some 1) 1020 busy_sys = Some (rc, t)
     \<and> distinct (cb_handles (trace t)) \<and> r_client_cancel_request chain_hooks (Some 1) t \<noteq> None"
proof -
  have n: "client busy_sys \<noteq> None" using busy_ok(2) by simp
  have "1 \<in> handle ` set (inflight busy_client)" using find_req_None [of 1 busy_client] busy_ok(3) by auto
  then have "r_client_on_timeout chain_hooks (Some 1) 1020 busy_sys \<noteq> None"
    using client_never_stuck [OF chain_host client_reach.start busy_ok(1) n] busy_ok(2) by auto
  then obtain rc t where t: "r_client_on_timeout chain_hooks (Some 1) 1020 busy_sys = Some (rc, t)" by auto
  have "client_reach chain_hooks busy_sys t"
    using client_reach.step [OF client_reach.start client_step.timeout [OF busy_ok(2) _ t]] busy_ok(3) by simp
  from client_never_stuck [OF chain_host this busy_ok(1) n]
  have "distinct (cb_handles (trace t)) \<and> r_client_cancel_request chain_hooks (Some 1) t \<noteq> None" by blast
  then show ?thesis using t by blast
qed

text \<open>
  (C2) Every request is answered: a host that serves the timer of a request at the deadlines the
  client announces, or later, has to do so at most replay count plus two times, and then the
  completion callback of the request has been called exactly once.
\<close>

theorem request_completes:
  assumes "host_ok hk" and "sys_ok s" and "client s = Some c" and "find_req h c \<noteq> None"
    and "unat (replay_count (policy c)) + 2 \<le> length ts"
  shows "\<exists>s'. fire hk h ts s = Some s' \<and> sys_ok s' \<and> count_list (cb_handles (trace s')) h = 1"
proof -
  obtain q where q: "find_req h c = Some q" using assms(4) by auto
  then have "waiting h (policy c) (length ts) s"
    using assms(3,5) steps_left_le [of "policy c" q] by (auto simp: in_flight_def)
  from fire_completes [OF assms(1,2) this] obtain s' where
    s': "fire hk h ts s = Some s'" "sys_ok s'" "h \<in> set (cb_handles (trace s'))" by blast
  have "distinct (cb_handles (trace s'))" using s'(2) by (simp add: sys_ok_def)
  from distinct_count [OF this s'(3)] s'(1,2) show ?thesis by blast
qed

theorem request_completes_witness:
  "\<exists>s'. fire chain_hooks 1 [1020, 5000, 0, 0] busy_sys = Some s' \<and> count_list (cb_handles (trace s')) 1 = 1"
proof -
  have "unat (replay_count (policy busy_client)) + 2 \<le> length [1020, 5000, 0, 0 :: u64]"
    by (simp add: busy_client_def sample_client_def r_client_default_request_policy_def)
  from request_completes [OF chain_host busy_ok(1,2) _ this] busy_ok(3) show ?thesis by auto
qed

text \<open>
  (C3) The timer of the client implements the policy: a due time-out takes the request from its
  round to the next one, from the last round to the final receive phase when the policy has one, or
  completes it with a callback; each state ends exactly when the policy says, at the start of the
  request plus the units of all rounds up to it, computed without wrap-around and never after the
  deduplication deadline.
\<close>

theorem timeout_refines_policy:
  assumes "host_ok hk" and "sys_ok s" and "client s = Some c" and "find_req h c = Some q" and "attempt_deadline_ms q \<le> t"
  shows "\<exists>s'. r_client_on_timeout hk (Some h) t s = Some (RCLIENT_OK, s')
    \<and> policy_step (policy c) (abs_state h s) (abs_state h s')
    \<and> (abs_state h s' = Done \<longrightarrow> h \<in> set (cb_handles (trace s')))
    \<and> (\<forall>c' q'. client s' = Some c' \<and> find_req h c' = Some q' \<longrightarrow>
         unat (ha_round_deadline_ms q') = spec_deadline (policy c') (unat (start_ms q')) (abs_state h s')
         \<and> ha_round_deadline_ms q' \<le> dedup_deadline_ms q')"
proof -
  obtain s' where s': "r_client_on_timeout hk (Some h) t s = Some (RCLIENT_OK, s')" "sys_ok s'"
    "policy_step (policy c) (state_of q) (abs_state h s')" "abs_state h s' \<noteq> Done \<or> h \<in> set (cb_handles (trace s'))"
    using due_timeout_refines [OF assms] by blast
  have "unat (ha_round_deadline_ms q') = spec_deadline (policy c') (unat (start_ms q')) (abs_state h s')
      \<and> ha_round_deadline_ms q' \<le> dedup_deadline_ms q'" if a: "client s' = Some c'" "find_req h c' = Some q'" for c' q'
  proof -
    have o: "on_schedule (policy c') (quotas c') q'" using req_of_sys(3) [OF s'(2) a] .
    have "unat (ha_round_deadline_ms q') \<le> unat (dedup_deadline_ms q')"
      using o end_units_le [of q' "policy c'"] by (simp add: on_schedule_def)
    then show ?thesis using on_schedule_deadline [OF o] a by (simp add: abs_state_def word_le_nat_alt)
  qed
  moreover have "abs_state h s = state_of q" using assms(3,4) by (simp add: abs_state_def)
  ultimately show ?thesis using s' by auto
qed

theorem timeout_refines_policy_witness:
  "\<exists>s'. r_client_on_timeout chain_hooks (Some 1) 1020 busy_sys = Some (RCLIENT_OK, s')
     \<and> policy_step r_client_default_request_policy (abs_state 1 busy_sys) (abs_state 1 s')"
proof -
  have "attempt_deadline_ms flying_req \<le> 1020" by (simp add: flying_req_def)
  moreover have "policy busy_client = r_client_default_request_policy" by (simp add: busy_client_def sample_client_def)
  ultimately show ?thesis using timeout_refines_policy [OF chain_host busy_ok, of 1020] by metis
qed

text \<open>
  (C7) A transmission offers the packet once to every target, in order, or on a replay exactly to
  the targets that have not answered; an unreachable endpoint does not stop the loop.  It fails, with
  the I/O error, only when at least one send was attempted and none succeeded; a partial failure is
  added to the failure counter, which saturates instead of wrapping.
\<close>

theorem send_packet_exact:
  assumes "h_udp_send hk = Some f" and "0 < n" and "n \<le> length pkt" and "client s = Some c" and "length (targets req) < 2 ^ 64"
  shows "\<exists>oks rc s'. r_send_packet_to_targets hk req pkt n missing_only best_effort s = Some (rc, s')
    \<and> length oks = length (missing req missing_only)
    \<and> trace s' = trace s @ map2 (\<lambda>t ok. Ev_Send (ep_addr t) (take n pkt) ok) (missing req missing_only) oks
    \<and> rc = (if \<not> best_effort \<and> oks \<noteq> [] \<and> True \<notin> set oks then RCLIENT_ERR_IO else RCLIENT_OK)
    \<and> client s' = Some (if best_effort \<or> rc \<noteq> RCLIENT_OK then c
        else c\<lparr>send_failure_count := of_nat (min (2 ^ 64 - 1) (unat (send_failure_count c) + count_list oks False))\<rparr>)"
  using send_packet_effect [OF assms, of missing_only best_effort] unfolding send_events_def .

theorem send_packet_exact_witness:
  "\<exists>rc s'. r_send_packet_to_targets sample_hooks flying_req [1, 2, 3] 3 True False busy_sys = Some (rc, s')
     \<and> (\<exists>ok. trace s' = [Ev_Send sample_addr [1, 2, 3] ok])"
proof -
  have m: "missing flying_req True = [\<lparr>ep_addr = sample_addr, ep_server_id = 4, has_server_id = True\<rparr>]"
    by (simp add: missing_def flying_req_def sample_req_def r_request_target_responded_def)
  have f: "h_udp_send sample_hooks = Some (\<lambda>a b w. (True, w))" by (simp add: sample_hooks_def)
  have l: "length (targets flying_req) < 2 ^ 64" by (simp add: flying_req_def sample_req_def)
  obtain oks rc s' where r: "r_send_packet_to_targets sample_hooks flying_req [1, 2, 3] 3 True False busy_sys = Some (rc, s')"
    "length oks = 1" "trace s' = trace busy_sys @ map2 (\<lambda>t ok. Ev_Send (ep_addr t) [1, 2, 3] ok) (missing flying_req True) oks"
    using send_packet_exact [OF f _ _ busy_ok(2) l, of 3 "[1, 2, 3]" True False] by (auto simp: m)
  then obtain ok where "oks = [ok]" by (cases oks) auto
  then have "trace s' = [Ev_Send sample_addr [1, 2, 3] ok]" using r(3) m by (simp add: busy_sys_def sample_sys_def)
  then show ?thesis using r(1) by blast
qed

text \<open>
  (C4) Only a genuine answer has an effect.  A datagram that does not name a request in flight, comes
  after its deduplication deadline, names a server the request was not sent to, or whose payload is
  not authenticated by the credential of the client (the cookie, or AES-GCM over header and payload)
  leaves the client as it is: no callback, no send, not even a change of the request it names.
\<close>

theorem forged_datagram_ignored:
  assumes "client s = Some c" and "len \<le> length buf" and "wf_client c" and "dec_length (h_evp_decrypt hk)"
    and "r_now_ms hk s = (now, s1)"
    and "\<And>q pdu. q \<in> set (inflight c) \<Longrightarrow> request_id q = unique_id (tenant_of_bytes buf) \<Longrightarrow> now \<le> dedup_deadline_ms q \<Longrightarrow>
        r_allowed_server_id q (key_id (tenant_of_bytes buf)) \<Longrightarrow>
        \<not> genuine (h_evp_decrypt hk) c buf len (unat (tlv_size (tenant_of_bytes buf))) pdu"
  shows "\<exists>rc s'. r_client_on_datagram hk (Some buf) len (Some from) s = Some (rc, s')
    \<and> client s' = Some c \<and> refreshes s' = refreshes s \<and> lookups s' = lookups s
    \<and> (trace s' = trace s \<or> trace s' = trace s @ [Ev_Now now])"
proof -
  obtain rc s' where s': "r_client_on_datagram hk (Some buf) len (Some from) s = Some (rc, s')" "s' = s \<or> s' = s1"
    using ignored_datagram [OF assms(1-5), of "from"] assms(6) by blast
  have "refreshes s1 = refreshes s \<and> lookups s1 = lookups s" using quiet_now [OF assms(5)] by (simp add: quiet_def)
  then show ?thesis using s' now_effect [OF assms(5)] assms(1) by auto
qed

theorem forged_datagram_ignored_witness:
  "\<exists>rc s'. r_client_on_datagram sample_hooks (Some (replicate 60 0)) 60 (Some sample_addr) busy_sys = Some (rc, s')
     \<and> client s' = Some busy_client"
proof -
  have wf: "wf_client busy_client" using sample_client_wf by (simp add: wf_client_def busy_client_def)
  have d: "dec_length (h_evp_decrypt sample_hooks)" by (auto simp: dec_length_def sample_hooks_def split: if_splits)
  obtain now s1 where n: "r_now_ms sample_hooks busy_sys = (now, s1)" by fastforce
  have "\<not> genuine (h_evp_decrypt sample_hooks) busy_client (replicate 60 0) 60 pos pdu" for pos pdu
    by (auto simp: genuine_def busy_client_def sample_client_def)
  from forged_datagram_ignored [OF busy_ok(2) _ wf d n, of 60 "replicate 60 0" sample_addr] this show ?thesis by fastforce
qed

text \<open>
  (C6) The completion callback runs when the client is done with the request: the request has left
  the list, everything the completion sends has been sent, and the client satisfies its invariant, so
  that the callback may use the client freely, cancel the request again included.
\<close>

theorem callback_on_clean_client:
  assumes "sys_ok s" and "client s = Some c" and "find_req h c = Some q"
  shows "\<exists>s1 c1. r_request_complete hk h status selected s =
      (h_cb hk (user q) (Some h) status (if selected then best q else None) s1 \<bind> r_notify_steering_when_drained hk)
    \<and> sys_ok s1 \<and> client s1 = Some c1 \<and> inflight c1 = filter (\<lambda>q'. handle q' \<noteq> h) (inflight c)
    \<and> r_client_cancel_request hk (Some h) s1 = Some s1
    \<and> (\<exists>evs. trace s1 = trace s @ evs @ [Ev_Callback (user q) (Some h) status (if selected then best q else None)]
         \<and> list_all (\<lambda>e. \<not> is_callback e) evs)"
proof -
  obtain s2 c2 s3 where k: "quiet s s2" "client s2 = Some c2" "marks_only c c2"
    "s3 = emit (Ev_Callback (user q) (Some h) status (if selected then best q else None))
        (put_client (c2\<lparr>inflight := snd (r_request_remove h (inflight c2)),
           steering_rebind_pending := steering_rebind_pending c2 \<or> steering_rebind q\<rparr>) s2)" "sys_ok s3"
    "r_request_complete hk h status selected s =
        (h_cb hk (user q) (Some h) status (if selected then best q else None) s3 \<bind> r_notify_steering_when_drained hk)"
    using complete_steps [OF assms] by blast
  have d: "distinct (map handle (inflight c))" using assms(1,2) by (auto simp: sys_ok_def requests_ok_def)
  obtain c3 where c3: "client s3 = Some c3" "inflight c3 = filter (\<lambda>q'. handle q' \<noteq> h) (inflight c)"
    using k(4) marks_only_fields [OF k(3)] request_remove_filter [OF d] by (simp add: emit_def store_defs)
  have "distinct (map handle (inflight c3))" using d unfolding c3(2) by (simp add: distinct_map_filter)
  moreover have "h \<notin> handle ` set (inflight c3)" unfolding c3(2) by auto
  ultimately have "r_client_cancel_request hk (Some h) s3 = Some s3"
    using c3(1) by (simp add: r_client_cancel_request_def request_remove_filter)
  moreover obtain evs where "trace s2 = trace s @ evs" "list_all (\<lambda>e. \<not> is_callback e) evs" using k(1) by (auto simp: quiet_def)
  then have "trace s3 = trace s @ evs @ [Ev_Callback (user q) (Some h) status (if selected then best q else None)]"
    using k(4) by (simp add: emit_def store_defs)
  ultimately show ?thesis using k(5,6) c3 \<open>list_all (\<lambda>e. \<not> is_callback e) evs\<close> by blast
qed

theorem callback_on_clean_client_witness:
  "\<exists>s1 c1. client s1 = Some c1 \<and> inflight c1 = [] \<and> r_client_cancel_request sample_hooks (Some 1) s1 = Some s1
     \<and> r_request_complete sample_hooks 1 RCLIENT_ERR_TIMEOUT False busy_sys =
         (h_cb sample_hooks 0 (Some 1) RCLIENT_ERR_TIMEOUT None s1 \<bind> r_notify_steering_when_drained sample_hooks)"
  using callback_on_clean_client [OF busy_ok, of sample_hooks RCLIENT_ERR_TIMEOUT False]
  by (auto simp: busy_client_def flying_req_def sample_req_def)

end
