(* ===== verification/Lifecycle.thy ===== *)
theory Lifecycle
  imports Request_Inv
begin

text \<open>
  Creating and destroying a client (\<^verbatim>\<open>src/r_client.c\<close>, \<^verbatim>\<open>r_client_create\<close> to \<^verbatim>\<open>r_client_destroy\<close>), the default
  name under which it looks for its servers, the public identities, and the parser of a credential.

  The system state holds at most one client; \<open>r_client_create\<close> is called when there is none.  The host
  interfaces \<^verbatim>\<open>io_ops\<close> and \<^verbatim>\<open>resolver_ops\<close> are the record of hooks and never null.  Wiping the secrets
  before their memory is freed has no counterpart in the model.
\<close>

subsection \<open>Strings\<close>

fun dec_digits :: "nat \<Rightarrow> byte list" where
  "dec_digits n = (if n < 10 then [of_nat (48 + n)] else dec_digits (n div 10) @ [of_nat (48 + n mod 10)])"

declare dec_digits.simps [simp del]

text \<open>\<open>snprintf\<close> of a text: at most \<open>cap\<close> bytes are written, the last of them a zero.\<close>

definition snprintf :: "byte list \<Rightarrow> nat \<Rightarrow> byte list \<Rightarrow> byte list option" where
  "snprintf buf cap str = (if cap = 0 then Some buf else wr_bytes buf 0 (take (cap - 1) str @ [0]))"

definition R_CLIENT_DEFAULT_TENANT_DNS_CAPACITY :: nat where
  "R_CLIENT_DEFAULT_TENANT_DNS_CAPACITY = 42"

definition r_client_format_default_tenant_dns ::
  "u64 \<Rightarrow> byte list option \<Rightarrow> nat \<Rightarrow> (r_client_error \<times> byte list option) option" where
  "r_client_format_default_tenant_dns kid out out_capacity = (case out of
     None \<Rightarrow> Some (RCLIENT_ERR_CONFIG, None)
   | Some out \<Rightarrow>
       if out_capacity = 0 then Some (RCLIENT_ERR_CONFIG, Some out)
       else do {
         out \<leftarrow> wr_bytes out 0 [0];
         let str = cstr ''c-'' @ dec_digits (unat kid) @ cstr ''.p0.ratelimitly.com'';
         out \<leftarrow> snprintf out out_capacity str;
         let written = length str;
         if written \<ge> out_capacity then do {
           out \<leftarrow> wr_bytes out 0 [0];
           Some (RCLIENT_ERR_CONFIG, Some out) }
         else Some (RCLIENT_OK, Some out) })"

definition r_strdup_n :: "'w hooks \<Rightarrow> byte list option \<Rightarrow> nat \<Rightarrow> 'w sys \<Rightarrow> (byte list option \<times> 'w sys) option" where
  "r_strdup_n hk src len s = (case src of
     None \<Rightarrow> Some (None, s)
   | Some src \<Rightarrow> do {
       let len = (if len = 0 then strlen src else len);
       let (ok, s) = alloc hk s;
       if \<not> ok then Some (None, s)
       else do {
         bytes \<leftarrow> rd_bytes (src @ [0]) 0 len;
         Some (Some (bytes @ [0]), s) } })"

subsection \<open>Configuration\<close>

record r_tenant_config =
  tc_dns_name :: "byte list option"
  tc_key_id :: u64
  tc_auth_type :: nat
  tc_secret :: "byte list option"
  tc_secret_len :: nat

record r_client_config =
  cc_tenant :: r_tenant_config
  cc_request_policy :: "r_request_policy option"
  cc_dns_refresh :: r_dns_refresh_policy

definition r_client_configure_auth ::
  "'w hooks \<Rightarrow> r_tenant_config \<Rightarrow> 'w sys \<Rightarrow> (r_client_error \<times> 'w sys) option" where
  "r_client_configure_auth hk tenant s = (case tc_secret tenant of
     None \<Rightarrow> Some (RCLIENT_ERR_CONFIG, s)
   | Some secret \<Rightarrow> do {
       (dup, s) \<leftarrow> r_strdup_n hk (Some secret) (tc_secret_len tenant) s;
       case dup of
         None \<Rightarrow> Some (RCLIENT_ERR_NOMEM, s)
       | Some auth_secret \<Rightarrow> do {
           let (al, w) = h_allocs hk (world s);
           let s = s\<lparr>world := w\<rparr>;
           (ok, out, q) \<leftarrow> r_decode_api_key_bech32_with_quotas al (Some auth_secret) 64
             \<lparr>out_type = R_AUTH_COOKIE, out_key_id = 0, out_secret = replicate 64 0, out_secret_len = 0\<rparr>;
           if \<not> ok \<or> out_secret_len out \<noteq> 32 then Some (RCLIENT_ERR_CONFIG, s)
           else if tc_auth_type tenant \<noteq> 0 \<and> auth_code (out_type out) \<noteq> tc_auth_type tenant
           then Some (RCLIENT_ERR_CONFIG, s)
           else if tc_key_id tenant \<noteq> 0 \<and> out_key_id out \<noteq> tc_key_id tenant
           then Some (RCLIENT_ERR_CONFIG, s)
           else do {
             bytes \<leftarrow> rd_bytes (out_secret out) 0 32;
             c \<leftarrow> client s;
             let c = (case out_type out of
               R_AUTH_COOKIE \<Rightarrow> c\<lparr>cookie := Some bytes\<rparr>
             | R_AUTH_AES_GCM \<Rightarrow> c\<lparr>aes_key := Some bytes\<rparr>);
             Some (RCLIENT_OK, put_client (c\<lparr>quotas := q, cl_key_id := out_key_id out,
                                             auth_type := auth_code (out_type out)\<rparr>) s) } } })"

definition r_client_configure_dns ::
  "'w hooks \<Rightarrow> byte list option \<Rightarrow> 'w sys \<Rightarrow> (r_client_error \<times> 'w sys) option" where
  "r_client_configure_dns hk dns_override s = do {
     c \<leftarrow> client s;
     (st, name) \<leftarrow> (if nonempty_str dns_override then Some (RCLIENT_OK, dns_override)
       else r_client_format_default_tenant_dns (cl_key_id c)
              (Some (replicate R_CLIENT_DEFAULT_TENANT_DNS_CAPACITY 0)) R_CLIENT_DEFAULT_TENANT_DNS_CAPACITY);
     if st \<noteq> RCLIENT_OK then Some (st, s)
     else do {
       (dup, s) \<leftarrow> r_strdup_n hk name 0 s;
       case dup of
         None \<Rightarrow> Some (RCLIENT_ERR_NOMEM, s)
       | Some nm \<Rightarrow> do {
           c \<leftarrow> client s;
           Some (RCLIENT_OK, put_client (c\<lparr>dns_name := nm\<rparr>) s) } } }"

subsection \<open>Create and destroy\<close>

definition r_client_destroy :: "'w hooks \<Rightarrow> 'w sys \<Rightarrow> 'w sys option" where
  "r_client_destroy hk s = (case client s of
     None \<Rightarrow> Some s
   | Some c \<Rightarrow> do {
       let s = put_client (c\<lparr>inflight := []\<rparr>) s;
       s \<leftarrow> (case dns_refresh c of
         None \<Rightarrow> Some s
       | Some r \<Rightarrow> r_dns_refresh_detach hk r s);
       Some (s\<lparr>client := None\<rparr>) })"

text \<open>The zeroed client object with the configuration copied into it.\<close>

definition r_zero_policy :: r_request_policy where
  "r_zero_policy = \<lparr>unit_ms = 0, replay_count = 0,
     replay_gap = \<lparr>kind = R_HA_SCHEDULE_FIXED, initial_units = 0, max_units = 0, growth = 0\<rparr>,
     final_receive_units = 0, completion_delivery = False\<rparr>"

definition r_calloc_client :: "r_client_config \<Rightarrow> r_client" where
  "r_calloc_client config =
    \<lparr>cl_key_id = tc_key_id (cc_tenant config), auth_type = tc_auth_type (cc_tenant config),
     dns_policy = cc_dns_refresh config, policy = r_zero_policy, dns_name = [], quotas = None,
     cookie = None, aes_key = None, servers = [], send_failure_count = 0, last_dns_refresh_ms = 0,
     dns_refresh_ttl_ms = 0, dns_refresh_inflight = False, inflight = [], steering_rebind_pending = False,
     dns_refresh = None\<rparr>"

definition r_client_create ::
  "'w hooks \<Rightarrow> r_client_config option \<Rightarrow> 'w sys \<Rightarrow> (r_client_error \<times> 'w sys) option" where
  "r_client_create hk config s = (case config of
     None \<Rightarrow> Some (RCLIENT_ERR_CONFIG, s)
   | Some config \<Rightarrow>
       if tc_secret (cc_tenant config) = None then Some (RCLIENT_ERR_CONFIG, s)
       else
         let (ok, s) = alloc hk s in
         if \<not> ok then Some (RCLIENT_ERR_NOMEM, s)
         else do {
           let s = put_client (r_calloc_client config) s;
           (st, s) \<leftarrow> r_client_configure_auth hk (cc_tenant config) s;
           if st \<noteq> RCLIENT_OK then do {
             s \<leftarrow> r_client_destroy hk s;
             Some (st, s) }
           else do {
             (st, s) \<leftarrow> r_client_configure_dns hk (tc_dns_name (cc_tenant config)) s;
             if st \<noteq> RCLIENT_OK then do {
               s \<leftarrow> r_client_destroy hk s;
               Some (st, s) }
             else do {
               c \<leftarrow> client s;
               let c = c\<lparr>policy := (case cc_request_policy config of
                           None \<Rightarrow> r_client_default_request_policy | Some p \<Rightarrow> p),
                         last_dns_refresh_ms := 0, dns_refresh_inflight := False, servers := [], inflight := []\<rparr>;
               (_, s) \<leftarrow> r_dns_maybe_refresh hk True (put_client c s);
               Some (RCLIENT_OK, s) } } })"

subsection \<open>Identities and the credential parser\<close>

definition r_client_derive_bucket_id ::
  "hash_fn \<Rightarrow> byte list option \<Rightarrow> u32 \<Rightarrow> u32 \<Rightarrow> r_client_error + byte list" where
  "r_client_derive_bucket_id blake2s256 bucket_name window_size rate =
    (case r_hash_content_id_blake2s_128 blake2s256 (Some (cstr ''ratelimitly.resource.v1'' @ [0]))
            bucket_name [window_size, rate] of
       None \<Rightarrow> Inl RCLIENT_ERR_CONFIG
     | Some out_id \<Rightarrow> Inr out_id)"

definition r_client_derive_latency_tracker_id ::
  "hash_fn \<Rightarrow> byte list option \<Rightarrow> u32 \<Rightarrow> u32 \<Rightarrow> u32 \<Rightarrow> r_client_error + byte list" where
  "r_client_derive_latency_tracker_id blake2s256 latency_tracker_name ttl samples threshold =
    (case r_hash_content_id_blake2s_128 blake2s256 (Some (cstr ''ratelimitly.latency-tracker.v2'' @ [0]))
            latency_tracker_name [ttl, samples, threshold] of
       None \<Rightarrow> Inl RCLIENT_ERR_CONFIG
     | Some out_id \<Rightarrow> Inr out_id)"

record r_auth_key_info =
  ai_quotas :: r_bech32_quotas
  ai_type :: r_auth_type
  ai_key_id :: u64
  ai_secret :: "byte list"
  ai_secret_len :: nat

definition r_client_parse_auth_key ::
  "allocs \<Rightarrow> byte list option \<Rightarrow> (r_client_error + r_auth_key_info) option" where
  "r_client_parse_auth_key al encoded = (case encoded of
     None \<Rightarrow> Some (Inl RCLIENT_ERR_CONFIG)
   | Some e \<Rightarrow> do {
       (ok, out, q) \<leftarrow> r_decode_api_key_bech32_with_quotas al (Some e) 32
         \<lparr>out_type = R_AUTH_COOKIE, out_key_id = 0, out_secret = replicate 32 0, out_secret_len = 0\<rparr>;
       if \<not> ok then Some (Inl RCLIENT_ERR_CONFIG)
       else if out_secret_len out \<noteq> 32 then Some (Inl RCLIENT_ERR_CONFIG)
       else case q of
         None \<Rightarrow> None
       | Some qs \<Rightarrow>
           Some (Inr \<lparr>ai_quotas = qs, ai_type = out_type out, ai_key_id = out_key_id out,
                      ai_secret = out_secret out, ai_secret_len = out_secret_len out\<rparr>) })"

subsection \<open>Facts: the default name\<close>

definition dec_value :: "byte list \<Rightarrow> nat" where
  "dec_value ds = foldl (\<lambda>v d. v * 10 + (unat d - 48)) 0 ds"

lemma unat_digit: "n < 10 \<Longrightarrow> unat (of_nat (48 + n) :: byte) = 48 + n"
  by (rule unat_of_nat_fits) simp

lemma dec_value_digits: "dec_value (dec_digits n) = n"
proof (induction n rule: dec_digits.induct)
  case (1 n)
  then show ?case using unat_digit [of n] unat_digit [of "n mod 10"]
    by (subst dec_digits.simps) (auto simp: dec_value_def simp del: of_nat_add)
qed

lemma dec_digits_range: "d \<in> set (dec_digits n) \<Longrightarrow> 48 \<le> unat d \<and> unat d \<le> 57"
proof (induction n rule: dec_digits.induct)
  case (1 n)
  show ?case
  proof (cases "n < 10")
    case True
    then show ?thesis using "1.prems" unat_digit [of n] by (simp add: dec_digits.simps [of n] del: of_nat_add)
  next
    case False
    then show ?thesis using 1 unat_digit [of "n mod 10"] by (auto simp: dec_digits.simps [of n] simp del: of_nat_add)
  qed
qed

lemma length_dec_digits: "n < 10 ^ k \<Longrightarrow> 0 < k \<Longrightarrow> length (dec_digits n) \<le> k"
proof (induction n arbitrary: k rule: dec_digits.induct)
  case (1 n)
  show ?case
  proof (cases "n < 10")
    case True
    then show ?thesis using 1(3) by (simp add: dec_digits.simps [of n])
  next
    case False
    obtain j where j: "k = Suc j" using 1(3) by (cases k) auto
    have j0: "0 < j" using False 1(2) by (cases j) (simp_all add: j)
    have "n div 10 < 10 ^ j" using 1(2) j by (simp add: less_mult_imp_div_less mult.commute)
    from "1.IH" [OF False this j0] show ?thesis using False j by (simp add: dec_digits.simps [of n])
  qed
qed

definition default_name :: "u64 \<Rightarrow> byte list" where
  "default_name kid = cstr ''c-'' @ dec_digits (unat kid) @ cstr ''.p0.ratelimitly.com''"

lemma length_default_name: "length (default_name kid) < 42"
proof -
  have "unat kid < 10 ^ 20" using unat_bound [of kid] by simp
  from length_dec_digits [OF this] show ?thesis by (simp add: default_name_def cstr_def)
qed

lemma default_name_no_zero: "0 \<notin> set (default_name kid)"
proof -
  have "0 \<notin> set (dec_digits (unat kid))" using dec_digits_range [of 0 "unat kid"] by auto
  then show ?thesis by (auto simp: default_name_def cstr_def)
qed

lemma default_name_value: "dec_value (takeWhile (\<lambda>c. c \<noteq> 46) (drop 2 (default_name kid))) = unat kid"
proof -
  have "\<forall>d \<in> set (dec_digits (unat kid)). d \<noteq> 46" using dec_digits_range [of 46 "unat kid"] by auto
  then have "takeWhile (\<lambda>c. c \<noteq> 46) (drop 2 (default_name kid)) = dec_digits (unat kid)"
    by (simp add: default_name_def cstr_def takeWhile_append)
  then show ?thesis by (simp add: dec_value_digits)
qed

lemma c_string_terminated: "0 \<notin> set xs \<Longrightarrow> c_string (xs @ 0 # ys) = xs"
  by (auto simp: c_string_def takeWhile_append)

lemma format_default_eq:
  assumes "0 < cap" and "cap \<le> length out"
  shows "r_client_format_default_tenant_dns kid (Some out) cap =
    Some (if length (default_name kid) < cap
          then (RCLIENT_OK, Some (default_name kid @ 0 # drop (Suc (length (default_name kid))) out))
          else (RCLIENT_ERR_CONFIG, Some (0 # drop 1 (take (cap - 1) (default_name kid) @ 0 # drop cap out))))"
proof -
  let ?t = "default_name kid"
  have w0: "wr_bytes out 0 [0] = Some (0 # drop 1 out)" using assms by (simp add: wr_bytes_def)
  have t: "take (cap - 1) ?t = ?t" "Suc (length ?t) \<le> length out" if "length ?t < cap" using that assms by simp_all
  show ?thesis
  proof (cases "length ?t < cap")
    case True
    have "snprintf (0 # drop 1 out) cap ?t = Some (?t @ 0 # drop (Suc (length ?t)) out)"
      using t [OF True] assms(1) by (cases out) (simp_all add: snprintf_def wr_bytes_def)
    then show ?thesis using True assms(1) w0
      by (simp add: r_client_format_default_tenant_dns_def default_name_def [symmetric] Let_def)
  next
    case False
    have l: "length (take (cap - 1) ?t) = cap - 1" using False by simp
    have "snprintf (0 # drop 1 out) cap ?t = Some (take (cap - 1) ?t @ 0 # drop cap out)"
      using l assms by (cases out; cases cap) (simp_all add: snprintf_def wr_bytes_def)
    moreover have "wr_bytes (take (cap - 1) ?t @ 0 # drop cap out) 0 [0]
        = Some (0 # drop 1 (take (cap - 1) ?t @ 0 # drop cap out))" by (simp add: wr_bytes_def)
    ultimately show ?thesis using False assms(1) w0
      by (simp add: r_client_format_default_tenant_dns_def default_name_def [symmetric] Let_def)
  qed
qed

subsection \<open>Facts: a client comes and goes\<close>

lemma strdup_total:
  assumes "\<forall>b. src = Some b \<longrightarrow> len \<le> Suc (length b)"
  shows "\<exists>dup w. r_strdup_n hk src len s = Some (dup, s\<lparr>world := w\<rparr>)"
proof (cases src)
  case None
  then have "r_strdup_n hk src len s = Some (None, s\<lparr>world := world s\<rparr>)" by (simp add: r_strdup_n_def)
  then show ?thesis by blast
next
  case (Some b)
  obtain ok s1 where a: "alloc hk s = (ok, s1)" by fastforce
  obtain w where w: "s1 = s\<lparr>world := w\<rparr>" using alloc_frame [OF a] by blast
  have "(if len = 0 then strlen b else len) \<le> Suc (length b)" using assms Some strlen_le [of b] by auto
  then have "rd_bytes (b @ [0]) 0 (if len = 0 then strlen b else len) \<noteq> None" by (simp add: rd_bytes_def)
  then show ?thesis using Some a w by (auto simp: r_strdup_n_def Let_def)
qed

lemma no_attached:
  assumes "dns_idle s" and "refreshes s r = Some rf" and "\<forall>c. client s = Some c \<longrightarrow> dns_refresh c = None"
  shows "\<not> attached rf"
proof
  assume a: "attached rf"
  have "attached rf \<longrightarrow> client s \<noteq> None" "\<not> (attached rf \<and> detached rf)"
    using assms(1,2) by (auto simp: dns_idle_def dns_mid_def refreshes_ok_def)
  then obtain c where "client s = Some c" "\<not> detached rf" using a by auto
  then show False using assms a by (auto simp: dns_idle_def dns_mid_def client_ok_def)
qed

lemma dns_idle_swap:
  assumes "dns_idle s" and "\<forall>c. client s = Some c \<longrightarrow> dns_refresh c = None"
    and "\<forall>c. cl = Some c \<longrightarrow> dns_refresh c = None \<and> \<not> dns_refresh_inflight c"
  shows "dns_idle (s\<lparr>client := cl\<rparr>)"
proof -
  have R: "refreshes_ok None 0 s" and L: "lookups_ok {} s" using assms(1) by (auto simp: dns_idle_def dns_mid_def)
  have "refreshes_ok None 0 (s\<lparr>client := cl\<rparr>)" unfolding refreshes_ok_def
  proof (intro allI impI)
    fix r rf assume a: "refreshes (s\<lparr>client := cl\<rparr>) r = Some rf"
    then have b: "refreshes s r = Some rf" by simp
    from R [unfolded refreshes_ok_def, rule_format, OF b] no_attached [OF assms(1) b assms(2)]
    show "r < next_ptr (s\<lparr>client := cl\<rparr>) \<and> rf_ok (lookups (s\<lparr>client := cl\<rparr>)) r rf
        \<and> (attached rf \<longrightarrow> client (s\<lparr>client := cl\<rparr>) \<noteq> None)
        \<and> (if None = Some r then scheduling rf = 0 else scheduling rf = 0 \<and> 0 < pending rf \<and> \<not> (attached rf \<and> detached rf))"
      by simp
  qed
  moreover have "lookups_ok {} (s\<lparr>client := cl\<rparr>)" using L by (simp add: lookups_ok_def)
  moreover have "client_ok (s\<lparr>client := cl\<rparr>)"
    using assms(3) no_attached [OF assms(1) _ assms(2)] by (auto simp: client_ok_def)
  ultimately show ?thesis by (simp add: dns_idle_def dns_mid_def)
qed

lemma destroy_ok:
  assumes "sys_ok s"
  shows "\<exists>s'. r_client_destroy hk s = Some s' \<and> sys_ok s' \<and> client s' = None
    \<and> cb_handles (trace s') = cb_handles (trace s) \<and> (\<exists>evs. trace s' = trace s @ evs \<and> list_all (\<lambda>e. \<not> is_callback e) evs)"
proof (cases "client s")
  case None
  then show ?thesis using assms by (auto simp: r_client_destroy_def)
next
  case (Some c)
  let ?s = "put_client (c\<lparr>inflight := []\<rparr>) s"
  have i: "dns_idle ?s"
    by (rule dns_idle_client [of s]) (use assms Some in \<open>auto simp: sys_ok_def store_defs\<close>)
  have "\<exists>s1 c1. (case dns_refresh c of None \<Rightarrow> Some ?s | Some r \<Rightarrow> r_dns_refresh_detach hk r ?s) = Some s1
      \<and> dns_idle s1 \<and> client s1 = Some c1 \<and> dns_refresh c1 = None \<and> dns_frame ?s s1"
  proof (cases "dns_refresh c")
    case None
    then show ?thesis using i by (auto simp: store_defs dns_frame_refl)
  next
    case (Some r)
    have "client ?s = Some (c\<lparr>inflight := []\<rparr>)" "dns_refresh (c\<lparr>inflight := []\<rparr>) = Some r" using Some by (simp_all add: store_defs)
    from detach_ok [OF i this, of hk] obtain s1 c1 where
      "r_dns_refresh_detach hk r ?s = Some s1" "dns_idle s1" "client s1 = Some c1" "dns_refresh c1 = None" by blast
    then show ?thesis using Some detach_frame by fastforce
  qed
  then obtain s1 c1 where s1: "(case dns_refresh c of None \<Rightarrow> Some ?s | Some r \<Rightarrow> r_dns_refresh_detach hk r ?s) = Some s1"
      "dns_idle s1" "client s1 = Some c1" "dns_refresh c1 = None" "dns_frame ?s s1" by blast
  have d: "dns_idle (s1\<lparr>client := None\<rparr>)" by (rule dns_idle_swap [OF s1(2)]) (use s1(3,4) in auto)
  obtain evs where e: "trace s1 = trace s @ evs" "list_all dns_event evs" using s1(5) by (auto simp: dns_frame_def store_defs)
  have n: "next_ptr s \<le> next_ptr s1" using s1(5) by (simp add: dns_frame_def store_defs)
  have cb: "cb_handles (trace s1) = cb_handles (trace s)" using e dns_event_no_callback by simp
  then have "sys_ok (s1\<lparr>client := None\<rparr>)" using assms d n by (fastforce simp: sys_ok_def)
  moreover have "list_all (\<lambda>e. \<not> is_callback e) evs"
    using e(2) by (auto simp: list_all_iff dns_event_def is_callback_def split: event.splits)
  ultimately show ?thesis using s1(1) Some cb e(1) by (auto simp: r_client_destroy_def Let_def)
qed

text \<open>Nothing is left behind once the resolver has answered everything.\<close>

lemma no_leak:
  assumes "dns_idle s" and "\<forall>l. lookups s l = None"
  shows "refreshes s r = None"
proof (rule ccontr)
  assume "refreshes s r \<noteq> None"
  then obtain rf where rf: "refreshes s r = Some rf" by auto
  have "rf_ok (lookups s) r rf" "0 < pending rf" using assms(1) rf by (auto simp: dns_idle_def dns_mid_def refreshes_ok_def)
  moreover have "unfinished (lookups s) r = {}" using assms(2) by (simp add: unfinished_def)
  ultimately show False by (simp add: rf_ok_def)
qed

lemma configure_auth_ok:
  assumes "client s = Some c" and "\<forall>b. tc_secret t = Some b \<longrightarrow> tc_secret_len t \<le> Suc (length b)"
  shows "\<exists>st w c'. r_client_configure_auth hk t s = Some (st, s\<lparr>client := Some c', world := w\<rparr>)
    \<and> (st \<noteq> RCLIENT_OK \<longrightarrow> c' = c)
    \<and> (st = RCLIENT_OK \<longrightarrow> (\<exists>ty sec qs kid. length sec = 32 \<and> quota_bounds qs
        \<and> (tc_auth_type t \<noteq> 0 \<longrightarrow> auth_code ty = tc_auth_type t) \<and> (tc_key_id t \<noteq> 0 \<longrightarrow> kid = tc_key_id t)
        \<and> c' = (case ty of R_AUTH_COOKIE \<Rightarrow> c\<lparr>cookie := Some sec\<rparr> | R_AUTH_AES_GCM \<Rightarrow> c\<lparr>aes_key := Some sec\<rparr>)
            \<lparr>quotas := Some qs, cl_key_id := kid, auth_type := auth_code ty\<rparr>))"
proof (cases "tc_secret t")
  case None
  then have "r_client_configure_auth hk t s = Some (RCLIENT_ERR_CONFIG, s\<lparr>client := Some c, world := world s\<rparr>)"
    using assms(1) by (cases s) (simp add: r_client_configure_auth_def)
  then show ?thesis by blast
next
  case (Some secret)
  obtain dup w where d: "r_strdup_n hk (Some secret) (tc_secret_len t) s = Some (dup, s\<lparr>world := w\<rparr>)"
    using strdup_total [of "Some secret" "tc_secret_len t" hk s] assms(2) Some by auto
  have same: "s\<lparr>world := x\<rparr> = s\<lparr>client := Some c, world := x\<rparr>" for x using assms(1) by (cases s) simp
  show ?thesis
  proof (cases dup)
    case None
    then have "r_client_configure_auth hk t s = Some (RCLIENT_ERR_NOMEM, s\<lparr>client := Some c, world := w\<rparr>)"
      using d Some same by (simp add: r_client_configure_auth_def)
    then show ?thesis by blast
  next
    case dup: (Some sec)
    obtain al w' where al: "h_allocs hk w = (al, w')" by fastforce
    let ?o = "\<lparr>out_type = R_AUTH_COOKIE, out_key_id = 0, out_secret = replicate 64 0, out_secret_len = 0\<rparr>"
    obtain ok out q where r: "r_decode_api_key_bech32_with_quotas al (Some sec) 64 ?o = Some (ok, out, q)"
      "length (out_secret out) = 64" "ok \<longrightarrow> (\<exists>qs. q = Some qs \<and> quota_bounds qs) \<and> out_secret_len out = 32"
      using decode_api_key_total [of 64 ?o al "Some sec"] by (auto split: if_splits)
    have rd: "rd_bytes (out_secret out) 0 32 = Some (take 32 (out_secret out))" using r(2) by (simp add: rd_bytes_def)
    let ?bad = "\<not> ok \<or> (tc_auth_type t \<noteq> 0 \<and> auth_code (out_type out) \<noteq> tc_auth_type t) \<or> (tc_key_id t \<noteq> 0 \<and> out_key_id out \<noteq> tc_key_id t)"
    show ?thesis
    proof (cases ?bad)
      case True
      then have "r_client_configure_auth hk t s = Some (RCLIENT_ERR_CONFIG, s\<lparr>client := Some c, world := w'\<rparr>)"
        using d Some dup al r same [of w'] by (auto simp: r_client_configure_auth_def Let_def)
      then show ?thesis by blast
    next
      case False
      then obtain qs where qs: "q = Some qs" "quota_bounds qs" "out_secret_len out = 32" using r(3) by auto
      let ?c = "(case out_type out of R_AUTH_COOKIE \<Rightarrow> c\<lparr>cookie := Some (take 32 (out_secret out))\<rparr>
          | R_AUTH_AES_GCM \<Rightarrow> c\<lparr>aes_key := Some (take 32 (out_secret out))\<rparr>)
            \<lparr>quotas := Some qs, cl_key_id := out_key_id out, auth_type := auth_code (out_type out)\<rparr>"
      have "r_client_configure_auth hk t s = Some (RCLIENT_OK, s\<lparr>client := Some ?c, world := w'\<rparr>)"
        using False d Some dup al r(1) qs rd assms(1) by (simp add: r_client_configure_auth_def Let_def store_defs)
      moreover have "length (take 32 (out_secret out)) = 32" using r(2) by simp
      ultimately show ?thesis using qs(2) False
        by (intro exI [of _ RCLIENT_OK] exI [of _ w'] exI [of _ ?c]) blast
    qed
  qed
qed

lemma strdup_text:
  assumes "r_strdup_n hk (Some b) 0 s = Some (Some d, s')" shows "c_string d = c_string b"
proof -
  have "rd_bytes (b @ [0]) 0 (strlen b) = Some (take (strlen b) b)" using strlen_le [of b] by (simp add: rd_bytes_def)
  then have "d = c_string b @ [0]"
    using assms by (auto simp: r_strdup_n_def Let_def c_string_take split: prod.splits if_splits)
  moreover have "0 \<notin> set (c_string b)" unfolding c_string_def by (auto dest: set_takeWhileD)
  ultimately show ?thesis using c_string_terminated [of "c_string b" "[]"] by simp
qed

definition name_for :: "byte list option \<Rightarrow> u64 \<Rightarrow> byte list" where
  "name_for ov kid = (if nonempty_str ov then c_string (the ov) else default_name kid)"

lemma configure_dns_ok:
  assumes "client s = Some c"
  shows "\<exists>st w c'. r_client_configure_dns hk ov s = Some (st, s\<lparr>client := Some c', world := w\<rparr>) \<and> (\<exists>nm. c' = c\<lparr>dns_name := nm\<rparr>
    \<and> (st = RCLIENT_OK \<longrightarrow> c_string nm = name_for ov (cl_key_id c)))"
proof -
  let ?buf = "default_name (cl_key_id c) @ 0 # drop (Suc (length (default_name (cl_key_id c)))) (replicate 42 0)"
  let ?nm = "if nonempty_str ov then the ov else ?buf"
  have "(if nonempty_str ov then Some (RCLIENT_OK, ov)
       else r_client_format_default_tenant_dns (cl_key_id c)
              (Some (replicate R_CLIENT_DEFAULT_TENANT_DNS_CAPACITY 0)) R_CLIENT_DEFAULT_TENANT_DNS_CAPACITY) = Some (RCLIENT_OK, Some ?nm)"
    using length_default_name [of "cl_key_id c"]
    by (auto simp: R_CLIENT_DEFAULT_TENANT_DNS_CAPACITY_def format_default_eq nonempty_str_def split: option.splits)
  moreover obtain dup w where d: "r_strdup_n hk (Some ?nm) 0 s = Some (dup, s\<lparr>world := w\<rparr>)"
    using strdup_total [of "Some ?nm" 0 hk s] by auto
  ultimately have e: "r_client_configure_dns hk ov s = (case dup of None \<Rightarrow> Some (RCLIENT_ERR_NOMEM, s\<lparr>world := w\<rparr>)
      | Some nm \<Rightarrow> Some (RCLIENT_OK, put_client (c\<lparr>dns_name := nm\<rparr>) (s\<lparr>world := w\<rparr>)))"
    using assms by (auto simp: r_client_configure_dns_def split: option.split)
  have t: "c_string ?nm = name_for ov (cl_key_id c)"
    using c_string_terminated [OF default_name_no_zero] by (simp add: name_for_def)
  show ?thesis
  proof (cases dup)
    case None
    have "s\<lparr>world := w\<rparr> = s\<lparr>client := Some (c\<lparr>dns_name := dns_name c\<rparr>), world := w\<rparr>" using assms by (cases s) simp
    then have "r_client_configure_dns hk ov s = Some (RCLIENT_ERR_NOMEM, s\<lparr>client := Some (c\<lparr>dns_name := dns_name c\<rparr>), world := w\<rparr>)"
      using e None by simp
    then show ?thesis by blast
  next
    case (Some nm)
    then have "c_string nm = c_string ?nm" using strdup_text [of hk ?nm s nm] d by simp
    moreover have "r_client_configure_dns hk ov s = Some (RCLIENT_OK, s\<lparr>client := Some (c\<lparr>dns_name := nm\<rparr>), world := w\<rparr>)"
      using e Some by (simp add: store_defs)
    ultimately show ?thesis using t
      by (intro exI [of _ RCLIENT_OK] exI [of _ w] exI [of _ "c\<lparr>dns_name := nm\<rparr>"] conjI exI [of _ nm]) simp_all
  qed
qed

lemma sys_ok_swap:
  assumes "sys_ok s" and "\<forall>c. client s = Some c \<longrightarrow> dns_refresh c = None" and "dns_refresh c' = None" "\<not> dns_refresh_inflight c'"
    and "inflight c' = []" "wf_client c'" "forced_refresh_jitter_ms (dns_policy c') \<noteq> UINT64_MAX"
  shows "sys_ok (s\<lparr>client := Some c', world := w\<rparr>)"
proof -
  have "dns_idle (s\<lparr>client := Some c'\<rparr>)" by (rule dns_idle_swap) (use assms in \<open>auto simp: sys_ok_def\<close>)
  then have "dns_idle (s\<lparr>client := Some c', world := w\<rparr>)"
    by (rule dns_idle_client) (auto simp: option.rel_refl)
  then show ?thesis using assms by (auto simp: sys_ok_def requests_ok_def)
qed

definition config_ok :: "r_client_config \<Rightarrow> bool" where
  "config_ok cfg \<longleftrightarrow> (\<forall>b. tc_secret (cc_tenant cfg) = Some b \<longrightarrow> tc_secret_len (cc_tenant cfg) \<le> Suc (length b))
     \<and> forced_refresh_jitter_ms (cc_dns_refresh cfg) \<noteq> UINT64_MAX"

definition created :: "r_client_config \<Rightarrow> r_client \<Rightarrow> bool" where
  "created cfg c \<longleftrightarrow> wf_client c \<and> inflight c = [] \<and> dns_policy c = cc_dns_refresh cfg
     \<and> policy c = (case cc_request_policy cfg of None \<Rightarrow> r_client_default_request_policy | Some p \<Rightarrow> p)
     \<and> (auth_type c = 1 \<and> cookie c \<noteq> None \<and> aes_key c = None \<or> auth_type c = 2 \<and> aes_key c \<noteq> None \<and> cookie c = None)
     \<and> (\<exists>qs. quotas c = Some qs \<and> quota_bounds qs)
     \<and> (tc_auth_type (cc_tenant cfg) \<noteq> 0 \<longrightarrow> auth_type c = tc_auth_type (cc_tenant cfg))
     \<and> (tc_key_id (cc_tenant cfg) \<noteq> 0 \<longrightarrow> cl_key_id c = tc_key_id (cc_tenant cfg))
     \<and> c_string (dns_name c) = name_for (tc_dns_name (cc_tenant cfg)) (cl_key_id c)"

lemma created_dns: "created cfg c \<Longrightarrow> dns_only c c' \<Longrightarrow> created cfg c'"
  using dns_only_fields [of c c'] wf_client_cong [of c' c] by (simp add: created_def)

text \<open>The client after a successful configuration.\<close>

lemma configured:
  assumes "config_ok cfg" and "client s = Some (r_calloc_client cfg)"
  shows "\<exists>st w c'. r_client_configure_auth hk (cc_tenant cfg) s = Some (st, s\<lparr>client := Some c', world := w\<rparr>)
    \<and> inflight c' = [] \<and> dns_refresh c' = None \<and> \<not> dns_refresh_inflight c' \<and> dns_policy c' = cc_dns_refresh cfg \<and> wf_client c'
    \<and> (st = RCLIENT_OK \<longrightarrow> (\<forall>nm. c_string nm = name_for (tc_dns_name (cc_tenant cfg)) (cl_key_id c') \<longrightarrow>
        created cfg (c'\<lparr>dns_name := nm, policy := (case cc_request_policy cfg of None \<Rightarrow> r_client_default_request_policy | Some p \<Rightarrow> p),
          last_dns_refresh_ms := 0, dns_refresh_inflight := False, servers := [], inflight := []\<rparr>)))"
proof -
  obtain st w c' where a: "r_client_configure_auth hk (cc_tenant cfg) s = Some (st, s\<lparr>client := Some c', world := w\<rparr>)"
    "st \<noteq> RCLIENT_OK \<longrightarrow> c' = r_calloc_client cfg"
    "st = RCLIENT_OK \<longrightarrow> (\<exists>ty sec qs kid. length sec = 32 \<and> quota_bounds qs
        \<and> (tc_auth_type (cc_tenant cfg) \<noteq> 0 \<longrightarrow> auth_code ty = tc_auth_type (cc_tenant cfg)) \<and> (tc_key_id (cc_tenant cfg) \<noteq> 0 \<longrightarrow> kid = tc_key_id (cc_tenant cfg))
        \<and> c' = (case ty of R_AUTH_COOKIE \<Rightarrow> r_calloc_client cfg\<lparr>cookie := Some sec\<rparr> | R_AUTH_AES_GCM \<Rightarrow> r_calloc_client cfg\<lparr>aes_key := Some sec\<rparr>)
            \<lparr>quotas := Some qs, cl_key_id := kid, auth_type := auth_code ty\<rparr>)"
    using configure_auth_ok [OF assms(2), of "cc_tenant cfg" hk] assms(1) unfolding config_ok_def by blast
  show ?thesis
  proof (cases "st = RCLIENT_OK")
    case False
    then show ?thesis using a(1,2)
      by (intro exI [of _ st] exI [of _ w] exI [of _ c']) (simp add: r_calloc_client_def wf_client_def)
  next
    case True
    then obtain ty sec qs kid where c': "length sec = 32" "quota_bounds qs" "tc_auth_type (cc_tenant cfg) \<noteq> 0 \<longrightarrow> auth_code ty = tc_auth_type (cc_tenant cfg)"
      "tc_key_id (cc_tenant cfg) \<noteq> 0 \<longrightarrow> kid = tc_key_id (cc_tenant cfg)"
      "c' = (case ty of R_AUTH_COOKIE \<Rightarrow> r_calloc_client cfg\<lparr>cookie := Some sec\<rparr> | R_AUTH_AES_GCM \<Rightarrow> r_calloc_client cfg\<lparr>aes_key := Some sec\<rparr>)
            \<lparr>quotas := Some qs, cl_key_id := kid, auth_type := auth_code ty\<rparr>" using a(3) by blast
    show ?thesis using a(1) c'
      by (intro exI [of _ st] exI [of _ w] exI [of _ c']; cases ty)
        (simp_all add: r_calloc_client_def wf_client_def created_def auth_code_simps)
  qed
qed

lemma create_ok:
  assumes "host_ok hk" and "sys_ok s" and "client s = None" and "config_ok cfg"
  shows "\<exists>rc s'. r_client_create hk (Some cfg) s = Some (rc, s') \<and> sys_ok s'
    \<and> (if rc = RCLIENT_OK then \<exists>c. client s' = Some c \<and> created cfg c else client s' = None)"
proof -
  obtain ok s1 where al: "alloc hk s = (ok, s1)" by fastforce
  obtain w1 where s1: "s1 = s\<lparr>world := w1\<rparr>" using alloc_frame [OF al] by blast
  have ok1: "sys_ok s1" using sys_ok_quiet [OF assms(2) quiet_alloc [OF al]] .
  let ?s = "put_client (r_calloc_client cfg) s1"
  have cs: "client ?s = Some (r_calloc_client cfg)" by (simp add: store_defs)
  have dest: "\<exists>s'. r_client_destroy hk x = Some s' \<and> sys_ok s' \<and> client s' = None" if "sys_ok x" for x
    using destroy_ok [OF that, of hk] by blast
  show ?thesis
  proof (cases "tc_secret (cc_tenant cfg) = None \<or> \<not> ok")
    case True
    then show ?thesis using al assms(2,3) ok1 s1 by (auto simp: r_client_create_def)
  next
    case False
    obtain st w c1 where a: "r_client_configure_auth hk (cc_tenant cfg) ?s = Some (st, ?s\<lparr>client := Some c1, world := w\<rparr>)"
      "inflight c1 = []" "dns_refresh c1 = None" "\<not> dns_refresh_inflight c1" "dns_policy c1 = cc_dns_refresh cfg" "wf_client c1"
      "st = RCLIENT_OK \<longrightarrow> (\<forall>nm. c_string nm = name_for (tc_dns_name (cc_tenant cfg)) (cl_key_id c1) \<longrightarrow>
        created cfg (c1\<lparr>dns_name := nm, policy := (case cc_request_policy cfg of None \<Rightarrow> r_client_default_request_policy | Some p \<Rightarrow> p),
          last_dns_refresh_ms := 0, dns_refresh_inflight := False, servers := [], inflight := []\<rparr>))"
      using configured [OF assms(4) cs, of hk] by blast
    have e1: "?s\<lparr>client := Some x, world := y\<rparr> = s1\<lparr>client := Some x, world := y\<rparr>" for x y by (simp add: store_defs)
    have sw: "sys_ok (s1\<lparr>client := Some x, world := y\<rparr>)"
      if "dns_refresh x = None" "\<not> dns_refresh_inflight x" "inflight x = []" "wf_client x" "dns_policy x = cc_dns_refresh cfg" for x y
      by (rule sys_ok_swap [OF ok1]) (use that assms(3,4) s1 in \<open>auto simp: config_ok_def\<close>)
    note A = a(1) [unfolded e1]
    show ?thesis
    proof (cases "st = RCLIENT_OK")
      case st: False
      obtain s' where "r_client_destroy hk (s1\<lparr>client := Some c1, world := w\<rparr>) = Some s'" "sys_ok s'" "client s' = None"
        using dest [OF sw [OF a(3,4,2,6,5)]] by blast
      then show ?thesis using st False al A by (auto simp: r_client_create_def)
    next
      case True
      let ?s2 = "s1\<lparr>client := Some c1, world := w\<rparr>"
      obtain st2 w2 nm where d: "r_client_configure_dns hk (tc_dns_name (cc_tenant cfg)) ?s2
            = Some (st2, ?s2\<lparr>client := Some (c1\<lparr>dns_name := nm\<rparr>), world := w2\<rparr>)"
          "st2 = RCLIENT_OK \<longrightarrow> c_string nm = name_for (tc_dns_name (cc_tenant cfg)) (cl_key_id c1)"
        using configure_dns_ok [of ?s2 c1 hk "tc_dns_name (cc_tenant cfg)"] by (auto simp: Let_def)
      let ?s3 = "s1\<lparr>client := Some (c1\<lparr>dns_name := nm\<rparr>), world := w2\<rparr>"
      have D: "r_client_configure_dns hk (tc_dns_name (cc_tenant cfg)) ?s2 = Some (st2, ?s3)" using d(1) by simp
      show ?thesis
      proof (cases "st2 = RCLIENT_OK")
        case st2: False
        have "sys_ok ?s3" by (rule sw) (use a in \<open>auto simp: wf_client_def\<close>)
        then obtain s' where "r_client_destroy hk ?s3 = Some s'" "sys_ok s'" "client s' = None" using dest by blast
        then show ?thesis using st2 True False al A D by (auto simp: r_client_create_def)
      next
        case st2: True
        let ?c = "c1\<lparr>dns_name := nm, policy := (case cc_request_policy cfg of None \<Rightarrow> r_client_default_request_policy | Some p \<Rightarrow> p),
          last_dns_refresh_ms := 0, dns_refresh_inflight := False, servers := [], inflight := []\<rparr>"
        have cr: "created cfg ?c" using a(7) True d(2) st2 by blast
        let ?s4 = "s1\<lparr>client := Some ?c, world := w2\<rparr>"
        have "sys_ok ?s4" by (rule sw) (use a in \<open>auto simp: wf_client_def\<close>)
        from maybe_refresh_sys_ok [OF assms(1) this, of ?c True] obtain rc s5 c5 where
          r: "r_dns_maybe_refresh hk True ?s4 = Some (rc, s5)" "sys_ok s5" "client s5 = Some c5" "dns_only ?c c5" by auto
        have e4: "put_client ?c ?s3 = ?s4" by (cases s1) (simp add: store_defs)
        have e3: "client ?s3 = Some (c1\<lparr>dns_name := nm\<rparr>)" by simp
        have "r_client_create hk (Some cfg) s = Some (RCLIENT_OK, s5)"
          using False al A D True st2 r(1) e4 by (simp add: r_client_create_def Let_def e3 del: sys.simps sys.update_convs)
        then show ?thesis using r created_dns [OF cr r(4)] by simp
      qed
    qed
  qed
qed

subsection \<open>Facts: content identities\<close>

definition bucket_preimage :: "byte list \<Rightarrow> u32 \<Rightarrow> u32 \<Rightarrow> byte list" where
  "bucket_preimage n w r = cstr ''ratelimitly.resource.v1'' @ [0] @ le_bytes 4 (of_nat (length n) :: u32) @ n @ le_bytes 4 w @ le_bytes 4 r"

definition tracker_preimage :: "byte list \<Rightarrow> u32 \<Rightarrow> u32 \<Rightarrow> u32 \<Rightarrow> byte list" where
  "tracker_preimage n t m k = cstr ''ratelimitly.latency-tracker.v2'' @ [0] @ le_bytes 4 (of_nat (length n) :: u32) @ n
     @ le_bytes 4 t @ le_bytes 4 m @ le_bytes 4 k"

text \<open>A hash that tells one preimage from all others.\<close>

definition spot :: "byte list \<Rightarrow> hash_fn" where
  "spot x = (\<lambda>y. Some (replicate 32 (if y = x then 1 else 0)))"

lemma spot_take: "spot x y = Some d \<Longrightarrow> take 16 d = replicate 16 (if y = x then 1 else 0) \<and> length d = 32"
  by (auto simp: spot_def)

lemma bucket_id_spot:
  assumes "length n \<le> unat UINT32_MAX"
  shows "r_client_derive_bucket_id (spot x) (Some n) w r = Inr (replicate 16 (if bucket_preimage n w r = x then 1 else 0))"
  using assms by (simp add: r_client_derive_bucket_id_def r_hash_content_id_blake2s_128_def bucket_preimage_def spot_def cstr_def)

lemma tracker_id_spot:
  assumes "length n \<le> unat UINT32_MAX"
  shows "r_client_derive_latency_tracker_id (spot x) (Some n) t m k
    = Inr (replicate 16 (if tracker_preimage n t m k = x then 1 else 0))"
  using assms by (simp add: r_client_derive_latency_tracker_id_def r_hash_content_id_blake2s_128_def tracker_preimage_def spot_def cstr_def)

lemma le_bytes_inj: "le_bytes 4 (a :: u32) = le_bytes 4 b \<Longrightarrow> a = b"
  by (rule le32.enc_injective) simp_all

lemma u32_length_inj:
  assumes "length n \<le> unat UINT32_MAX" and "length n' \<le> unat UINT32_MAX" and "(of_nat (length n) :: u32) = of_nat (length n')"
  shows "length n = length n'"
proof -
  have "unat (of_nat k :: u32) = k" if "k \<le> unat UINT32_MAX" for k
    by (rule unat_of_nat_fits) (use that in \<open>simp add: UINT32_MAX_def\<close>)
  then show ?thesis using assms by metis
qed

lemma bucket_preimage_inj:
  assumes "length n \<le> unat UINT32_MAX" and "length n' \<le> unat UINT32_MAX" and "bucket_preimage n w r = bucket_preimage n' w' r'"
  shows "n = n' \<and> w = w' \<and> r = r'"
proof -
  have "le_bytes 4 (of_nat (length n) :: u32) @ n @ le_bytes 4 w @ le_bytes 4 r
      = le_bytes 4 (of_nat (length n') :: u32) @ n' @ le_bytes 4 w' @ le_bytes 4 r'"
    using assms(3) by (simp add: bucket_preimage_def)
  then have a: "le_bytes 4 (of_nat (length n) :: u32) = le_bytes 4 (of_nat (length n') :: u32)"
    "n @ le_bytes 4 w @ le_bytes 4 r = n' @ le_bytes 4 w' @ le_bytes 4 r'" by simp_all
  have l: "length n = length n'" using u32_length_inj [OF assms(1,2) le_bytes_inj [OF a(1)]] .
  then show ?thesis using a(2) by (auto dest: le_bytes_inj)
qed

lemma preimages_disjoint: "bucket_preimage n w r \<noteq> tracker_preimage n' t m k"
proof
  assume "bucket_preimage n w r = tracker_preimage n' t m k"
  then have "take 13 (bucket_preimage n w r) = take 13 (tracker_preimage n' t m k)" by simp
  then show False by (simp add: bucket_preimage_def tracker_preimage_def cstr_def)
qed

lemma credential_terminated:
  assumes "length secret = 32" and "r_decode_quota_word quota = Some q" and "\<forall>k < 4. al k \<noteq> None"
  shows "r_decode_api_key_bech32_with_quotas al (Some (c_string (credential_text ty key secret quota) @ [0])) 64
      \<lparr>out_type = R_AUTH_COOKIE, out_key_id = 0, out_secret = replicate 64 0, out_secret_len = 0\<rparr> =
    Some (True, \<lparr>out_type = ty, out_key_id = key, out_secret = secret @ replicate 32 0, out_secret_len = 32\<rparr>, Some q)"
proof -
  let ?t = "credential_text ty key secret quota" and ?o = "\<lparr>out_type = R_AUTH_COOKIE, out_key_id = 0, out_secret = replicate 64 0, out_secret_len = 0\<rparr>"
  have "0 \<notin> set (c_string ?t)" unfolding c_string_def by (auto dest: set_takeWhileD)
  then have "c_string (c_string ?t @ [0]) = c_string ?t" using c_string_terminated [of "c_string ?t" "[]"] by simp
  then have "r_decode_api_key_bech32_with_quotas al (Some (c_string ?t @ [0])) 64 ?o = r_decode_api_key_bech32_with_quotas al (Some ?t) 64 ?o"
    by (simp add: r_decode_api_key_eq)
  then show ?thesis using decode_credential_text [OF assms, of 64 ?o ty key] by simp
qed

text \<open>Memory is available whenever it is asked for.\<close>

definition memory_ok :: "'w hooks \<Rightarrow> bool" where
  "memory_ok hk \<longleftrightarrow> (\<forall>w. fst (h_alloc hk w)) \<and> (\<forall>w. \<forall>k < 4. fst (h_allocs hk w) k \<noteq> None)"

lemma strdup_memory:
  assumes "memory_ok hk" shows "\<exists>w. r_strdup_n hk (Some b) 0 s = Some (Some (c_string b @ [0]), s\<lparr>world := w\<rparr>)"
proof -
  obtain w where w: "h_alloc hk (world s) = (True, w)" using assms by (metis memory_ok_def prod.collapse)
  have "rd_bytes (b @ [0]) 0 (strlen b) = Some (take (strlen b) b)" using strlen_le [of b] by (simp add: rd_bytes_def)
  then show ?thesis using w by (intro exI [of _ w]) (simp add: r_strdup_n_def alloc_def c_string_take)
qed

lemma configure_dns_memory:
  assumes "memory_ok hk" and "client s = Some c"
  shows "\<exists>w nm. r_client_configure_dns hk ov s = Some (RCLIENT_OK, s\<lparr>client := Some (c\<lparr>dns_name := nm\<rparr>), world := w\<rparr>)"
proof -
  obtain st w c' where d: "r_client_configure_dns hk ov s = Some (st, s\<lparr>client := Some c', world := w\<rparr>)" "\<exists>nm. c' = c\<lparr>dns_name := nm\<rparr>"
    using configure_dns_ok [OF assms(2), of hk ov] by blast
  have "r_strdup_n hk (Some x) 0 s \<noteq> Some (None, s')" for x s' using strdup_memory [OF assms(1), of x s] by auto
  then have "st = RCLIENT_OK"
    using d(1) length_default_name [of "cl_key_id c"] assms(2)
    by (auto simp: r_client_configure_dns_def R_CLIENT_DEFAULT_TENANT_DNS_CAPACITY_def format_default_eq nonempty_str_def
        split: if_splits option.splits bind_splits)
  then show ?thesis using d by auto
qed

lemma configure_auth_credential:
  assumes "memory_ok hk" and "length secret = 32" and "r_decode_quota_word quota = Some q"
    and "tc_secret t = Some (credential_text ty key secret quota)" and "tc_secret_len t = 0"
    and "tc_auth_type t = 0 \<or> tc_auth_type t = auth_code ty" and "tc_key_id t = 0 \<or> tc_key_id t = key" and "client s = Some c"
  shows "\<exists>w. r_client_configure_auth hk t s = Some (RCLIENT_OK, s\<lparr>client := Some ((case ty of
        R_AUTH_COOKIE \<Rightarrow> c\<lparr>cookie := Some secret\<rparr> | R_AUTH_AES_GCM \<Rightarrow> c\<lparr>aes_key := Some secret\<rparr>)
      \<lparr>quotas := Some q, cl_key_id := key, auth_type := auth_code ty\<rparr>), world := w\<rparr>)"
proof -
  let ?t = "credential_text ty key secret quota"
  obtain w where w: "r_strdup_n hk (Some ?t) 0 s = Some (Some (c_string ?t @ [0]), s\<lparr>world := w\<rparr>)" using strdup_memory [OF assms(1)] by blast
  obtain al w' where al: "h_allocs hk w = (al, w')" by fastforce
  then have "\<forall>k < 4. al k \<noteq> None" using assms(1) by (metis memory_ok_def fst_conv)
  note d = credential_terminated [OF assms(2,3) this, of ty key]
  have "rd_bytes (secret @ replicate 32 0) 0 32 = Some secret" using assms(2) by (simp add: rd_bytes_def)
  then show ?thesis using w al d assms(4-8)
    by (intro exI [of _ w']) (auto simp: r_client_configure_auth_def store_defs Let_def)
qed

subsection \<open>Properties\<close>

text \<open>
  (C29) The default discovery name always fits the buffer the client reserves for it: it is the
  string \<open>c-<key id>.p0.ratelimitly.com\<close> with the key id in decimal, terminated, and the key id can be
  read back from it.  Into any other buffer the name is written completely or, with the configuration
  error, replaced by the empty string; bytes behind the capacity are never touched.
\<close>

theorem default_dns_name_roundtrip:
  assumes "0 < cap" and "cap \<le> length out" and "t = cstr ''c-'' @ dec_digits (unat kid) @ cstr ''.p0.ratelimitly.com''"
  shows "\<exists>out'. r_client_format_default_tenant_dns kid (Some out) cap
        = Some (if length t < cap then RCLIENT_OK else RCLIENT_ERR_CONFIG, Some out')
    \<and> c_string out' = (if length t < cap then t else []) \<and> drop cap out' = drop cap out \<and> length out' = length out
    \<and> length t < R_CLIENT_DEFAULT_TENANT_DNS_CAPACITY
    \<and> dec_value (takeWhile (\<lambda>c. c \<noteq> of_char CHR ''.'') (drop 2 t)) = unat kid"
proof -
  have t: "t = default_name kid" using assms(3) by (simp add: default_name_def)
  let ?o = "if length t < cap then t @ 0 # drop (Suc (length t)) out else 0 # drop 1 (take (cap - 1) t @ 0 # drop cap out)"
  have "r_client_format_default_tenant_dns kid (Some out) cap = Some (if length t < cap then RCLIENT_OK else RCLIENT_ERR_CONFIG, Some ?o)"
    unfolding format_default_eq [OF assms(1,2)] t by simp
  moreover have "c_string ?o = (if length t < cap then t else [])"
    using c_string_terminated [OF default_name_no_zero [of kid]] t by (simp add: c_string_def)
  moreover have "drop cap ?o = drop cap out \<and> length ?o = length out"
  proof (cases "length t < cap")
    case True
    then have "cap = Suc (length t) + (cap - Suc (length t))" by simp
    then obtain j where j: "cap = Suc (length t) + j" by blast
    show ?thesis using True assms(2) unfolding j by (auto simp: add.commute)
  next
    case False
    obtain k where k: "cap = Suc k" using assms(1) by (cases cap) auto
    then have "length (take k t) = k" using False by simp
    then show ?thesis using False k assms(2) by (cases k) auto
  qed
  moreover have "dec_value (takeWhile (\<lambda>c. c \<noteq> of_char CHR ''.'') (drop 2 t)) = unat kid"
    using default_name_value [of kid] t by simp
  ultimately show ?thesis using length_default_name [of kid] t by (auto simp: R_CLIENT_DEFAULT_TENANT_DNS_CAPACITY_def)
qed

theorem default_dns_name_roundtrip_witness:
  "\<exists>out'. r_client_format_default_tenant_dns 1234 (Some (replicate 42 7)) 42 = Some (RCLIENT_OK, Some out')
     \<and> c_string out' = cstr ''c-1234.p0.ratelimitly.com''"
proof -
  have d: "dec_digits (unat (1234 :: u64)) = cstr ''1234''" by (simp add: dec_digits.simps cstr_def)
  show ?thesis using default_dns_name_roundtrip [of 42 "replicate 42 7" _ 1234, OF _ _ refl] unfolding d by (auto simp: cstr_def)
qed


definition sample_config :: r_client_config where
  "sample_config = \<lparr>cc_tenant = \<lparr>tc_dns_name = None, tc_key_id = 0, tc_auth_type = 0, tc_secret = Some (cstr ''rl-aes1qqqqqq''), tc_secret_len = 0\<rparr>,
     cc_request_policy = None,
     cc_dns_refresh = \<lparr>refresh_interval_ms = 0, forced_refresh_min_interval_ms = 0, forced_refresh_jitter_ms = 0\<rparr>\<rparr>"

definition empty_sys :: "nat sys" where
  "empty_sys = sample_sys\<lparr>client := None\<rparr>"

lemma empty_ok: "sys_ok empty_sys" "client empty_sys = None"
proof -
  have "dns_idle empty_sys" by (rule dns_fresh_idle) (simp add: dns_fresh_def empty_sys_def sample_sys_def)
  then show "sys_ok empty_sys" by (simp add: sys_ok_def empty_sys_def sample_sys_def)
qed (simp add: empty_sys_def)


text \<open>
  (C28) Destroying a client completes no request and leaves the DNS heap consistent: answers of the
  resolver that arrive afterwards are taken without undefined behaviour and find no client, and when
  the last of them has arrived no DNS object is left.
\<close>

theorem destroy_is_clean:
  assumes "sys_ok s" and "resolver_ok hk"
  shows "\<exists>s'. r_client_destroy hk s = Some s' \<and> sys_ok s' \<and> client s' = None
    \<and> cb_handles (trace s') = cb_handles (trace s)
    \<and> (\<forall>l ok recs. lookups s' l \<noteq> None \<longrightarrow> (\<exists>s''. r_dns_srv_cb_fn hk l ok recs s' = Some s'' \<and> client s'' = None \<and> dns_idle s''))
    \<and> (\<forall>l ok as. lookups s' l \<noteq> None \<and> list_all addr_ok as \<longrightarrow>
         (\<exists>s''. r_dns_addr_cb_fn hk l ok as s' = Some s'' \<and> client s'' = None \<and> dns_idle s''))
    \<and> ((\<forall>l. lookups s' l = None) \<longrightarrow> (\<forall>r. refreshes s' r = None))"
proof -
  obtain s' where s': "r_client_destroy hk s = Some s'" "sys_ok s'" "client s' = None" "cb_handles (trace s') = cb_handles (trace s)"
    using destroy_ok [OF assms(1), of hk] by blast
  have d: "dns_idle s'" using s'(2) by (simp add: sys_ok_def)
  have n: "client s'' = None" if "dns_frame s' s''" for s'' using that s'(3) by (cases "client s''") (auto simp: dns_frame_def)
  have srv: "\<exists>s''. r_dns_srv_cb_fn hk l ok recs s' = Some s'' \<and> client s'' = None \<and> dns_idle s''" if a: "lookups s' l \<noteq> None" for l ok recs
  proof -
    obtain lk where "lookups s' l = Some lk" using a by auto
    from srv_cb_async [OF d this assms(2), of ok recs] obtain s'' where "r_dns_srv_cb_fn hk l ok recs s' = Some s''" "dns_idle s''" by blast
    then show ?thesis using n [OF srv_cb_frame] by blast
  qed
  have addr: "\<exists>s''. r_dns_addr_cb_fn hk l ok as s' = Some s'' \<and> client s'' = None \<and> dns_idle s''"
    if a: "lookups s' l \<noteq> None" "list_all addr_ok as" for l ok "as"
  proof -
    obtain lk where "lookups s' l = Some lk" using a by auto
    from addr_cb_async [OF d this a(2), of hk ok] obtain s'' where "r_dns_addr_cb_fn hk l ok as s' = Some s''" "dns_idle s''" by blast
    then show ?thesis using n [OF addr_cb_frame] by blast
  qed
  show ?thesis using s' srv addr no_leak [OF d] by blast
qed

theorem destroy_is_clean_witness:
  "\<exists>s'. r_client_destroy sample_hooks busy_sys = Some s' \<and> client s' = None \<and> cb_handles (trace s') = []"
  using destroy_is_clean [OF busy_ok(1) sample_fresh(3)] by (auto simp: busy_sys_def sample_sys_def)

text \<open>
  (C30) Content identities name what they are derived from: the bytes that are hashed determine the
  bucket name, window and rate, and never coincide with those of a latency tracker, so that two
  different buckets, or a bucket and a tracker, get the same identity only when the hash collides.
  Stated over all hash functions: identities that agree under every hash have equal arguments.
\<close>

theorem content_ids_distinguish:
  assumes "length n \<le> unat UINT32_MAX" and "length n' \<le> unat UINT32_MAX"
  shows "((\<forall>H. r_client_derive_bucket_id H (Some n) w r = r_client_derive_bucket_id H (Some n') w' r')
      \<longleftrightarrow> n = n' \<and> w = w' \<and> r = r')
    \<and> (\<exists>H. r_client_derive_bucket_id H (Some n) w r \<noteq> r_client_derive_latency_tracker_id H (Some n') t m k)"
proof -
  have "n = n' \<and> w = w' \<and> r = r'"
    if "\<forall>H. r_client_derive_bucket_id H (Some n) w r = r_client_derive_bucket_id H (Some n') w' r'"
  proof -
    from that have "r_client_derive_bucket_id (spot (bucket_preimage n w r)) (Some n) w r
        = r_client_derive_bucket_id (spot (bucket_preimage n w r)) (Some n') w' r'" by blast
    then have "bucket_preimage n' w' r' = bucket_preimage n w r"
      unfolding bucket_id_spot [OF assms(1)] bucket_id_spot [OF assms(2)] by (simp split: if_splits)
    then show ?thesis using bucket_preimage_inj [OF assms] by metis
  qed
  then have "(\<forall>H. r_client_derive_bucket_id H (Some n) w r = r_client_derive_bucket_id H (Some n') w' r')
      \<longleftrightarrow> n = n' \<and> w = w' \<and> r = r'" by blast
  moreover have "r_client_derive_bucket_id (spot (bucket_preimage n w r)) (Some n) w r
      \<noteq> r_client_derive_latency_tracker_id (spot (bucket_preimage n w r)) (Some n') t m k"
    unfolding bucket_id_spot [OF assms(1)] tracker_id_spot [OF assms(2)]
    using preimages_disjoint [of n w r n' t m k, symmetric] by (simp add: numeral_eq_Suc)
  ultimately show ?thesis by blast
qed

theorem content_ids_distinguish_witness:
  "\<exists>H. r_client_derive_bucket_id H (Some (cstr ''a'')) 1000 10 \<noteq> r_client_derive_bucket_id H (Some (cstr ''b'')) 1000 10"
  using content_ids_distinguish [of "cstr ''a''" "cstr ''b''" 1000 10 1000 10] by (simp add: cstr_def UINT32_MAX_def)

text \<open>
  (C27) Creation accepts what an issuer hands out: with memory available, a credential text of a key
  yields a client that carries exactly the key's identity, secret and quotas.
\<close>

theorem create_accepts_credential:
  assumes "host_ok hk" and "sys_ok s" and "client s = None" and "memory_ok hk"
    and "length secret = 32" and "r_decode_quota_word quota = Some q"
    and "cc_tenant cfg = \<lparr>tc_dns_name = ov, tc_key_id = 0, tc_auth_type = 0, tc_secret = Some (credential_text ty key secret quota), tc_secret_len = 0\<rparr>"
    and "forced_refresh_jitter_ms (cc_dns_refresh cfg) \<noteq> UINT64_MAX"
  shows "\<exists>s' c. r_client_create hk (Some cfg) s = Some (RCLIENT_OK, s') \<and> client s' = Some c \<and> sys_ok s'
    \<and> cl_key_id c = key \<and> quotas c = Some q \<and> auth_type c = auth_code ty
    \<and> cookie c = (if ty = R_AUTH_COOKIE then Some secret else None)
    \<and> aes_key c = (if ty = R_AUTH_AES_GCM then Some secret else None)"
proof -
  obtain w1 where w1: "h_alloc hk (world s) = (True, w1)" using assms(4) by (metis memory_ok_def prod.collapse)
  let ?s1 = "s\<lparr>world := w1\<rparr>" let ?s = "put_client (r_calloc_client cfg) ?s1"
  let ?c1 = "(case ty of R_AUTH_COOKIE \<Rightarrow> (r_calloc_client cfg)\<lparr>cookie := Some secret\<rparr> | R_AUTH_AES_GCM \<Rightarrow> (r_calloc_client cfg)\<lparr>aes_key := Some secret\<rparr>)
      \<lparr>quotas := Some q, cl_key_id := key, auth_type := auth_code ty\<rparr>"
  obtain w2 where a: "r_client_configure_auth hk (cc_tenant cfg) ?s = Some (RCLIENT_OK, ?s\<lparr>client := Some ?c1, world := w2\<rparr>)"
    using configure_auth_credential [OF assms(4-6), of "cc_tenant cfg" ty key ?s "r_calloc_client cfg"] assms(7) by (auto simp: store_defs)
  let ?s2 = "?s\<lparr>client := Some ?c1, world := w2\<rparr>"
  obtain w3 nm where d: "r_client_configure_dns hk (tc_dns_name (cc_tenant cfg)) ?s2 = Some (RCLIENT_OK, ?s2\<lparr>client := Some (?c1\<lparr>dns_name := nm\<rparr>), world := w3\<rparr>)"
    using configure_dns_memory [OF assms(4), of ?s2 ?c1 "tc_dns_name (cc_tenant cfg)"] by auto
  let ?s3 = "?s2\<lparr>client := Some (?c1\<lparr>dns_name := nm\<rparr>), world := w3\<rparr>"
  let ?c = "?c1\<lparr>dns_name := nm, policy := (case cc_request_policy cfg of None \<Rightarrow> r_client_default_request_policy | Some p \<Rightarrow> p),
      last_dns_refresh_ms := 0, dns_refresh_inflight := False, servers := [], inflight := []\<rparr>"
  have cl: "client ?s2 = Some ?c1" "client ?s3 = Some (?c1\<lparr>dns_name := nm\<rparr>)" "fst (alloc hk s)" "snd (alloc hk s) = ?s1" by (simp_all add: alloc_def w1)
  have "put_client ?c ?s3 = s\<lparr>client := Some ?c, world := w3\<rparr>" by (cases s) (simp add: store_defs)
  then have e: "r_client_create hk (Some cfg) s = (do { (_, s) \<leftarrow> r_dns_maybe_refresh hk True (s\<lparr>client := Some ?c, world := w3\<rparr>); Some (RCLIENT_OK, s) })"
    using a d cl assms(7) by (simp add: r_client_create_def Let_def alloc_def w1 del: sys.simps sys.update_convs)
  have "sys_ok (s\<lparr>client := Some ?c, world := w3\<rparr>)"
    by (rule sys_ok_swap [OF assms(2)]) (cases ty; use assms(3,5,8) in \<open>simp add: r_calloc_client_def wf_client_def\<close>)+
  from maybe_refresh_sys_ok [OF assms(1) this, of ?c True] obtain rc s5 c5 where
    r: "r_dns_maybe_refresh hk True (s\<lparr>client := Some ?c, world := w3\<rparr>) = Some (rc, s5)" "sys_ok s5" "client s5 = Some c5" "dns_only ?c c5" by auto
  show ?thesis using e r dns_only_fields [OF r(4)]
    by (intro exI [of _ s5] exI [of _ c5]) (cases ty; simp add: r_calloc_client_def)
qed

theorem create_accepts_credential_witness:
  "\<exists>s' c. r_client_create sample_hooks (Some (sample_config\<lparr>cc_tenant := \<lparr>tc_dns_name = None, tc_key_id = 0, tc_auth_type = 0,
       tc_secret = Some (credential_text R_AUTH_AES_GCM 7 (replicate 32 5) 0x00080000), tc_secret_len = 0\<rparr>\<rparr>)) empty_sys = Some (RCLIENT_OK, s')
     \<and> client s' = Some c \<and> cl_key_id c = 7 \<and> aes_key c = Some (replicate 32 5)"
proof -
  have q: "r_decode_quota_word 0x00080000 = Some \<lparr>format_version = 1, rate_buckets_max = 1,
      latency_services_max = 1, metrics_labels_max = 1, latency_buffer_size_max = 1,
      dedup_ttl_ms_max = 10, rate_window_size_ms_max = 1\<rparr>"
    by (simp add: r_decode_quota_word_def Let_def R_CREDENTIAL_FORMAT_VERSION_def drop_bit_eq_div)
  have m: "memory_ok sample_hooks" by (simp add: memory_ok_def sample_hooks_def)
  let ?cfg = "sample_config\<lparr>cc_tenant := \<lparr>tc_dns_name = None, tc_key_id = 0, tc_auth_type = 0,
       tc_secret = Some (credential_text R_AUTH_AES_GCM 7 (replicate 32 5) 0x00080000), tc_secret_len = 0\<rparr>\<rparr>"
  have j: "forced_refresh_jitter_ms (cc_dns_refresh ?cfg) \<noteq> UINT64_MAX" by (simp add: sample_config_def UINT64_MAX_def)
  have l: "length (replicate 32 (5 :: byte)) = 32" by simp
  show ?thesis using create_accepts_credential [OF sample_host empty_ok m l q _ j, of None R_AUTH_AES_GCM 7] by auto
qed

end
