(* ===== verification/World_Frame.thy ===== *)
theory World_Frame
  imports Request
begin

text \<open>
  What the client does to the world of its host.  The client touches the world only through the hooks,
  so a property of the world that every hook preserves is preserved by every operation.  The facts
  are proved once, in the locale of such a property, by computing weakest preconditions through the
  option monad; an operation that does not return satisfies every postcondition.
\<close>

named_theorems wp \<open>postconditions of the option monad\<close>
named_theorems wp_op \<open>postconditions of reads\<close>
named_theorems wp_frame \<open>postconditions of operations under a property of the world\<close>

lemma wp_bind [wp]: "pred_option Q (m \<bind> f) = pred_option (\<lambda>x. pred_option Q (f x)) m"
  by (cases m) simp_all

lemmas [wp] = option.pred_inject Let_def split_beta

lemma pred_option_Some: "pred_option Q m \<Longrightarrow> m = Some x \<Longrightarrow> Q x"
  by simp

lemma pred_option_top: "(\<And>x. Q x) \<Longrightarrow> pred_option Q m"
  by (cases m) simp_all

lemmas [wp_op] = pred_option_top [where m = "client s" for s] pred_option_top [where m = "refreshes s r" for s r]
  pred_option_top [where m = "lookups s l" for s l] pred_option_top [where m = "r_unlink_walk m l ls" for m l ls]
  pred_option_top [where m = "r_addr_set_port a p" for a p] pred_option_top [where m = "rd_bytes b i n" for b i n]
  pred_option_top [where m = "find_req h c" for h c]

locale world_inv =
  fixes hk :: "'w hooks" and I :: "'w \<Rightarrow> bool"
  assumes I_now: "I w \<Longrightarrow> h_now_ms hk = Some f1 \<Longrightarrow> I (snd (f1 w))"
    and I_send: "I w \<Longrightarrow> h_udp_send hk = Some f2 \<Longrightarrow> I (snd (f2 a b w))"
    and I_feedback: "I w \<Longrightarrow> h_on_steering_feedback hk = Some f3 \<Longrightarrow> I (f3 k w)"
    and I_srv: "I w \<Longrightarrow> I (snd (h_resolve_srv hk n w))" and I_addrs: "I w \<Longrightarrow> I (snd (h_resolve_addrs hk n w))"
    and I_cancel: "I w \<Longrightarrow> h_cancel hk = Some f4 \<Longrightarrow> I (snd (f4 i w))"
    and I_rand: "I w \<Longrightarrow> I (snd (h_rand_bytes hk k' w))" and I_alloc: "I w \<Longrightarrow> I (snd (h_alloc hk w))"
    and I_profile: "I w \<Longrightarrow> h_profile_cb hk = Some f5 \<Longrightarrow> I (f5 p w)"
begin

definition upto :: "'w sys \<Rightarrow> bool" where
  "upto s = I (world s)"

lemma upto_store [simp]:
  "upto (put_client c s) = upto s" "upto (put_refresh r rf s) = upto s" "upto (put_lookup l lk s) = upto s"
  "upto (free_refresh r s) = upto s" "upto (free_lookup l s) = upto s" "upto (emit e s) = upto s"
  "upto (s\<lparr>next_ptr := n\<rparr>) = upto s" "upto (s\<lparr>world := v\<rparr>) = I v"
  by (simp_all add: upto_def store_defs)

lemma upto_world: "upto s \<Longrightarrow> I (world s)"
  by (simp add: upto_def)

lemmas I_laws = I_now I_send I_feedback I_srv I_addrs I_cancel I_rand I_alloc I_profile upto_world

lemma now_upto [simp]: "upto s \<Longrightarrow> upto (snd (r_now_ms hk s))"
  by (simp add: r_now_ms_def I_laws split_beta split: option.split)

lemma alloc_upto [simp]: "upto s \<Longrightarrow> upto (snd (alloc hk s))"
  by (simp add: alloc_def I_laws split_beta)

lemma rand_upto [simp]: "upto s \<Longrightarrow> upto (snd (rand_bytes hk n s))"
  by (simp add: rand_bytes_def I_laws split_beta)

lemma request_id_upto [simp]: "upto s \<Longrightarrow> upto (snd (r_generate_request_id hk s))"
  by (simp add: r_generate_request_id_def split_beta split: option.split)

lemma rand_range_upto [wp_frame]:
  "upto s \<Longrightarrow> (\<And>v s'. upto s' \<Longrightarrow> Q (v, s')) \<Longrightarrow> pred_option Q (r_rand_range hk mx s)"
  by (simp add: r_rand_range_def wp I_laws split: option.split)

lemma feedback_upto [wp_frame]:
  "upto s \<Longrightarrow> (\<And>s'. upto s' \<Longrightarrow> Q s') \<Longrightarrow> pred_option Q (r_notify_steering_when_drained hk s)"
  by (cases "client s") (simp_all add: r_notify_steering_when_drained_def wp I_laws split: option.split)

subsubsection \<open>Discovery\<close>

lemma free_all_upto [wp_frame]:
  "upto s \<Longrightarrow> (\<And>s'. upto s' \<Longrightarrow> Q s') \<Longrightarrow> pred_option Q (r_dns_lookup_free_all ls s)"
  by (induction ls arbitrary: s) (auto simp: wp I_laws intro!: wp_op wp_frame)

lemma link_upto [wp_frame]:
  "upto s \<Longrightarrow> (\<And>s'. upto s' \<Longrightarrow> Q s') \<Longrightarrow> pred_option Q (r_dns_lookup_link r l s)"
  by (auto simp: r_dns_lookup_link_def wp I_laws intro!: wp_op wp_frame)

lemma unlink_upto [wp_frame]:
  "upto s \<Longrightarrow> (\<And>s'. upto s' \<Longrightarrow> Q s') \<Longrightarrow> pred_option Q (r_dns_lookup_unlink l s)"
  by (auto simp: r_dns_lookup_unlink_def wp I_laws intro!: wp_op wp_frame split: option.split)

lemma refresh_free_upto [wp_frame]:
  "upto s \<Longrightarrow> (\<And>s'. upto s' \<Longrightarrow> Q s') \<Longrightarrow> pred_option Q (r_dns_refresh_free r s)"
  by (auto simp: r_dns_refresh_free_def wp I_laws intro!: wp_op wp_frame)

lemma add_endpoint_upto [wp_frame]:
  "upto s \<Longrightarrow> (\<And>b s'. upto s' \<Longrightarrow> Q (b, s')) \<Longrightarrow> pred_option Q (r_dns_refresh_add_endpoint hk r a i h s)"
  by (auto simp: r_dns_refresh_add_endpoint_def wp I_laws intro!: wp_op wp_frame)

lemma finish_upto [wp_frame]:
  "upto s \<Longrightarrow> (\<And>s'. upto s' \<Longrightarrow> Q s') \<Longrightarrow> pred_option Q (r_dns_refresh_finish hk r s)"
  by (auto simp: r_dns_refresh_finish_def wp I_laws intro!: wp_op wp_frame)

lemma maybe_complete_upto [wp_frame]:
  "upto s \<Longrightarrow> (\<And>s'. upto s' \<Longrightarrow> Q s') \<Longrightarrow> pred_option Q (r_dns_refresh_maybe_complete hk r s)"
  by (auto simp: r_dns_refresh_maybe_complete_def wp I_laws intro!: wp_op wp_frame split: option.split)

lemma lookup_finish_upto [wp_frame]:
  "upto s \<Longrightarrow> (\<And>s'. upto s' \<Longrightarrow> Q s') \<Longrightarrow> pred_option Q (r_dns_lookup_finish hk l s)"
  by (auto simp: r_dns_lookup_finish_def wp I_laws intro!: wp_op wp_frame split: option.split)

lemma cancel_loop_upto:
  "h_cancel hk = Some f \<Longrightarrow> upto s \<Longrightarrow> (\<And>s'. upto s' \<Longrightarrow> Q s') \<Longrightarrow> pred_option Q (r_dns_cancel_loop hk f ls s)"
  by (induction ls arbitrary: s) (auto simp: wp I_laws intro!: wp_op wp_frame split: option.split)

lemma detach_upto [wp_frame]:
  "upto s \<Longrightarrow> (\<And>s'. upto s' \<Longrightarrow> Q s') \<Longrightarrow> pred_option Q (r_dns_refresh_detach hk r s)"
  by (auto simp: r_dns_refresh_detach_def r_dns_refresh_cancel_lookups_def wp I_laws intro!: wp_op wp_frame cancel_loop_upto split: option.split)

lemma lookup_new_upto [wp_frame]:
  "upto s \<Longrightarrow> (\<And>l s'. upto s' \<Longrightarrow> Q (l, s')) \<Longrightarrow> pred_option Q (r_dns_lookup_new r p i h s)"
  by (auto simp: r_dns_lookup_new_def wp I_laws intro!: wp_op wp_frame)

lemma resolver_returned_upto [wp_frame]:
  "upto s \<Longrightarrow> (\<And>e s'. upto s' \<Longrightarrow> Q (e, s')) \<Longrightarrow> pred_option Q (r_dns_resolver_returned hk r l a i s)"
  by (auto simp: r_dns_resolver_returned_def wp I_laws intro!: wp_op wp_frame)

lemma add_addrs_upto [wp_frame]:
  "upto s \<Longrightarrow> (\<And>s'. upto s' \<Longrightarrow> Q s') \<Longrightarrow> pred_option Q (r_dns_add_addrs hk r l as s)"
  by (induction "as" arbitrary: s) (auto simp: wp I_laws intro!: wp_op wp_frame)

lemma addr_cb_upto [wp_frame]:
  "upto s \<Longrightarrow> (\<And>s'. upto s' \<Longrightarrow> Q s') \<Longrightarrow> pred_option Q (r_dns_addr_cb_fn hk l ok as s)"
  by (auto simp: r_dns_addr_cb_fn_def wp I_laws intro!: wp_op wp_frame split: option.split)

lemma schedule_addr_upto [wp_frame]:
  "upto s \<Longrightarrow> (\<And>e s'. upto s' \<Longrightarrow> Q (e, s')) \<Longrightarrow> pred_option Q (r_dns_schedule_addr_lookup hk r n p i h s)"
  by (auto simp: r_dns_schedule_addr_lookup_def wp I_laws intro!: wp_op wp_frame split: option.split)

lemma schedule_targets_upto [wp_frame]:
  "upto s \<Longrightarrow> (\<And>v s'. upto s' \<Longrightarrow> Q (v, s')) \<Longrightarrow> pred_option Q (r_dns_schedule_targets hk r recs mn s)"
  by (induction recs arbitrary: mn s) (auto simp: wp I_laws intro!: wp_op wp_frame split: option.split)

lemma srv_cb_upto [wp_frame]:
  "upto s \<Longrightarrow> (\<And>s'. upto s' \<Longrightarrow> Q s') \<Longrightarrow> pred_option Q (r_dns_srv_cb_fn hk l ok recs s)"
  by (auto simp: r_dns_srv_cb_fn_def wp I_laws intro!: wp_op wp_frame split: option.split)

lemma schedule_srv_upto [wp_frame]:
  "upto s \<Longrightarrow> (\<And>e s'. upto s' \<Longrightarrow> Q (e, s')) \<Longrightarrow> pred_option Q (r_dns_schedule_srv_lookup hk r n s)"
  by (auto simp: r_dns_schedule_srv_lookup_def wp I_laws intro!: wp_op wp_frame split: option.split)

lemma start_refresh_upto [wp_frame]:
  "upto s \<Longrightarrow> (\<And>e s'. upto s' \<Longrightarrow> Q (e, s')) \<Longrightarrow> pred_option Q (r_dns_start_refresh hk s)"
  by (auto simp: r_dns_start_refresh_def r_dns_abandon_refresh_def wp I_laws intro!: wp_op wp_frame)

lemma maybe_refresh_upto [wp_frame]:
  "upto s \<Longrightarrow> (\<And>e s'. upto s' \<Longrightarrow> Q (e, s')) \<Longrightarrow> pred_option Q (r_dns_maybe_refresh hk force s)"
  by (auto simp: r_dns_maybe_refresh_def wp I_laws intro!: wp_op wp_frame)

subsubsection \<open>Packets and sends\<close>

lemma authenticate_upto [wp_frame]:
  "upto s \<Longrightarrow> (\<And>x s'. upto s' \<Longrightarrow> Q (x, s')) \<Longrightarrow> pred_option Q (r_authenticate_packet hk c t pdu n out cap s)"
  by (auto simp: r_authenticate_packet_def wp I_laws intro!: wp_op wp_frame pred_option_top split: option.split sum.split)

lemma build_packet_upto [wp_frame]:
  "upto s \<Longrightarrow> (\<And>x s'. upto s' \<Longrightarrow> Q (x, s')) \<Longrightarrow> pred_option Q (r_build_rate_request_packet hk c req out cap s)"
  by (auto simp: r_build_rate_request_packet_def wp I_laws intro!: wp_op wp_frame
      pred_option_top [where m = "r_build_rate_request_body a b c d e f" for a b c d e f]
      pred_option_top [where m = "r_build_rate_request_pdu a b c d e" for a b c d e] split: sum.split)

lemma send_loop_upto [simp]:
  "h_udp_send hk = Some f \<Longrightarrow> upto s \<Longrightarrow> upto (snd (snd (r_send_loop f req b m ts i j s)))"
  by (induction ts arbitrary: i j s) (auto simp: udp_send_def I_laws split_beta Let_def)

lemma send_packet_upto [wp_frame]:
  "upto s \<Longrightarrow> (\<And>e s'. upto s' \<Longrightarrow> Q (e, s')) \<Longrightarrow> pred_option Q (r_send_packet_to_targets hk req pkt n m b s)"
  by (auto simp: r_send_packet_to_targets_def wp I_laws intro!: wp_op wp_frame split: option.split)

lemma send_request_upto [wp_frame]:
  "upto s \<Longrightarrow> (\<And>e s'. upto s' \<Longrightarrow> Q (e, s')) \<Longrightarrow> pred_option Q (r_send_rate_request hk req m b s)"
  by (auto simp: r_send_rate_request_def wp I_laws intro!: wp_op wp_frame)

lemma delivery_upto [wp_frame]:
  "upto s \<Longrightarrow> (\<And>s'. upto s' \<Longrightarrow> Q s') \<Longrightarrow> pred_option Q (r_completion_delivery hk req s)"
  by (auto simp: r_completion_delivery_def wp I_laws intro!: wp_op wp_frame)

lemma start_round_upto [wp_frame]:
  "upto s \<Longrightarrow> (\<And>e q s'. upto s' \<Longrightarrow> Q ((e, q), s')) \<Longrightarrow> pred_option Q (r_start_round hk req k s)"
  by (auto simp: r_start_round_def wp I_laws intro!: wp_op wp_frame split: sum.split)

lemma snapshot_upto [simp]: "upto s \<Longrightarrow> upto (snd (r_request_snapshot_targets hk c req s))"
  by (simp add: r_request_snapshot_targets_def split_beta Let_def)

lemma first_round_upto [wp_frame]:
  "upto s \<Longrightarrow> (\<And>x s'. upto s' \<Longrightarrow> Q (x, s')) \<Longrightarrow> pred_option Q (r_first_round hk c req s)"
  by (auto simp: r_first_round_def wp I_laws intro!: wp_op wp_frame split: sum.split)

lemma launch_upto [wp_frame]:
  "upto s \<Longrightarrow> (\<And>x s'. upto s' \<Longrightarrow> Q (x, s')) \<Longrightarrow> pred_option Q (r_launch_request hk req s)"
  by (auto simp: r_launch_request_def wp I_laws intro!: wp_op wp_frame split: sum.split)

lemma copy_array_upto [simp]: "upto s \<Longrightarrow> upto (snd (r_copy_array hk b n s))"
  by (simp add: r_copy_array_def)

lemma copy_label_upto [wp_frame]:
  "upto s \<Longrightarrow> (\<And>x y z s'. upto s' \<Longrightarrow> Q (x, y, z, s')) \<Longrightarrow> pred_option Q (r_copy_label hk b l n s)"
  by (auto simp: r_copy_label_def wp I_laws intro!: wp_op wp_frame split: option.split)

lemma submit_upto [wp_frame]:
  "upto s \<Longrightarrow> (\<And>x s'. upto s' \<Longrightarrow> Q (x, s')) \<Longrightarrow> pred_option Q (r_submit_request hk rs gs l n u b s)"
  by (auto simp: r_submit_request_def wp I_laws intro!: wp_op wp_frame split: sum.split)

lemma report_loop_upto [simp]:
  "h_udp_send hk = Some f \<Longrightarrow> upto s \<Longrightarrow> upto (snd (r_report_loop f b ts i s))"
  by (induction ts arbitrary: i s) (simp_all add: udp_send_def I_laws split_beta Let_def)

lemma report_packet_upto [wp_frame]:
  "upto s \<Longrightarrow> (\<And>x s'. upto s' \<Longrightarrow> Q (x, s')) \<Longrightarrow> pred_option Q (r_build_report_packet hk reps s)"
  by (auto simp: r_build_report_packet_def wp I_laws intro!: wp_op wp_frame
      pred_option_top [where m = "r_build_latency_report_body a b c" for a b c]
      pred_option_top [where m = "r_build_pdu a b c d e" for a b c d e] split: sum.split)

lemma report_upto [wp_frame]:
  "upto s \<Longrightarrow> (\<And>e s'. upto s' \<Longrightarrow> Q (e, s')) \<Longrightarrow> pred_option Q (r_client_report_latency hk reps n s)"
  by (auto simp: r_client_report_latency_def wp I_laws intro!: wp_op wp_frame split: option.split sum.split)

lemma cancel_upto [wp_frame]:
  "upto s \<Longrightarrow> (\<And>s'. upto s' \<Longrightarrow> Q s') \<Longrightarrow> pred_option Q (r_client_cancel_request hk req s)"
  by (auto simp: r_client_cancel_request_def wp I_laws intro!: wp_op wp_frame split: option.split)

lemma parse_alloc_upto [wp_frame]:
  "upto s \<Longrightarrow> (\<And>x s'. upto s' \<Longrightarrow> Q (x, s')) \<Longrightarrow> pred_option Q (r_parse_rate_response_alloc hk pdu n s)"
  by (auto simp: r_parse_rate_response_alloc_def wp I_laws intro!: wp_op wp_frame pred_option_top [where m = "r_le16 b i" for b i]
      pred_option_top [where m = "r_parse_rate_response_pdu a b c d" for a b c d] split: sum.split)

end

text \<open>A callback of the application that preserves the property as well.\<close>

locale world_inv_cb = world_inv +
  assumes I_cb: "I (world s) \<Longrightarrow> h_cb hk u h st r s = Some s' \<Longrightarrow> I (world s')"
begin

lemma cb_upto [wp_frame]:
  "upto s \<Longrightarrow> (\<And>s'. upto s' \<Longrightarrow> Q s') \<Longrightarrow> pred_option Q (h_cb hk u h st r s)"
  using I_cb [of s u h st r] by (cases "h_cb hk u h st r s") (simp_all add: upto_def)

lemma complete_upto [wp_frame]:
  "upto s \<Longrightarrow> (\<And>s'. upto s' \<Longrightarrow> Q s') \<Longrightarrow> pred_option Q (r_request_complete hk h st sel s)"
  by (auto simp: r_request_complete_def wp I_laws intro!: wp_op wp_frame split: option.split)

lemma check_upto [wp_frame]:
  "upto s \<Longrightarrow> (\<And>x s'. upto s' \<Longrightarrow> Q (x, s')) \<Longrightarrow> pred_option Q (r_client_check_rate_limit_async_impl hk rs i gs j l n cb b s)"
  by (auto simp: r_client_check_rate_limit_async_impl_def wp I_laws intro!: wp_op wp_frame split: option.split)

lemma apply_response_upto [wp_frame]:
  "upto s \<Longrightarrow> (\<And>e s'. upto s' \<Longrightarrow> Q (e, s')) \<Longrightarrow> pred_option Q (r_apply_response hk req fb i a gs rs ok s)"
  by (auto simp: r_apply_response_def wp I_laws intro!: wp_op wp_frame split: option.split)

lemma datagram_upto [wp_frame]:
  "upto s \<Longrightarrow> (\<And>e s'. upto s' \<Longrightarrow> Q (e, s')) \<Longrightarrow> pred_option Q (r_client_on_datagram hk buf n a s)"
  by (auto simp: r_client_on_datagram_def wp I_laws intro!: wp_op wp_frame
      pred_option_top [where m = "r_parse_tenant_header a b" for a b]
      pred_option_top [where m = "r_extract_pdu_data a b c d e f" for a b c d e f] split: option.split sum.split)

lemma timeout_upto [wp_frame]:
  "upto s \<Longrightarrow> (\<And>e s'. upto s' \<Longrightarrow> Q (e, s')) \<Longrightarrow> pred_option Q (r_client_on_timeout hk req t s)"
  by (auto simp: r_client_on_timeout_def r_request_policy_on_timeout_def wp I_laws intro!: wp_op wp_frame
      split: option.split r_request_phase.split)

end

end
