(* ===== verification/Workflow.thy ===== *)
theory Workflow
  imports Lifecycle World_Frame
begin

text \<open>
  Admission checks (\<^verbatim>\<open>src/r_client_workflow.c\<close>): one resource limit and one latency guard per check, with
  storage that the caller owns, a durable decision, and at most one latency report.

  The world of the client is the memory of the storages, by address, together with the rest of the
  host's state.  The caller keeps a storage alive while it is in use, so every address holds a
  storage.  A function pointer of the application is a number, with 0 for the null pointer; what the
  call of one does is the parameter \<open>app\<close>, which gets the user pointer, the status and the outcome and
  may use the client like any other code.
\<close>

subsection \<open>Configuration\<close>

definition R_DEFAULT_METRICS_LABEL :: "byte list" where
  "R_DEFAULT_METRICS_LABEL = cstr ''rl-c-client-example''"

record r_admission_config =
  ac_bucket_name :: "byte list option"
  ac_window_size_ms :: u32
  ac_rate_limit :: u32
  ac_tokens_requested :: u16
  ac_latency_tracker_name :: "byte list option"
  ac_latency_threshold_ms :: u32
  ac_latency_ttl_ms :: u32
  ac_latency_max_samples :: u32
  ac_latency_min_sample_threshold :: u32
  ac_metrics_label :: "byte list option"

definition r_client_admission_config_defaults :: r_admission_config where
  "r_client_admission_config_defaults =
    \<lparr>ac_bucket_name = None, ac_window_size_ms = 1000, ac_rate_limit = 100, ac_tokens_requested = 1,
     ac_latency_tracker_name = None, ac_latency_threshold_ms = 100, ac_latency_ttl_ms = 10000,
     ac_latency_max_samples = 100, ac_latency_min_sample_threshold = 5,
     ac_metrics_label = Some R_DEFAULT_METRICS_LABEL\<rparr>"

definition r_admission_config_valid :: "r_admission_config option \<Rightarrow> bool" where
  "r_admission_config_valid config = (case config of
     None \<Rightarrow> False
   | Some config \<Rightarrow>
       nonempty_str (ac_bucket_name config)
     \<and> nonempty_str (ac_latency_tracker_name config)
     \<and> ac_window_size_ms config > 0
     \<and> ac_rate_limit config > 0
     \<and> ac_tokens_requested config > 0
     \<and> ac_latency_threshold_ms config > 0
     \<and> ac_latency_ttl_ms config > 0
     \<and> ac_latency_max_samples config > 0
     \<and> ac_latency_min_sample_threshold config > 0)"

subsection \<open>Outcomes\<close>

datatype r_admission_decision =
    R_ADMISSION_ALLOWED
  | R_ADMISSION_RATE_LIMITED
  | R_ADMISSION_LATENCY_LIMITED
  | R_ADMISSION_RATE_AND_LATENCY_LIMITED
  | R_ADMISSION_ERROR

record r_admission_outcome =
  decision :: r_admission_decision
  allowed :: bool
  rate_limited :: bool
  latency_limited :: bool
  out_tokens_deficit :: u16
  out_current_latency_ms :: u32
  out_latency_threshold_ms :: u32

text \<open>The result as the caller passes it: two arrays that may be null, with their counts.\<close>

record r_result_arg =
  arg_success :: bool
  arg_guards :: "r_guard_result list option"
  arg_guard_count :: nat
  arg_resources :: "r_resource_result list option"
  arg_resource_count :: nat

definition r_error_outcome :: r_admission_outcome where
  "r_error_outcome = \<lparr>decision = R_ADMISSION_ERROR, allowed = False, rate_limited = False,
     latency_limited = False, out_tokens_deficit = 0, out_current_latency_ms = 0, out_latency_threshold_ms = 0\<rparr>"

definition array_prefix :: "'a list option \<Rightarrow> nat \<Rightarrow> 'a list option" where
  "array_prefix xs n = (if n = 0 then Some [] else
     case xs of None \<Rightarrow> None | Some xs \<Rightarrow> if n \<le> length xs then Some (take n xs) else None)"

definition r_client_admission_classify ::
  "r_client_error \<Rightarrow> r_result_arg option \<Rightarrow> r_admission_outcome option" where
  "r_client_admission_classify status result = (case result of
     None \<Rightarrow> Some r_error_outcome
   | Some result \<Rightarrow>
     if status \<noteq> RCLIENT_OK then Some r_error_outcome
     else if arg_resource_count result > 0 \<and> arg_resources result = None
         \<or> arg_guard_count result > 0 \<and> arg_guards result = None then Some r_error_outcome
     else do {
       gs \<leftarrow> array_prefix (arg_guards result) (arg_guard_count result);
       rs \<leftarrow> array_prefix (arg_resources result) (arg_resource_count result);
       if arg_success result then
         let outcome = (case gs of
               [] \<Rightarrow> r_error_outcome
             | g # _ \<Rightarrow> r_error_outcome\<lparr>out_current_latency_ms := gr_current_latency_ms g,
                                        out_latency_threshold_ms := gr_threshold_ms g\<rparr>)
         in Some (outcome\<lparr>decision := R_ADMISSION_ALLOWED, allowed := True\<rparr>)
       else
         let outcome = (case find (\<lambda>r. tokens_deficit r > 0) rs of
               None \<Rightarrow> r_error_outcome
             | Some r \<Rightarrow> r_error_outcome\<lparr>rate_limited := True, out_tokens_deficit := tokens_deficit r\<rparr>);
             outcome = (case find (\<lambda>g. \<not> passed g) gs of
               None \<Rightarrow> outcome
             | Some g \<Rightarrow> outcome\<lparr>latency_limited := True, out_current_latency_ms := gr_current_latency_ms g,
                                 out_latency_threshold_ms := gr_threshold_ms g\<rparr>);
             outcome = (if \<not> rate_limited outcome \<and> \<not> latency_limited outcome
                        then outcome\<lparr>rate_limited := True\<rparr> else outcome)
         in Some (outcome\<lparr>decision :=
              if rate_limited outcome \<and> latency_limited outcome then R_ADMISSION_RATE_AND_LATENCY_LIMITED
              else if latency_limited outcome then R_ADMISSION_LATENCY_LIMITED
              else R_ADMISSION_RATE_LIMITED\<rparr>) })"

subsection \<open>Storages\<close>

record r_admission_request =
  ad_handle :: "nat option"
  ad_resource :: r_resource_request
  ad_guard :: r_latency_guard
  ad_metrics_label :: "byte list option"
  ad_callback :: nat
  ad_user :: nat
  ad_outcome :: r_admission_outcome
  active :: bool
  admitted :: bool
  work_executed :: bool
  latency_reported :: bool

text \<open>The storage after \<open>memset\<close>; the zero of the decision is \<open>R_ADMISSION_ALLOWED\<close>.\<close>

definition r_zero_admission :: r_admission_request where
  "r_zero_admission = \<lparr>ad_handle = None,
     ad_resource = \<lparr>bucket_id = replicate 16 0, window_size_ms = 0, rate_limit = 0, tokens_requested = 0\<rparr>,
     ad_guard = \<lparr>latency_tracker_id = replicate 16 0, threshold_ms = 0, ttl_ms = 0, max_samples = 0, min_sample_threshold = 0\<rparr>,
     ad_metrics_label = None, ad_callback = 0, ad_user = 0, ad_outcome = r_error_outcome\<lparr>decision := R_ADMISSION_ALLOWED\<rparr>,
     active = False, admitted = False, work_executed = False, latency_reported = False\<rparr>"

definition r_client_admission_prepare ::
  "hash_fn \<Rightarrow> r_admission_request option \<Rightarrow> r_admission_config option \<Rightarrow> nat \<Rightarrow> nat
     \<Rightarrow> r_client_error \<times> r_admission_request option" where
  "r_client_admission_prepare blake2s256 request config callback usr = (case (request, config) of
     (Some _, Some cfg) \<Rightarrow>
       if callback = 0 \<or> \<not> r_admission_config_valid config then (RCLIENT_ERR_CONFIG, request)
       else
         let rq = r_zero_admission in
         (case r_client_derive_bucket_id blake2s256 (map_option c_string (ac_bucket_name cfg))
                 (ac_window_size_ms cfg) (ac_rate_limit cfg) of
            Inl _ \<Rightarrow> (RCLIENT_ERR_CONFIG, Some rq)
          | Inr bid \<Rightarrow>
              let rq = rq\<lparr>ad_resource := \<lparr>bucket_id = bid, window_size_ms = ac_window_size_ms cfg,
                            rate_limit = ac_rate_limit cfg, tokens_requested = ac_tokens_requested cfg\<rparr>\<rparr> in
              (case r_client_derive_latency_tracker_id blake2s256 (map_option c_string (ac_latency_tracker_name cfg))
                      (ac_latency_ttl_ms cfg) (ac_latency_max_samples cfg) (ac_latency_min_sample_threshold cfg) of
                 Inl _ \<Rightarrow> (RCLIENT_ERR_CONFIG, Some rq)
               | Inr tid \<Rightarrow>
                   (RCLIENT_OK, Some (rq\<lparr>
                      ad_guard := \<lparr>latency_tracker_id = tid, threshold_ms = ac_latency_threshold_ms cfg,
                        ttl_ms = ac_latency_ttl_ms cfg, max_samples = ac_latency_max_samples cfg,
                        min_sample_threshold = ac_latency_min_sample_threshold cfg\<rparr>,
                      ad_metrics_label := (case ac_metrics_label cfg of
                        None \<Rightarrow> Some R_DEFAULT_METRICS_LABEL | Some l \<Rightarrow> Some l),
                      ad_callback := callback, ad_user := usr,
                      ad_outcome := ad_outcome rq\<lparr>decision := R_ADMISSION_ERROR\<rparr>\<rparr>))))
   | _ \<Rightarrow> (RCLIENT_ERR_CONFIG, request))"

subsection \<open>Running on a client\<close>

record 'x app =
  adm :: "nat \<Rightarrow> r_admission_request"
  env :: 'x

type_synonym 'x app_fn = "nat \<Rightarrow> nat \<Rightarrow> r_client_error \<Rightarrow> r_admission_outcome \<Rightarrow> 'x app sys \<Rightarrow> 'x app sys option"

definition get_adm :: "nat \<Rightarrow> 'x app sys \<Rightarrow> r_admission_request" where
  "get_adm a s = adm (world s) a"

definition put_adm :: "nat \<Rightarrow> r_admission_request \<Rightarrow> 'x app sys \<Rightarrow> 'x app sys" where
  "put_adm a rq s = s\<lparr>world := (world s)\<lparr>adm := (adm (world s))(a := rq)\<rparr>\<rparr>"

definition result_arg :: "r_rate_limit_result \<Rightarrow> r_result_arg" where
  "result_arg r = \<lparr>arg_success = success r, arg_guards = Some (result_guards r), arg_guard_count = length (result_guards r),
     arg_resources = Some (result_resources r), arg_resource_count = length (result_resources r)\<rparr>"

definition r_admission_complete ::
  "'x app_fn \<Rightarrow> nat \<Rightarrow> nat option \<Rightarrow> r_client_error \<Rightarrow> r_rate_limit_result option \<Rightarrow> 'x app sys \<Rightarrow> 'x app sys option" where
  "r_admission_complete app a h status result s = do {
     let rq = (get_adm a s)\<lparr>ad_handle := None, active := False\<rparr>;
     outcome \<leftarrow> r_client_admission_classify status (map_option result_arg result);
     let rq = rq\<lparr>ad_outcome := outcome, admitted := allowed outcome\<rparr>;
     app (ad_callback rq) (ad_user rq) status outcome (put_adm a rq s) }"

text \<open>
  The hooks of a client with admission checks: those of the host, which work on the rest of the
  world, and \<^const>\<open>r_admission_complete\<close> as the completion callback of every request.
\<close>

definition on_env :: "('x \<Rightarrow> 'r \<times> 'x) \<Rightarrow> 'x app \<Rightarrow> 'r \<times> 'x app" where
  "on_env f w = (let (r, x) = f (env w) in (r, w\<lparr>env := x\<rparr>))"

definition admission_hooks :: "'x hooks \<Rightarrow> 'x app_fn \<Rightarrow> 'x app hooks" where
  "admission_hooks b app =
    \<lparr>h_udp_send = map_option (\<lambda>f a bs. on_env (f a bs)) (h_udp_send b),
     h_now_ms = map_option on_env (h_now_ms b),
     h_on_steering_feedback = map_option (\<lambda>f k w. w\<lparr>env := f k (env w)\<rparr>) (h_on_steering_feedback b),
     h_resolve_srv = (\<lambda>n. on_env (h_resolve_srv b n)),
     h_resolve_addrs = (\<lambda>n. on_env (h_resolve_addrs b n)),
     h_cancel = map_option (\<lambda>f i. on_env (f i)) (h_cancel b),
     h_rand_bytes = (\<lambda>n. on_env (h_rand_bytes b n)),
     h_alloc = on_env (h_alloc b),
     h_allocs = on_env (h_allocs b),
     h_evp_encrypt = h_evp_encrypt b,
     h_evp_decrypt = h_evp_decrypt b,
     h_profile_cb = map_option (\<lambda>f p w. w\<lparr>env := f p (env w)\<rparr>) (h_profile_cb b),
     h_cb = r_admission_complete app\<rparr>"

definition r_client_admission_start ::
  "'x app hooks \<Rightarrow> hash_fn \<Rightarrow> nat option \<Rightarrow> r_admission_config option \<Rightarrow> nat \<Rightarrow> nat \<Rightarrow> 'x app sys
     \<Rightarrow> (r_client_error \<times> 'x app sys) option" where
  "r_client_admission_start hk blake2s256 request config callback usr s = (case client s of
     None \<Rightarrow> Some (RCLIENT_ERR_CONFIG, s)
   | Some _ \<Rightarrow> (case request of
       None \<Rightarrow> Some (RCLIENT_ERR_CONFIG, s)
     | Some a \<Rightarrow>
         let (status, rq) = r_client_admission_prepare blake2s256 (Some (get_adm a s)) config callback usr;
             s = (case rq of None \<Rightarrow> s | Some rq \<Rightarrow> put_adm a rq s) in
         if status \<noteq> RCLIENT_OK then Some (status, s)
         else do {
           let s = put_adm a ((get_adm a s)\<lparr>active := True\<rparr>) s;
           ((status, h), s) \<leftarrow> r_client_check_rate_limit_async_borrowed hk
              (Some [ad_resource (get_adm a s)]) 1 (Some [ad_guard (get_adm a s)]) 1
              (ad_metrics_label (get_adm a s)) 0 (Some a) s;
           if status \<noteq> RCLIENT_OK then
             Some (status, put_adm a ((get_adm a s)\<lparr>ad_handle := None, active := False\<rparr>) s)
           else Some (status, put_adm a ((get_adm a s)\<lparr>ad_handle := h\<rparr>) s) }))"

definition r_client_admission_deadline_ms :: "nat option \<Rightarrow> 'x app sys \<Rightarrow> (r_client_error + u64) option" where
  "r_client_admission_deadline_ms request s = (case request of
     None \<Rightarrow> Some (Inl RCLIENT_ERR_CONFIG)
   | Some a \<Rightarrow>
       if \<not> active (get_adm a s) \<or> ad_handle (get_adm a s) = None then Some (Inl RCLIENT_ERR_CONFIG)
       else r_client_request_deadline_ms (ad_handle (get_adm a s)) s)"

definition r_client_admission_on_timeout ::
  "'x app hooks \<Rightarrow> nat option \<Rightarrow> u64 \<Rightarrow> 'x app sys \<Rightarrow> (r_client_error \<times> 'x app sys) option" where
  "r_client_admission_on_timeout hk request now_ms s = (case request of
     None \<Rightarrow> Some (RCLIENT_ERR_CONFIG, s)
   | Some a \<Rightarrow>
       if client s = None \<or> \<not> active (get_adm a s) \<or> ad_handle (get_adm a s) = None then Some (RCLIENT_ERR_CONFIG, s)
       else r_client_on_timeout hk (ad_handle (get_adm a s)) now_ms s)"

definition r_client_admission_cancel :: "'x app hooks \<Rightarrow> nat option \<Rightarrow> 'x app sys \<Rightarrow> 'x app sys option" where
  "r_client_admission_cancel hk request s = (case request of
     None \<Rightarrow> Some s
   | Some a \<Rightarrow>
       if client s = None \<or> \<not> active (get_adm a s) \<or> ad_handle (get_adm a s) = None then Some s
       else do {
         s \<leftarrow> r_client_cancel_request hk (ad_handle (get_adm a s)) s;
         Some (put_adm a ((get_adm a s)\<lparr>ad_handle := None, active := False, admitted := False\<rparr>) s) })"

definition r_client_admission_report_latency ::
  "'x app hooks \<Rightarrow> nat option \<Rightarrow> u32 \<Rightarrow> 'x app sys \<Rightarrow> (r_client_error \<times> 'x app sys) option" where
  "r_client_admission_report_latency hk request observed_latency_ms s = (case request of
     None \<Rightarrow> Some (RCLIENT_ERR_CONFIG, s)
   | Some a \<Rightarrow>
       let rq = get_adm a s in
       if client s = None \<or> active rq \<or> \<not> admitted rq \<or> latency_reported rq then Some (RCLIENT_ERR_CONFIG, s)
       else do {
         let report = \<lparr>rep_latency_tracker_id = latency_tracker_id (ad_guard rq), rep_observed_latency = observed_latency_ms,
           rep_ttl_ms = ttl_ms (ad_guard rq), rep_max_samples = max_samples (ad_guard rq),
           rep_min_sample_threshold = min_sample_threshold (ad_guard rq)\<rparr>;
         (status, s) \<leftarrow> r_client_report_latency hk (Some [report]) 1 s;
         Some (status, if status = RCLIENT_OK then put_adm a ((get_adm a s)\<lparr>latency_reported := True\<rparr>) s else s) })"

subsection \<open>Facts: classification\<close>

lemma array_prefix_all [simp]: "array_prefix (Some xs) (length xs) = Some xs"
  by (simp add: array_prefix_def)

lemma find_NoneE: "find P xs = None \<longleftrightarrow> (\<forall>x\<in>set xs. \<not> P x)"
  by (auto simp: find_None_iff)

lemma find_SomeD: "find P xs = Some x \<Longrightarrow> x \<in> set xs \<and> P x"
  by (auto simp: find_Some_iff)

lemma classify_result:
  "r_client_admission_classify st (Some (result_arg r)) = Some (
     if st \<noteq> RCLIENT_OK then r_error_outcome
     else if success r then
       (case result_guards r of [] \<Rightarrow> r_error_outcome
         | g # _ \<Rightarrow> r_error_outcome\<lparr>out_current_latency_ms := gr_current_latency_ms g, out_latency_threshold_ms := gr_threshold_ms g\<rparr>)
         \<lparr>decision := R_ADMISSION_ALLOWED, allowed := True\<rparr>
     else
       let d = find (\<lambda>r. tokens_deficit r > 0) (result_resources r); f = find (\<lambda>g. \<not> passed g) (result_guards r) in
       \<lparr>decision = (if f = None then R_ADMISSION_RATE_LIMITED else if d = None then R_ADMISSION_LATENCY_LIMITED
                    else R_ADMISSION_RATE_AND_LATENCY_LIMITED),
        allowed = False, rate_limited = (f = None \<or> d \<noteq> None), latency_limited = (f \<noteq> None),
        out_tokens_deficit = (case d of None \<Rightarrow> 0 | Some r \<Rightarrow> tokens_deficit r),
        out_current_latency_ms = (case f of None \<Rightarrow> 0 | Some g \<Rightarrow> gr_current_latency_ms g),
        out_latency_threshold_ms = (case f of None \<Rightarrow> 0 | Some g \<Rightarrow> gr_threshold_ms g)\<rparr>)"
  by (auto simp: r_client_admission_classify_def result_arg_def r_error_outcome_def Let_def split: option.split)

lemma classify_total: "\<exists>oc. r_client_admission_classify st (map_option result_arg r) = Some oc"
  by (cases r) (auto simp: classify_result, simp add: r_client_admission_classify_def)

subsection \<open>Facts: the hooks\<close>

lemma snd_on_env [simp]: "adm (snd (on_env f w)) = adm w" "env (snd (on_env f w)) = snd (f (env w))" "fst (on_env f w) = fst (f (env w))"
  by (simp_all add: on_env_def split_beta)

lemma env_update_adm [simp]: "adm (w\<lparr>env := x\<rparr>) = adm w"
  by simp

text \<open>The hooks of the host leave the storages alone.\<close>

interpretation storage: world_inv "admission_hooks b app" "\<lambda>w. adm w = m" for b :: "'x hooks" and app m
  by unfold_locales (auto simp: admission_hooks_def)

lemma adm_put: "get_adm a (put_adm a' rq s) = (if a = a' then rq else get_adm a s)"
  by (simp add: get_adm_def put_adm_def)

lemma sys_ok_world: "sys_ok (s\<lparr>world := w\<rparr>) = sys_ok s"
proof -
  have "sys_ok (s\<lparr>world := v\<rparr>)" if "sys_ok s" for s :: "'b sys" and v
    by (rule sys_ok_quiet [OF that]) (simp add: quiet_def option.rel_refl)
  from this [of s w] this [of "s\<lparr>world := w\<rparr>" "world s"] show ?thesis by auto
qed

lemma put_adm_frame [simp]: "sys_ok (put_adm a rq s) = sys_ok s" "client (put_adm a rq s) = client s" "trace (put_adm a rq s) = trace s"
  by (simp_all add: put_adm_def sys_ok_world)

subsection \<open>The application as a host\<close>

text \<open>
  What a client with admission checks needs: the laws of the resolver, the random generator and the
  cipher, and application callbacks that return and leave a live client.
\<close>

locale admission_app =
  fixes b :: "'x hooks" and app :: "'x app_fn"
  assumes resolver_law: "resolver_ok b" and random_law: "rand_laws b"
    and cipher_law: "aead_laws (h_evp_encrypt b) (h_evp_decrypt b)"
    and app_law: "sys_ok s \<Longrightarrow> client s \<noteq> None \<Longrightarrow>
      \<exists>s'. app f u st oc s = Some s' \<and> sys_ok s' \<and> client s' \<noteq> None \<and> (\<exists>evs. trace s' = trace s @ evs)"
begin

lemma admission_host: "host_ok (admission_hooks b app)"
proof -
  have "\<exists>s'. r_admission_complete app u h st r s = Some s' \<and> sys_ok s' \<and> client s' \<noteq> None \<and> (\<exists>evs. trace s' = trace s @ evs)"
    if a: "sys_ok s" "client s \<noteq> None" for u h st r s
  proof -
    obtain oc where "r_client_admission_classify st (map_option result_arg r) = Some oc" using classify_total by blast
    then show ?thesis using app_law [of "put_adm u rq s" for rq] a by (simp add: r_admission_complete_def Let_def)
  qed
  moreover have "resolver_ok (admission_hooks b app)"
    using resolver_law by (auto simp: resolver_ok_def admission_hooks_def on_env_def split: prod.splits) blast
  moreover have "rand_laws (admission_hooks b app)"
    using random_law by (auto simp: rand_laws_def admission_hooks_def on_env_def split: prod.splits)
  ultimately show ?thesis using cipher_law by (simp add: host_ok_def admission_hooks_def)
qed

end

sublocale admission_app \<subseteq> run: client_host "admission_hooks b app"
  by unfold_locales (rule admission_host)

subsection \<open>Facts: the life of a storage\<close>

text \<open>An application callback that does not touch the storage \<open>a\<close>, whatever else it does.\<close>

definition leaves_alone :: "'x app_fn \<Rightarrow> nat \<Rightarrow> bool" where
  "leaves_alone app a \<longleftrightarrow> (\<forall>f u st oc s s'. app f u st oc s = Some s' \<longrightarrow> get_adm a s' = get_adm a s)"

text \<open>The storage \<open>rq\<close> after its request ended.\<close>

definition settled :: "r_admission_request \<Rightarrow> r_admission_request \<Rightarrow> bool" where
  "settled rq rq' \<longleftrightarrow> (\<exists>st r oc. r_client_admission_classify st (map_option result_arg r) = Some oc
     \<and> rq' = rq\<lparr>ad_handle := None, active := False, ad_outcome := oc, admitted := allowed oc\<rparr>)"

lemma storage_frames:
  shows adm_delivery: "(\<And>s'. adm (world s') = adm (world s) \<Longrightarrow> Q s') \<Longrightarrow> pred_option Q (r_completion_delivery (admission_hooks b app) req s)"
    and adm_notify: "(\<And>s'. adm (world s') = adm (world s) \<Longrightarrow> Q s') \<Longrightarrow> pred_option Q (r_notify_steering_when_drained (admission_hooks b app) s)"
    and adm_report: "(\<And>e s'. adm (world s') = adm (world s) \<Longrightarrow> Q2 (e, s')) \<Longrightarrow> pred_option Q2 (r_client_report_latency (admission_hooks b app) reps n s)"
    and adm_round: "(\<And>e q s'. adm (world s') = adm (world s) \<Longrightarrow> Q3 ((e, q), s')) \<Longrightarrow> pred_option Q3 (r_start_round (admission_hooks b app) req k s)"
    and adm_cancel: "(\<And>s'. adm (world s') = adm (world s) \<Longrightarrow> Q s') \<Longrightarrow> pred_option Q (r_client_cancel_request (admission_hooks b app) ho s)"
  using storage.delivery_upto [where m = "adm (world s)" and s = s] storage.feedback_upto [where m = "adm (world s)" and s = s]
    storage.report_upto [where m = "adm (world s)" and s = s] storage.start_round_upto [where m = "adm (world s)" and s = s]
    storage.cancel_upto [where m = "adm (world s)" and s = s]
  by (simp_all add: storage.upto_def)

lemma now_adm: "adm (world (snd (r_now_ms (admission_hooks b app) s))) = adm (world s)"
  using storage.now_upto [where m = "adm (world s)" and s = s] by (simp add: storage.upto_def)

lemma admission_hooks_sel:
  "h_profile_cb (admission_hooks b app) = map_option (\<lambda>f p w. w\<lparr>env := f p (env w)\<rparr>) (h_profile_cb b)"
  "h_cb (admission_hooks b app) = r_admission_complete app"
  by (simp_all add: admission_hooks_def)

lemma profile_adm: "adm (world (after_profile (admission_hooks b app) q st has s)) = adm (world s)"
  by (auto simp: after_profile_def split_beta now_adm emit_def admission_hooks_sel split: option.split)

lemma complete_adm:
  assumes "leaves_alone app (user q)" and "client s = Some c" and "find_req h c = Some q"
  shows "pred_option (\<lambda>s'. settled (get_adm (user q) s) (get_adm (user q) s')) (r_request_complete (admission_hooks b app) h st sel s)"
proof -
  let ?a = "user q"
  have cb: "pred_option Q (r_admission_complete app ?a ho st r t)"
    if "adm (world t) = adm (world s)" "\<And>s'. settled (get_adm ?a s) (get_adm ?a s') \<Longrightarrow> Q s'" for ho st r t Q
  proof -
    obtain oc where oc: "r_client_admission_classify st (map_option result_arg r) = Some oc" using classify_total by blast
    have "settled (get_adm ?a s) (get_adm ?a s')" if "app f u st oc (put_adm ?a ((get_adm ?a t)\<lparr>ad_handle := None, active := False,
        ad_outcome := oc, admitted := allowed oc\<rparr>) t) = Some s'" for f u s'
      using assms(1) [unfolded leaves_alone_def, rule_format, OF that] oc \<open>adm (world t) = adm (world s)\<close>
      by (auto simp: settled_def get_adm_def put_adm_def intro!: exI [of _ st] exI [of _ r])
    then have "pred_option Q (app f u st oc (put_adm ?a ((get_adm ?a t)\<lparr>ad_handle := None, active := False,
        ad_outcome := oc, admitted := allowed oc\<rparr>) t))" for f u
      using that(2) by (auto simp: option.pred_set)
    then show ?thesis by (simp add: r_admission_complete_def oc Let_def)
  qed
  show ?thesis unfolding request_complete_eq [OF assms(2,3) refl] admission_hooks_sel
    by (auto simp: wp profile_adm store_defs get_adm_def intro!: cb adm_delivery adm_notify
        pred_option_top [where m = "client s" for s])
qed

lemma round_adm:
  assumes "sys_ok s" and "client s = Some c" and "find_req h c = Some q"
    and "\<And>e q' s' c'. adm (world s') = adm (world s) \<Longrightarrow> user q' = user q \<Longrightarrow> handle q' = h \<Longrightarrow> client s' = Some c' \<Longrightarrow> find_req h c' = Some q
      \<Longrightarrow> Q ((e, q'), s')"
  shows "pred_option Q (r_start_round (admission_hooks b app) q k s)"
proof -
  note r = req_of_sys [OF assms(1-3)]
  obtain rc s' where s': "quiet s s'" "r_start_round (admission_hooks b app) q k s = Some ((rc, q), s')
      \<or> r_start_round (admission_hooks b app) q k s = Some ((rc, next_round (policy c) q k), s')"
    using start_round_cases [OF assms(2), of q "admission_hooks b app" k] r by (auto simp: on_schedule_def)
  obtain c' where c': "client s' = Some c'" "marks_only c c'" using quiet_Some [OF s'(1) assms(2)] by blast
  have f: "find_req h c' = Some q" using marks_only_fields [OF c'(2)] assms(3) by (simp add: find_req_def)
  have "pred_option (\<lambda>x. adm (world (snd x)) = adm (world s)) (r_start_round (admission_hooks b app) q k s)" by (rule adm_round) simp
  then have a: "adm (world s') = adm (world s)" using s'(2) by auto
  have h: "handle q = h" using find_req_Some [OF assms(3)] by simp
  have "user (next_round (policy c) q k) = user q" "handle (next_round (policy c) q k) = h" using h by (simp_all add: next_round_def Let_def)
  then show ?thesis using s'(2) assms(4) [OF a _ _ c'(1) f] h by auto
qed

text \<open>After a time-out of the request \<open>h\<close> with storage \<open>a\<close>: the storage is settled, or both are as before.\<close>

definition timed :: "nat \<Rightarrow> nat \<Rightarrow> 'x app sys \<Rightarrow> 'x app sys \<Rightarrow> bool" where
  "timed h a s s' \<longleftrightarrow> settled (get_adm a s) (get_adm a s')
     \<or> get_adm a s' = get_adm a s \<and> (\<exists>c' q'. client s' = Some c' \<and> find_req h c' = Some q' \<and> user q' = a)"

lemma timeout_adm:
  assumes "leaves_alone app (user q)" and "sys_ok s" and "client s = Some c" and "find_req h c = Some q"
  shows "pred_option (\<lambda>x. timed h (user q) s (snd x)) (r_client_on_timeout (admission_hooks b app) (Some h) t s)"
proof -
  have h: "handle q = h" using find_req_Some [OF assms(4)] by simp
  have fin: "pred_option (timed h (user q) s) (r_request_complete (admission_hooks b app) h st sel s1)"
    if "adm (world s1) = adm (world s)" "client s1 = Some c1" "find_req h c1 = Some q1" "user q1 = user q" for st sel s1 c1 q1
    using complete_adm [of app q1 s1 c1 h b st sel] that assms(1) by (auto simp: option.pred_set get_adm_def timed_def)
  have put: "timed h (user q) s (put_client (put_req q1 c1) s1)"
    if "adm (world s1) = adm (world s)" "find_req h c1 = Some q" "handle q1 = h" "user q1 = user q" for q1 c1 s1
    using find_put_req [OF that(2,3)] that(1,4) by (simp add: store_defs get_adm_def timed_def)
  have fin_put: "pred_option (timed h (user q) s) (r_request_complete (admission_hooks b app) h st sel (put_client (put_req q1 c1) s1))"
    if "adm (world s1) = adm (world s)" "find_req h c1 = Some q" "handle q1 = h" "user q1 = user q" for st sel q1 c1 s1
    by (rule fin [of _ "put_req q1 c1" q1]) (use that find_put_req [OF that(2,3)] in \<open>simp_all add: store_defs\<close>)
  have fin_now: "pred_option (timed h (user q) s) (r_request_complete (admission_hooks b app) h st sel s)" for st sel
    by (rule fin [OF refl assms(3,4) refl])
  have put_now: "timed h (user q) s (put_client (put_req q1 c) s)" if "handle q1 = h" "user q1 = user q" for q1
    by (rule put [OF refl assms(4) that])
  have fin_put_now: "pred_option (timed h (user q) s) (r_request_complete (admission_hooks b app) h st sel (put_client (put_req q1 c) s))"
    if "handle q1 = h" "user q1 = user q" for st sel q1 by (rule fin_put [OF refl assms(4) that])
  have same: "timed h (user q) s s" using assms(3,4) by (simp add: timed_def)
  note final = r_enter_final_def Let_def
  show ?thesis unfolding r_client_on_timeout_def r_request_policy_on_timeout_def
    using assms(3,4) h
    by (simp add: wp final fin_now put_now fin_put_now same round_adm [OF assms(2-4)] put fin_put split: r_request_phase.split)
qed

subsection \<open>Facts: errors are errors\<close>

abbreviation no_ok :: "(r_client_error + 'a) option \<Rightarrow> bool" where
  "no_ok \<equiv> pred_option (\<lambda>r. r \<noteq> Inl RCLIENT_OK)"

lemma label_error: "no_ok (r_append_metrics_label_tlv out cap pos l n)"
  by (auto simp: r_append_metrics_label_tlv_def wp intro!: pred_option_top)

lemma body_error: "no_ok (r_build_rate_request_body rs gs l n out cap)"
  by (auto simp: r_build_rate_request_body_def wp intro!: label_error pred_option_top [where m = "r_write_le16 a b c" for a b c]
      pred_option_top [where m = "r_write_guard_blocks a b c" for a b c] pred_option_top [where m = "r_write_resource_blocks a b c" for a b c])

lemma pdu_error: "no_ok (r_build_rate_request_pdu ttl body n out cap)"
  by (auto simp: r_build_rate_request_pdu_def r_build_pdu_def wp intro!: pred_option_top split: option.splits sum.splits)

lemma authenticate_error: "pred_option (\<lambda>r. fst r \<noteq> Inl RCLIENT_OK) (r_authenticate_packet hk c h pdu n out cap s)"
  by (auto simp: r_authenticate_packet_def wp intro!: pred_option_top split: option.splits sum.splits)

lemma pred_option_imp: "pred_option P m \<Longrightarrow> (\<And>x. P x \<Longrightarrow> Q x) \<Longrightarrow> pred_option Q m"
  by (cases m) simp_all

lemma packet_error: "pred_option (\<lambda>r. fst r \<noteq> Inl RCLIENT_OK) (r_build_rate_request_packet hk c q out cap s)"
  by (auto simp: r_build_rate_request_packet_def wp split: sum.split
      intro!: pred_option_imp [OF body_error] pred_option_imp [OF pdu_error] pred_option_imp [OF authenticate_error])

lemma units_error: "r_ha_schedule_units g k z \<noteq> Inl RCLIENT_OK"
  by (auto simp: r_ha_schedule_units_def Let_def split: r_ha_schedule_kind.splits)

lemma ttl_loop_error: "r_ttl_loop p m k n t \<noteq> Inl RCLIENT_OK"
  by (induction n arbitrary: k t) (auto simp: units_error Let_def split: sum.splits)

lemma ttl_error: "r_request_policy_ttl_ms p q \<noteq> Inl RCLIENT_OK"
  using ttl_loop_error by (auto simp: r_request_policy_ttl_ms_def Let_def split: sum.splits option.splits if_splits)

lemma snapshot_error: "fst (r_request_snapshot_targets hk c req s) \<noteq> Inl RCLIENT_OK"
  by (auto simp: r_request_snapshot_targets_def Let_def split_beta)

subsection \<open>Facts: starting a check\<close>

definition keeps_id :: "r_client_req \<Rightarrow> r_client_req \<Rightarrow> bool" where
  "keeps_id q q' \<longleftrightarrow> user q' = user q \<and> handle q' = handle q"

lemma round_keeps_id:
  assumes "keeps_id req q" and "\<And>e q' s'. keeps_id req q' \<Longrightarrow> Q ((e, q'), s')"
  shows "pred_option Q (r_start_round hk q k s)"
  using assms by (simp add: r_start_round_def wp keeps_id_def pred_option_top split: sum.split)

lemma snapshot_keeps_id:
  "fst (r_request_snapshot_targets hk c (req\<lparr>packet := p, packet_len := n\<rparr>) s) = Inr q \<Longrightarrow> keeps_id req q"
  by (auto simp: r_request_snapshot_targets_def keeps_id_def Let_def split: if_splits prod.splits)

lemma first_round_keeps_id:
  assumes "keeps_id req q" and "\<And>r s'. r \<noteq> Inl RCLIENT_OK \<Longrightarrow> (\<And>q'. r = Inr q' \<Longrightarrow> keeps_id req q') \<Longrightarrow> Q (r, s')"
  shows "pred_option Q (r_first_round hk c q s)"
proof -
  have *: "keeps_id req q'" if "fst (r_request_snapshot_targets hk c (q\<lparr>packet := p, packet_len := n\<rparr>) t) = Inr q'" for p n t q'
    using snapshot_keeps_id [OF that] assms(1) by (simp add: keeps_id_def)
  show ?thesis using snapshot_error
    by (auto simp: r_first_round_def wp split: sum.split dest: * intro!: assms(2) round_keeps_id [of req] pred_option_imp [OF packet_error])
qed

lemma launch_keeps_id:
  assumes "\<And>r s'. r \<noteq> Inl RCLIENT_OK \<Longrightarrow> (\<And>q'. r = Inr q' \<Longrightarrow> keeps_id req q') \<Longrightarrow> Q (r, s')"
  shows "pred_option Q (r_launch_request hk req s)"
  using ttl_error by (auto simp: r_launch_request_def r_generate_request_id_def wp keeps_id_def split: sum.split option.splits
      intro!: assms wp_op first_round_keeps_id [of req])

text \<open>The handle names a request in flight that belongs to the storage \<open>a\<close>.\<close>

definition owned :: "nat \<Rightarrow> nat option \<Rightarrow> 'w sys \<Rightarrow> bool" where
  "owned a ho s \<longleftrightarrow> (\<exists>h c q. ho = Some h \<and> client s = Some c \<and> find_req h c = Some q \<and> user q = a)"

lemma submit_owned:
  assumes "\<And>e ho s'. (e = RCLIENT_OK \<Longrightarrow> owned u ho s') \<Longrightarrow> Q ((e, ho), s')"
  shows "pred_option Q (r_submit_request hk rs gs l n u b s)"
  by (auto simp: r_submit_request_def wp split: sum.split intro!: assms wp_op launch_keeps_id
      pred_option_top [where m = "r_copy_label a b c d e" for a b c d e])
    (auto simp: owned_def store_defs find_req_def keeps_id_def r_new_request_def)

lemma check_owned:
  assumes "rn > 0" and "\<And>e ho s'. (e = RCLIENT_OK \<Longrightarrow> owned a ho s') \<Longrightarrow> Q ((e, ho), s')"
  shows "pred_option Q (r_client_check_rate_limit_async_impl hk resources rn guards gn l n (Some a) b s)"
  using assms(1) by (auto simp: r_client_check_rate_limit_async_impl_def wp intro!: assms(2) wp_op submit_owned
      pred_option_top [where m = "r_dns_maybe_refresh a b c" for a b c])

lemma check_adm:
  assumes "r_client_check_rate_limit_async_impl (admission_hooks b app) resources rn guards gn l n (Some a) bw s = Some (r, s')" and "rn > 0"
  shows "adm (world s') = adm (world s)"
proof -
  have u: "storage.upto (adm (world s)) s" by (simp add: storage.upto_def)
  note fr = storage.maybe_refresh_upto [where m = "adm (world s)"] and sb = storage.submit_upto [where m = "adm (world s)"]
  have "pred_option (\<lambda>x. storage.upto (adm (world s)) (snd x)) (r_client_check_rate_limit_async_impl (admission_hooks b app) resources rn guards gn l n (Some a) bw s)"
    using assms(2) u by (auto simp: r_client_check_rate_limit_async_impl_def wp intro!: wp_op fr sb)
  then show ?thesis using assms(1) by (simp add: storage.upto_def)
qed

lemma content_id_length: "r_hash_content_id_blake2s_128 H d n fs = Some i \<Longrightarrow> length i = 16"
  by (auto simp: r_hash_content_id_blake2s_128_def Let_def split: option.splits if_splits)

lemma derived_length:
  "r_client_derive_bucket_id H n w r = Inr i \<Longrightarrow> length i = 16" "r_client_derive_latency_tracker_id H n t m k = Inr i \<Longrightarrow> length i = 16"
  by (auto simp: r_client_derive_bucket_id_def r_client_derive_latency_tracker_id_def split: option.splits dest: content_id_length)

lemma prepare_ok:
  assumes "r_client_admission_prepare H (Some rq0) cfg cb u = (e, r)"
  shows "\<exists>rq. r = Some rq \<and> (rq = rq0 \<and> e = RCLIENT_ERR_CONFIG
    \<or> \<not> active rq \<and> \<not> admitted rq \<and> \<not> latency_reported rq \<and> ad_handle rq = None
      \<and> (e = RCLIENT_OK \<longrightarrow> wf_resource (ad_resource rq) \<and> wf_guard (ad_guard rq)))"
proof (cases "cb = 0 \<or> \<not> r_admission_config_valid cfg")
  case True
  then show ?thesis using assms by (cases cfg) (auto simp: r_client_admission_prepare_def)
next
  case False
  then obtain c where c: "cfg = Some c" by (cases cfg) (auto simp: r_admission_config_valid_def)
  show ?thesis using False assms derived_length unfolding c r_client_admission_prepare_def r_zero_admission_def wf_resource_def wf_guard_def
    by (cases "r_client_derive_bucket_id H (map_option c_string (ac_bucket_name c)) (ac_window_size_ms c) (ac_rate_limit c)";
        cases "r_client_derive_latency_tracker_id H (map_option c_string (ac_latency_tracker_name c))
          (ac_latency_ttl_ms c) (ac_latency_max_samples c) (ac_latency_min_sample_threshold c)") auto
qed

text \<open>What a start leaves in the storage \<open>a\<close>.\<close>

definition started :: "nat \<Rightarrow> r_client_error \<Rightarrow> 'x app sys \<Rightarrow> 'x app sys \<Rightarrow> bool" where
  "started a e s s' \<longleftrightarrow> (let rq = get_adm a s' in
     if e = RCLIENT_OK then active rq \<and> \<not> admitted rq \<and> \<not> latency_reported rq \<and> owned a (ad_handle rq) s'
     else rq = get_adm a s \<or> \<not> active rq \<and> \<not> admitted rq \<and> \<not> latency_reported rq \<and> ad_handle rq = None)"

lemma fine_put_adm [simp]: "fine (put_adm a rq s) s' = fine s s'" "fine s (put_adm a rq s') = fine s s'"
  by (simp_all add: fine_def)

lemma owned_put_adm [simp]: "owned a ho (put_adm a' rq s) = owned a ho s"
  by (simp add: owned_def)

lemma admission_start_ok:
  assumes "host_ok (admission_hooks b app)" and "sys_ok s" and "client s = Some c"
  shows "\<exists>e s'. r_client_admission_start (admission_hooks b app) H (Some a) cfg cb u s = Some (e, s')
    \<and> fine s s' \<and> (\<forall>a'. a' \<noteq> a \<longrightarrow> get_adm a' s' = get_adm a' s) \<and> started a e s s'"
proof -
  obtain e r where p: "r_client_admission_prepare H (Some (get_adm a s)) cfg cb u = (e, r)" by fastforce
  obtain rq where rq: "r = Some rq" "rq = get_adm a s \<and> e = RCLIENT_ERR_CONFIG
    \<or> \<not> active rq \<and> \<not> admitted rq \<and> \<not> latency_reported rq \<and> ad_handle rq = None
      \<and> (e = RCLIENT_OK \<longrightarrow> wf_resource (ad_resource rq) \<and> wf_guard (ad_guard rq))" using prepare_ok [OF p] by blast
  have r: "fine s s" using assms(2,3) by (simp add: fine_def)
  show ?thesis
  proof (cases "e = RCLIENT_OK")
    case False
    then show ?thesis using p rq r assms(3) by (auto simp: r_client_admission_start_def started_def adm_put)
  next
    case True
    let ?s1 = "put_adm a (rq\<lparr>active := True\<rparr>) (put_adm a rq s)"
    have ao: "args_ok (Some [ad_resource rq]) 1 (Some [ad_guard rq]) 1 (ad_metrics_label rq) 0"
      using True rq(2) by (simp add: args_ok_def wf_label_def split: option.split)
    have s1: "sys_ok ?s1" "client ?s1 = Some c" using assms(2,3) by simp_all
    let ?call = "r_client_check_rate_limit_async_impl (admission_hooks b app) (Some [ad_resource rq]) 1 (Some [ad_guard rq]) 1 (ad_metrics_label rq) 0 (Some a) True ?s1"
    obtain e2 ho s2 where k: "?call = Some ((e2, ho), s2)" "fine ?s1 s2"
      using check_rate_limit_ok [OF assms(1) s1 ao, of "Some a" True] by blast
    have "pred_option (\<lambda>x. fst (fst x) = RCLIENT_OK \<longrightarrow> owned a (snd (fst x)) (snd x)) ?call" by (rule check_owned) simp_all
    then have o: "e2 = RCLIENT_OK \<Longrightarrow> owned a ho s2" using k(1) by simp
    have ad: "adm (world s2) = adm (world ?s1)" using check_adm [OF k(1)] by simp
    have g: "get_adm a' s2 = (if a' = a then rq\<lparr>active := True\<rparr> else get_adm a' s)" for a'
      using ad by (simp add: get_adm_def put_adm_def)
    let ?rq = "if e2 \<noteq> RCLIENT_OK then (rq\<lparr>active := True\<rparr>)\<lparr>ad_handle := None, active := False\<rparr> else rq\<lparr>active := True, ad_handle := ho\<rparr>"
    have "r_client_admission_start (admission_hooks b app) H (Some a) cfg cb u s = Some (e2, put_adm a ?rq s2)"
      using p rq(1) True k(1) g [of a] assms(3)
      by (simp add: r_client_admission_start_def r_client_check_rate_limit_async_borrowed_def adm_put)
    moreover have "started a e2 s (put_adm a ?rq s2)" using o True rq(2) by (simp add: started_def adm_put)
    ultimately show ?thesis using k(2) g by (auto simp: adm_put)
  qed
qed

subsection \<open>Facts: the decision\<close>

lemma settled_trans: "settled rq rq1 \<Longrightarrow> settled rq1 rq2 \<Longrightarrow> settled rq rq2"
  unfolding settled_def by (elim exE conjE) (intro exI conjI, assumption, simp)

lemma fire_settles:
  assumes "host_ok (admission_hooks b app)" and "leaves_alone app a"
  shows "sys_ok s \<Longrightarrow> in_flight h p (\<lambda>q. steps_left p q \<le> length ts \<and> user q = a) s \<Longrightarrow>
    \<exists>s'. fire (admission_hooks b app) h ts s = Some s' \<and> sys_ok s' \<and> h \<in> set (cb_handles (trace s')) \<and> settled (get_adm a s) (get_adm a s')"
proof (induction ts arbitrary: s)
  case Nil
  then obtain q where "steps_left p q \<le> 0" by (auto simp: in_flight_def)
  then show ?case using steps_left_pos [of p q] by simp
next
  case (Cons t ts)
  let ?hk = "admission_hooks b app" let ?Q = "\<lambda>q. steps_left p q \<le> length ts \<and> user q = a"
  obtain c q where c: "client s = Some c" "policy c = p" "find_req h c = Some q" "steps_left p q \<le> Suc (length ts)" "user q = a"
    using Cons.prems(2) by (auto simp: in_flight_def)
  have nx: "?Q q'" if "next_state q q'" "unat (ha_round q') \<le> unat (replay_count p) \<or> phase q' = R_REQUEST_PHASE_FINAL" for q'
    using steps_left_next [OF that] c(4,5) that(1) by (simp add: next_state_def)
  obtain s1 where s1: "r_client_on_timeout ?hk (Some h) (max (attempt_deadline_ms q) t) s = Some (RCLIENT_OK, s1)" "advanced h p ?Q s s1"
    using due_timeout_advances [OF assms(1) Cons.prems(1) c(1,3), of "max (attempt_deadline_ms q) t" ?Q] nx c(2) by auto
  have f: "fire ?hk h (t # ts) s = fire ?hk h ts s1" using c(1,3) s1(1) by (simp add: r_client_request_deadline_ms_def)
  have ok: "sys_ok s1" "client s1 \<noteq> None" using s1(2) by (auto simp: advanced_def)
  have tm: "timed h a s s1" using timeout_adm [of app q s c h b "max (attempt_deadline_ms q) t"] assms(2) Cons.prems(1) c s1(1) by simp
  show ?case
  proof (cases "in_flight h p ?Q s1")
    case True
    from Cons.IH [OF ok(1) this] show ?thesis using f tm settled_trans by (auto simp: timed_def)
  next
    case False
    then have cb: "h \<in> set (cb_handles (trace s1))" using s1(2) by (auto simp: advanced_def)
    then have "settled (get_adm a s) (get_adm a s1)" using tm called_back_gone [OF ok(1) _ cb] by (auto simp: timed_def)
    then show ?thesis using f fire_done [OF ok cb] ok(1) cb by simp
  qed
qed

subsection \<open>Facts: reports\<close>

text \<open>The packet of a latency report under a cookie credential.\<close>

lemma report_packet_cookie:
  assumes "client s = Some c" and "auth_type c = 1" and "cookie c = Some ck" and "length ck = 32" and "rand_laws hk"
    and "list_all wf_report rs" and "88 + length rs * 32 \<le> 1200"
    and "r_generate_request_id hk s = (Inr uid, s1)" and "r_now_ms hk s1 = (now, s2)" and "client s2 = Some c"
  shows "r_build_report_packet hk rs s = Some (Inr (cookie_packet (tenant_header_for (cl_key_id c) uid now) ck
      (pdu_bytes R_PDU_LATENCY_REPORT 0 (le_bytes 2 (of_nat (length rs) :: u16) @ le_bytes 2 (0 :: u16) @ reports_bytes rs))), s2)"
proof -
  let ?b = "le_bytes 2 (of_nat (length rs) :: u16) @ le_bytes 2 (0 :: u16) @ reports_bytes rs" let ?n = "length ?b"
  have lb: "length local_buf = 1200" by (simp add: local_buf_def wire_lens)
  have n: "?n = 4 + length rs * 32" using assms(6) by (simp add: length_reports_bytes)
  have body: "r_build_latency_report_body rs local_buf 1200 = Some (Inr (?b @ drop ?n local_buf, ?n))"
    using latency_report_body_eq [OF assms(6), of 1200 local_buf ?b] lb n assms(7) by simp
  let ?p = "pdu_bytes R_PDU_LATENCY_REPORT 0 ?b"
  have pdu: "r_build_pdu R_PDU_LATENCY_REPORT (?b @ drop ?n local_buf) ?n local_buf 1200 = Some (Inr (?p @ drop (8 + ?n) local_buf, 8 + ?n))"
    by (subst build_pdu_eq [of _ _ _ _ ?p]) (use lb n assms(7) in auto)
  let ?h = "tenant_header_for (cl_key_id c) uid now" let ?q = "?p @ drop (8 + ?n) local_buf"
  have h: "wf_tenant ?h" using request_id_length [OF assms(5)] assms(8) by (simp add: wf_tenant_header_for)
  have lp: "length ?p = 8 + ?n" by (simp add: length_pdu_bytes)
  have t: "take (8 + ?n) ?q = ?p" using lp by simp
  have l: "length (cookie_packet ?h ck ?p) = 76 + (8 + ?n)"
    using assms(4) length_auth_header(1) [OF h] lp by (simp add: cookie_packet_def)
  have "r_authenticate_packet hk c ?h ?q (8 + ?n) local_buf 1200 s2 =
      Some (Inr (cookie_packet ?h ck ?p @ drop (76 + (8 + ?n)) local_buf, 76 + (8 + ?n)), s2)"
    using r_authenticate_cookie [OF assms(2-4) h, of "8 + ?n" ?q 1200 local_buf, OF _ _ _ refl] lp lb n assms(7) unfolding t by simp
  moreover have "rd_bytes (cookie_packet ?h ck ?p @ drop (76 + (8 + ?n)) local_buf) 0 (76 + (8 + ?n)) = Some (cookie_packet ?h ck ?p)"
    using l by (simp add: rd_bytes_def)
  ultimately show ?thesis using body pdu assms(8-10) by (simp add: r_build_report_packet_def R_MAX_PACKET_SIZE_def)
qed

text \<open>What the application may do without starting the storage \<open>a\<close> again.\<close>

inductive adm_step :: "'x app hooks \<Rightarrow> hash_fn \<Rightarrow> nat \<Rightarrow> 'x app sys \<Rightarrow> 'x app sys \<Rightarrow> bool" for hk H a where
  client: "client_step hk s s' \<Longrightarrow> adm_step hk H a s s'"
| timeout: "r_client_admission_on_timeout hk request t s = Some (rc, s') \<Longrightarrow> adm_step hk H a s s'"
| cancel: "r_client_admission_cancel hk request s = Some s' \<Longrightarrow> adm_step hk H a s s'"
| report: "r_client_admission_report_latency hk request v s = Some (rc, s') \<Longrightarrow> adm_step hk H a s s'"
| start: "a' \<noteq> a \<Longrightarrow> r_client_admission_start hk H (Some a') cfg cb u s = Some (rc, s') \<Longrightarrow> adm_step hk H a s s'"

inductive adm_reach :: "'x app hooks \<Rightarrow> hash_fn \<Rightarrow> nat \<Rightarrow> 'x app sys \<Rightarrow> 'x app sys \<Rightarrow> bool" for hk H a where
  here: "adm_reach hk H a s s"
| step: "adm_reach hk H a s t \<Longrightarrow> adm_step hk H a t u \<Longrightarrow> adm_reach hk H a s u"

definition keeps_report :: "'x app_fn \<Rightarrow> nat \<Rightarrow> bool" where
  "keeps_report app a \<longleftrightarrow> (\<forall>f u st oc s s'. app f u st oc s = Some s' \<and> latency_reported (get_adm a s) \<longrightarrow> latency_reported (get_adm a s'))"

lemma report_flag_inv:
  assumes "keeps_report app a" shows "world_inv_cb (admission_hooks b app) (\<lambda>w. latency_reported (adm w a))"
proof
  fix s u h st r s' assume f: "latency_reported (adm (world s) a)" "h_cb (admission_hooks b app) u h st r s = Some s'"
  obtain oc where oc: "r_client_admission_classify st (map_option result_arg r) = Some oc" using classify_total by blast
  let ?rq = "(get_adm u s)\<lparr>ad_handle := None, active := False, ad_outcome := oc, admitted := allowed oc\<rparr>"
  have "app (ad_callback ?rq) (ad_user ?rq) st oc (put_adm u ?rq s) = Some s'"
    using f(2) oc by (simp add: admission_hooks_sel r_admission_complete_def Let_def)
  moreover have "latency_reported (get_adm a (put_adm u ?rq s))" using f(1) by (auto simp: put_adm_def get_adm_def)
  ultimately have "latency_reported (get_adm a s')" using assms unfolding keeps_report_def by blast
  then show "latency_reported (adm (world s') a)" by (simp add: get_adm_def)
qed (auto simp: admission_hooks_def)

context world_inv_cb
begin

lemma step_inv:
  assumes "client_step hk s s'" and "I (world s)" shows "I (world s')"
proof -
  have u: "upto s" using assms(2) by (simp add: upto_def)
  have "upto s'" using assms(1)
  proof cases
    case (submit resources rn guards gn label len cb borrowed r)
    show ?thesis using pred_option_Some [OF check_upto [OF u, of "\<lambda>x. upto (snd x)"] submit(2)] by simp
  next
    case (report reports n rc)
    show ?thesis using pred_option_Some [OF report_upto [OF u, of "\<lambda>x. upto (snd x)"] report(2)] by simp
  next
    case (datagram buf len "from" rc)
    show ?thesis using pred_option_Some [OF datagram_upto [OF u, of "\<lambda>x. upto (snd x)"] datagram(2)] by simp
  next
    case (timeout c h t rc)
    show ?thesis using pred_option_Some [OF timeout_upto [OF u, of "\<lambda>x. upto (snd x)"] timeout(3)] by simp
  next
    case (cancel req)
    show ?thesis using pred_option_Some [OF cancel_upto [OF u, of upto] cancel] by simp
  next
    case (srv_answer l ok recs)
    show ?thesis using pred_option_Some [OF srv_cb_upto [OF u, of upto] srv_answer(2)] by simp
  next
    case (addr_answer l "as" ok)
    show ?thesis using pred_option_Some [OF addr_cb_upto [OF u, of upto] addr_answer(3)] by simp
  qed
  then show ?thesis by (simp add: upto_def)
qed

lemma check_inv: "(\<And>x s'. I (world s') \<Longrightarrow> Q (x, s')) \<Longrightarrow> I (world s) \<Longrightarrow>
    pred_option Q (r_client_check_rate_limit_async_impl hk rs i gs j l n cb b s)"
  by (rule check_upto) (simp_all add: upto_def)

lemma timeout_inv: "(\<And>x s'. I (world s') \<Longrightarrow> Q (x, s')) \<Longrightarrow> I (world s) \<Longrightarrow> pred_option Q (r_client_on_timeout hk req t s)"
  by (rule timeout_upto) (simp_all add: upto_def)

end

lemma adm_step_flag:
  assumes "keeps_report app a" and "adm_step (admission_hooks b app) H a s s'" and "latency_reported (get_adm a s)"
  shows "latency_reported (get_adm a s')"
proof -
  note W = report_flag_inv [OF assms(1), of b]
  have f: "latency_reported (adm (world s) a)" using assms(3) by (simp add: get_adm_def)
  let ?ok = "\<lambda>x. latency_reported (adm (world (snd x)) a)"
  have "latency_reported (adm (world s') a)" using assms(2)
  proof cases
    case client
    then show ?thesis using world_inv_cb.step_inv [OF W] f by blast
  next
    case (timeout request t rc)
    have "pred_option ?ok (r_client_admission_on_timeout (admission_hooks b app) request t s)"
      using f by (auto simp: r_client_admission_on_timeout_def wp split: option.split intro!: world_inv_cb.timeout_inv [OF W])
    then show ?thesis using timeout by simp
  next
    case (cancel request)
    have "pred_option (\<lambda>s. latency_reported (adm (world s) a)) (r_client_admission_cancel (admission_hooks b app) request s)"
      using f by (auto simp: r_client_admission_cancel_def wp get_adm_def put_adm_def split: option.split intro!: adm_cancel)
    then show ?thesis using cancel by simp
  next
    case (report request v rc)
    have "pred_option ?ok (r_client_admission_report_latency (admission_hooks b app) request v s)"
      using f by (auto simp: r_client_admission_report_latency_def wp get_adm_def put_adm_def split: option.split intro!: adm_report)
    then show ?thesis using report by simp
  next
    case (start a' cfg cb u rc)
    have "pred_option ?ok (r_client_admission_start (admission_hooks b app) H (Some a') cfg cb u s)"
      using f start(1) by (auto simp: r_client_admission_start_def r_client_check_rate_limit_async_borrowed_def wp get_adm_def put_adm_def
        split: option.split intro!: world_inv_cb.check_inv [OF W])
    then show ?thesis using start(2) by simp
  qed
  then show ?thesis by (simp add: get_adm_def)
qed

subsection \<open>An application\<close>

text \<open>
  The application that the workflow is made for: when its work was admitted it reports the duration of
  the work, from inside the callback; its user pointer is the address of the storage.  (The identity
  of the tracker is an array of 16 bytes.)
\<close>

definition report_app :: "'x hooks \<Rightarrow> 'x app_fn" where
  "report_app b f u st oc s =
    (if allowed oc \<and> wf_guard (ad_guard (get_adm u s))
     then map_option snd (r_client_admission_report_latency (admission_hooks b (\<lambda>_ _ _ _ s. Some s)) (Some u) 5 s)
     else Some s)"

lemma report_app_flag: "keeps_report (report_app b) a"
proof -
  have i: "keeps_report (\<lambda>_ _ _ _ s. Some s) a" by (simp add: keeps_report_def)
  have "latency_reported (get_adm a s')" if f: "report_app b f u st oc s = Some s'" "latency_reported (get_adm a s)" for f u st oc s s'
  proof (cases "allowed oc \<and> wf_guard (ad_guard (get_adm u s))")
    case True
    then obtain rc where "r_client_admission_report_latency (admission_hooks b (\<lambda>_ _ _ _ s. Some s)) (Some u) 5 s = Some (rc, s')"
      using f(1) by (auto simp: report_app_def)
    from adm_step_flag [OF i adm_step.report [OF this] f(2)] show ?thesis .
  qed (use f in \<open>auto simp: report_app_def split: if_splits\<close>)
  then show ?thesis unfolding keeps_report_def by blast
qed

interpretation reporting: world_inv_cb "admission_hooks b (report_app b)" "\<lambda>w. latency_reported (adm w a)" for b :: "'x hooks" and a
  by (rule report_flag_inv [OF report_app_flag])

interpretation idle_app: admission_app sample_hooks "\<lambda>_ _ _ _ s. Some s"
  by unfold_locales (use sample_host in \<open>auto simp: host_ok_def\<close>)

lemma admission_report_ok:
  assumes "host_ok (admission_hooks b app)" and "sys_ok s" and "client s = Some c" and "wf_guard (ad_guard (get_adm a s))"
  shows "\<exists>rc s'. r_client_admission_report_latency (admission_hooks b app) (Some a) v s = Some (rc, s') \<and> fine s s'"
proof -
  let ?g = "ad_guard (get_adm a s)"
  let ?r = "\<lparr>rep_latency_tracker_id = latency_tracker_id ?g, rep_observed_latency = v, rep_ttl_ms = ttl_ms ?g,
    rep_max_samples = max_samples ?g, rep_min_sample_threshold = min_sample_threshold ?g\<rparr>"
  have w: "\<forall>rs. Some [?r] = Some rs \<longrightarrow> 1 \<le> length rs \<and> list_all wf_report rs"
    using assms(4) by (simp add: wf_report_def wf_guard_def)
  obtain rc s' where r: "r_client_report_latency (admission_hooks b app) (Some [?r]) 1 s = Some (rc, s')" "calm s s'"
    using report_ok [OF assms(1-3) w] by blast
  have "fine s s" using assms(2,3) by (simp add: fine_def)
  then show ?thesis using r fine_calm [OF r(2)] assms(3) by (auto simp: r_client_admission_report_latency_def Let_def)
qed

interpretation report_app: admission_app sample_hooks "report_app sample_hooks"
proof
  fix f u st oc and s :: "nat app sys" assume s: "sys_ok s" "client s \<noteq> None"
  then obtain c where c: "client s = Some c" by auto
  have r: "fine s s" using s by (simp add: fine_def)
  show "\<exists>s'. report_app sample_hooks f u st oc s = Some s' \<and> sys_ok s' \<and> client s' \<noteq> None \<and> (\<exists>evs. trace s' = trace s @ evs)"
  proof (cases "allowed oc \<and> wf_guard (ad_guard (get_adm u s))")
    case True
    then show ?thesis using admission_report_ok [OF idle_app.admission_host s(1) c, of u 5] by (auto simp: report_app_def fine_def)
  qed (use s in \<open>auto simp: report_app_def\<close>)
qed (use sample_host in \<open>auto simp: host_ok_def\<close>)

lemma sys_ok_transfer:
  fixes s :: "'a sys" and s' :: "'b sys"
  assumes "client s' = client s" "refreshes s' = refreshes s" "lookups s' = lookups s" "next_ptr s' = next_ptr s" "trace s' = trace s"
  shows "sys_ok s' = sys_ok s"
  unfolding sys_ok_def dns_idle_def dns_mid_def refreshes_ok_def lookups_ok_def client_ok_def assms by simp

definition adm_busy :: "r_admission_request \<Rightarrow> r_client \<Rightarrow> nat app sys" where
  "adm_busy rq c = \<lparr>client = Some c, refreshes = (\<lambda>_. None), lookups = (\<lambda>_. None), next_ptr = 2,
     world = \<lparr>adm = (\<lambda>_. rq), env = 1000\<rparr>, trace = []\<rparr>"

lemma adm_busy_ok: "sys_ok (adm_busy rq busy_client)"
  using busy_ok(1) sys_ok_transfer [of "adm_busy rq busy_client" busy_sys] by (simp add: adm_busy_def busy_sys_def sample_sys_def)

subsection \<open>Properties\<close>

text \<open>
  (C32) The decision that the application sees is the decision of the server: a check is allowed exactly
  when every guard of the response is below its threshold and no resource has a deficit; a rejection
  is attributed to the rate limit exactly when some resource has a deficit, to the latency guard
  exactly when some guard failed, and the reported deficit is positive exactly for the former.
\<close>

theorem admission_reflects_response:
  assumes "pdu_len \<le> length pdu" and "r_parse_rate_response_pdu pdu pdu_len gcap rcap = Some (Inr (gs, rs, ok))"
    and "r = \<lparr>success = ok, result_server_id = i, result_steering_feedback = fb, result_guards = gs, result_resources = rs\<rparr>"
  shows "\<exists>oc. r_client_admission_classify RCLIENT_OK (Some (result_arg r)) = Some oc
    \<and> (allowed oc \<longleftrightarrow> (\<forall>g\<in>set gs. gr_current_latency_ms g < gr_threshold_ms g) \<and> (\<forall>x\<in>set rs. tokens_deficit x = 0))
    \<and> (rate_limited oc \<longleftrightarrow> (\<exists>x\<in>set rs. tokens_deficit x \<noteq> 0))
    \<and> (latency_limited oc \<longleftrightarrow> (\<exists>g\<in>set gs. gr_threshold_ms g \<le> gr_current_latency_ms g))
    \<and> (out_tokens_deficit oc \<noteq> 0 \<longleftrightarrow> rate_limited oc)
    \<and> decision oc = (if allowed oc then R_ADMISSION_ALLOWED
        else if \<not> latency_limited oc then R_ADMISSION_RATE_LIMITED
        else if \<not> rate_limited oc then R_ADMISSION_LATENCY_LIMITED else R_ADMISSION_RATE_AND_LATENCY_LIMITED)"
proof -
  have p: "gs = resp_guards pdu" "rs = resp_resources pdu" "ok = Protocol.decision gs rs"
    using assms(2) unfolding r_parse_rate_response_pdu_eq [OF assms(1)] by (auto split: if_splits)
  have g: "passed g \<longleftrightarrow> gr_current_latency_ms g < gr_threshold_ms g" if "g \<in> set gs" for g
    using that p(1) by (auto simp: resp_guards_def guard_result_of_def)
  have n: "(0 :: u16) < x \<longleftrightarrow> x \<noteq> 0" for x by (rule word_neq_0_conv [symmetric])
  show ?thesis
  proof (cases ok)
    case True
    then have "\<forall>g\<in>set gs. passed g" "\<forall>x\<in>set rs. tokens_deficit x = 0" using p(3) by (auto simp: Protocol.decision_def list_all_iff)
    moreover have "\<not> (\<exists>g\<in>set gs. gr_threshold_ms g \<le> gr_current_latency_ms g)" using calculation(1) g by (force simp: not_le)
    ultimately show ?thesis using True g unfolding classify_result assms(3)
      by (simp add: r_error_outcome_def split: list.split)
  next
    case False
    then have f: "\<not> ((\<forall>g\<in>set gs. passed g) \<and> (\<forall>x\<in>set rs. tokens_deficit x = 0))" using p(3) by (auto simp: Protocol.decision_def list_all_iff)
    let ?d = "find (\<lambda>r. tokens_deficit r > 0) rs" let ?f = "find (\<lambda>g. \<not> passed g) gs"
    have d: "?d = None \<longleftrightarrow> (\<forall>x\<in>set rs. tokens_deficit x = 0)" and "?f = None \<longleftrightarrow> (\<forall>g\<in>set gs. passed g)"
      by (simp_all add: find_NoneE n)
    then have fl: "?f = None \<longleftrightarrow> (\<forall>g\<in>set gs. gr_current_latency_ms g < gr_threshold_ms g)" using g by blast
    have o: "?f \<noteq> None \<or> ?d \<noteq> None" using f d fl g by blast
    have v: "(case ?d of None \<Rightarrow> 0 | Some r \<Rightarrow> tokens_deficit r) \<noteq> 0 \<longleftrightarrow> ?d \<noteq> None" by (auto split: option.split dest: find_SomeD)
    have c: "(\<exists>g\<in>set gs. gr_threshold_ms g \<le> gr_current_latency_ms g) \<longleftrightarrow> ?f \<noteq> None" "(\<exists>x\<in>set rs. tokens_deficit x \<noteq> 0) \<longleftrightarrow> ?d \<noteq> None"
      unfolding d fl by (auto simp: not_less)
    show ?thesis using False o unfolding classify_result assms(3) c fl [symmetric] d [symmetric] by (simp add: Let_def v) auto
  qed
qed

theorem admission_reflects_response_witness:
  "\<exists>oc. r_client_admission_classify RCLIENT_OK (Some (result_arg \<lparr>success = False, result_server_id = 4, result_steering_feedback = True,
       result_guards = [\<lparr>gr_latency_tracker_id = replicate 16 1, gr_threshold_ms = 100, gr_current_latency_ms = 7, passed = True\<rparr>],
       result_resources = [\<lparr>res_bucket_id = replicate 16 2, tokens_deficit = 4, actual_rate = 3\<rparr>]\<rparr>)) = Some oc
     \<and> decision oc = R_ADMISSION_RATE_LIMITED \<and> \<not> allowed oc"
proof -
  have "r_parse_rate_response_pdu sample_response (length sample_response) 1 1 =
    Some (Inr ([\<lparr>gr_latency_tracker_id = replicate 16 1, gr_threshold_ms = 100, gr_current_latency_ms = 7, passed = True\<rparr>],
               [\<lparr>res_bucket_id = replicate 16 2, tokens_deficit = 4, actual_rate = 3\<rparr>], False))"
    using parse_encoded_response [of
     "[\<lparr>gb_latency_tracker_id = replicate 16 1, gb_ttl_ms = 10, gb_max_samples = 5,
       gb_min_sample_threshold = 1, gb_latency_threshold = 100, gb_current_latency = 7\<rparr>]"
     "[\<lparr>rb_bucket_id = replicate 16 2, rb_window_size_ms = 1000, rb_rate_limit = 3,
       rb_tokens_requested = 4, rb_padding = 0\<rparr>]" 1 1 sample_response 0 "[]"]
    by (simp add: sample_response_def guard_result_of_def resource_result_of_def)
  from admission_reflects_response [OF order_refl this HOL.refl, of 4 True] show ?thesis by auto
qed

text \<open>
  (C33) Starting a check never leaves a dangling storage.  It is free of undefined behaviour; when it
  succeeds, the storage is active and its handle names a request that is in flight and will complete
  this storage; when it fails, the storage is untouched or inactive without a handle, so that the
  timer, the deadline query and the cancellation ignore it.  Other storages are not touched.
\<close>

theorem admission_start_exact:
  assumes "host_ok (admission_hooks b app)" and "sys_ok s" and "client s = Some c"
  shows "\<exists>e s' rq. r_client_admission_start (admission_hooks b app) H (Some a) cfg cb u s = Some (e, s')
    \<and> sys_ok s' \<and> (\<forall>a'. a' \<noteq> a \<longrightarrow> get_adm a' s' = get_adm a' s) \<and> rq = get_adm a s'
    \<and> (if e = RCLIENT_OK
       then active rq \<and> \<not> admitted rq \<and> \<not> latency_reported rq
         \<and> (\<exists>h c' q. ad_handle rq = Some h \<and> client s' = Some c' \<and> find_req h c' = Some q \<and> user q = a)
       else rq = get_adm a s \<or> \<not> active rq \<and> ad_handle rq = None \<and> \<not> admitted rq
         \<and> r_client_admission_on_timeout (admission_hooks b app) (Some a) t s' = Some (RCLIENT_ERR_CONFIG, s')
         \<and> r_client_admission_deadline_ms (Some a) s' = Some (Inl RCLIENT_ERR_CONFIG)
         \<and> r_client_admission_cancel (admission_hooks b app) (Some a) s' = Some s')"
proof -
  obtain e s' where r: "r_client_admission_start (admission_hooks b app) H (Some a) cfg cb u s = Some (e, s')" "fine s s'"
    "\<forall>a'. a' \<noteq> a \<longrightarrow> get_adm a' s' = get_adm a' s" "started a e s s'" using admission_start_ok [OF assms] by blast
  show ?thesis
  proof (cases "e = RCLIENT_OK")
    case True
    then show ?thesis using r by (auto simp: started_def owned_def Let_def fine_def)
  next
    case False
    then have "get_adm a s' = get_adm a s \<or> \<not> active (get_adm a s') \<and> \<not> admitted (get_adm a s') \<and> ad_handle (get_adm a s') = None"
      using r(4) by (auto simp: started_def Let_def)
    then show ?thesis using r(1-3) False
      by (intro exI [of _ e] exI [of _ s'] exI [of _ "get_adm a s'"])
        (auto simp: fine_def r_client_admission_on_timeout_def r_client_admission_deadline_ms_def r_client_admission_cancel_def)
  qed
qed

theorem admission_start_exact_witness:
  "\<exists>e s'. r_client_admission_start (admission_hooks sample_hooks (report_app sample_hooks)) (spot []) (Some 7)
       (Some (r_client_admission_config_defaults\<lparr>ac_bucket_name := Some [98], ac_latency_tracker_name := Some [116]\<rparr>)) 1 7
       (adm_busy r_zero_admission busy_client) = Some (e, s') \<and> sys_ok s' \<and> get_adm 3 s' = r_zero_admission"
proof -
  have c: "client (adm_busy r_zero_admission busy_client) = Some busy_client" by (simp add: adm_busy_def)
  have g: "get_adm 3 (adm_busy r_zero_admission busy_client) = r_zero_admission" by (simp add: adm_busy_def get_adm_def)
  obtain e s' where s': "r_client_admission_start (admission_hooks sample_hooks (report_app sample_hooks)) (spot []) (Some 7)
       (Some (r_client_admission_config_defaults\<lparr>ac_bucket_name := Some [98], ac_latency_tracker_name := Some [116]\<rparr>)) 1 7
       (adm_busy r_zero_admission busy_client) = Some (e, s')" "sys_ok s'"
       "\<forall>a'. a' \<noteq> 7 \<longrightarrow> get_adm a' s' = get_adm a' (adm_busy r_zero_admission busy_client)"
    using admission_start_exact [OF report_app.admission_host adm_busy_ok c] by metis
  then show ?thesis using g by auto
qed



text \<open>
  (C34) A latency is reported at most once, and only for admitted work: a report that succeeds was made
  for a check that was admitted and is no longer active, and from then on, whatever the application
  does with the client, with this storage and with others, every further report for the storage is
  refused without an effect, until the storage is started again.
\<close>

theorem latency_reported_once:
  assumes "keeps_report app a" and "r_client_admission_report_latency (admission_hooks b app) (Some a) v s = Some (RCLIENT_OK, s1)"
    and "adm_reach (admission_hooks b app) H a s1 t"
  shows "admitted (get_adm a s) \<and> \<not> active (get_adm a s) \<and> \<not> latency_reported (get_adm a s)
    \<and> r_client_admission_report_latency (admission_hooks b app) (Some a) v' t = Some (RCLIENT_ERR_CONFIG, t)"
proof -
  have 1: "admitted (get_adm a s) \<and> \<not> active (get_adm a s) \<and> \<not> latency_reported (get_adm a s) \<and> latency_reported (get_adm a s1)"
    using assms(2) by (auto simp: r_client_admission_report_latency_def Let_def bind_eq_Some_conv adm_put split: if_splits)
  have "latency_reported (get_adm a t)" using assms(3) 1
    by (induction rule: adm_reach.induct) (auto intro: adm_step_flag [OF assms(1)])
  then show ?thesis using 1 by (simp add: r_client_admission_report_latency_def Let_def)
qed

definition done_adm :: r_admission_request where
  "done_adm = r_zero_admission\<lparr>admitted := True\<rparr>"

lemma sample_report:
  "\<exists>s1. r_client_admission_report_latency (admission_hooks sample_hooks (report_app sample_hooks)) (Some 7) 25 (adm_busy done_adm sample_client)
     = Some (RCLIENT_OK, s1)"
proof -
  let ?hk = "admission_hooks sample_hooks (report_app sample_hooks)" let ?s = "adm_busy done_adm sample_client"
  let ?g = "ad_guard done_adm"
  let ?r = "\<lparr>rep_latency_tracker_id = latency_tracker_id ?g, rep_observed_latency = 25, rep_ttl_ms = ttl_ms ?g,
    rep_max_samples = max_samples ?g, rep_min_sample_threshold = min_sample_threshold ?g\<rparr>"
  have now: "r_now_ms ?hk s = (of_nat (env (world s)), emit (Ev_Now (of_nat (env (world s)))) s)" for s
    by (cases s) (simp add: r_now_ms_def admission_hooks_def sample_hooks_def on_env_def)
  let ?s1 = "emit (Ev_Now 1000) ?s"
  have rf: "r_dns_maybe_refresh ?hk False ?s = Some (RCLIENT_OK, ?s1)"
    by (simp add: r_dns_maybe_refresh_def now) (simp add: adm_busy_def emit_def sample_client_def)
  have rl: "rand_laws ?hk" using report_app.admission_host by (simp add: host_ok_def)
  obtain uid where id: "r_generate_request_id ?hk ?s1 = (Inr uid, ?s1)"
    by (simp add: r_generate_request_id_def rand_bytes_def admission_hooks_def sample_hooks_def on_env_def)
  let ?s2 = "emit (Ev_Now 1000) ?s1"
  have n2: "r_now_ms ?hk ?s1 = (1000, ?s2)" by (simp add: now emit_def adm_busy_def)
  have c: "client ?s1 = Some sample_client" "client ?s2 = Some sample_client" by (simp_all add: emit_def adm_busy_def)
  have w: "list_all wf_report [?r]" by (simp add: wf_report_def done_adm_def r_zero_admission_def)
  obtain bytes where bp: "r_build_report_packet ?hk [?r] ?s1 = Some (Inr bytes, ?s2)"
    using report_packet_cookie [OF c(1) _ _ _ rl w _ id n2 c(2), of "replicate 32 5"] by (auto simp: sample_client_def)
  have "h_udp_send ?hk = Some (\<lambda>a bs. on_env (\<lambda>w. (True, w)))" by (simp add: admission_hooks_def sample_hooks_def)
  then have "\<exists>s'. r_client_report_latency ?hk (Some [?r]) 1 ?s = Some (RCLIENT_OK, s')"
    using rf bp c by (simp add: r_client_report_latency_def) (simp add: sample_client_def udp_send_def on_env_def)
  then show ?thesis by (auto simp: r_client_admission_report_latency_def Let_def get_adm_def)
    (auto simp: adm_busy_def done_adm_def r_zero_admission_def)
qed

theorem latency_reported_once_witness:
  "\<exists>s1. r_client_admission_report_latency (admission_hooks sample_hooks (report_app sample_hooks)) (Some 7) 25 (adm_busy done_adm sample_client)
       = Some (RCLIENT_OK, s1)
     \<and> r_client_admission_report_latency (admission_hooks sample_hooks (report_app sample_hooks)) (Some 7) 26 s1 = Some (RCLIENT_ERR_CONFIG, s1)"
proof -
  obtain s1 where s1: "r_client_admission_report_latency (admission_hooks sample_hooks (report_app sample_hooks)) (Some 7) 25 (adm_busy done_adm sample_client)
     = Some (RCLIENT_OK, s1)" using sample_report by blast
  from latency_reported_once [OF report_app_flag this adm_reach.here] s1 show ?thesis by blast
qed

end
