(* ===== verification/Steering.thy ===== *)
theory Steering
  imports Policy
begin

text \<open>
  Source-port steering (\<^verbatim>\<open>src/r_client_steering.c\<close>): the scan of the dynamic port range for a port that
  can be bound.  The bind callback works on a state of its own, which it keeps.
\<close>

definition R_STEERING_PORT_MIN :: u16 where "R_STEERING_PORT_MIN = 49152"
definition R_STEERING_PORT_COUNT :: nat where "R_STEERING_PORT_COUNT = 16384"

datatype r_steering_bind_result = R_STEERING_BIND_ERROR | R_STEERING_BIND_OK | R_STEERING_BIND_OCCUPIED

type_synonym 'b r_steering_try_bind_fn = "u16 \<Rightarrow> 'b \<Rightarrow> r_steering_bind_result \<times> 'b"

definition r_client_next_steering_port :: "u16 \<Rightarrow> u16" where
  "r_client_next_steering_port port =
    (if port < R_STEERING_PORT_MIN \<or> port = of_nat UINT16_MAX then R_STEERING_PORT_MIN else port + 1)"

text \<open>The loop; its first argument is the number of rounds that are left.\<close>

primrec r_steering_loop :: "nat \<Rightarrow> 'b r_steering_try_bind_fn \<Rightarrow> u16 \<Rightarrow> 'b \<Rightarrow> (r_client_error + u16 \<times> u16) \<times> 'b" where
  "r_steering_loop 0 try_bind candidate b = (Inl RCLIENT_ERR_IO, b)"
| "r_steering_loop (Suc n) try_bind candidate b =
    (let (result, b) = try_bind candidate b in
     case result of
       R_STEERING_BIND_OK \<Rightarrow> (Inr (candidate, r_client_next_steering_port candidate), b)
     | R_STEERING_BIND_ERROR \<Rightarrow> (Inl RCLIENT_ERR_IO, b)
     | R_STEERING_BIND_OCCUPIED \<Rightarrow> r_steering_loop n try_bind (r_client_next_steering_port candidate) b)"

text \<open>\<open>outputs\<close> says that both output pointers are given.\<close>

definition r_client_select_steering_port ::
  "u16 \<Rightarrow> 'b r_steering_try_bind_fn option \<Rightarrow> bool \<Rightarrow> 'b \<Rightarrow> (r_client_error + u16 \<times> u16) \<times> 'b" where
  "r_client_select_steering_port first_port try_bind outputs b = (case try_bind of
     None \<Rightarrow> (Inl RCLIENT_ERR_CONFIG, b)
   | Some try_bind \<Rightarrow>
       if \<not> outputs then (Inl RCLIENT_ERR_CONFIG, b)
       else r_steering_loop R_STEERING_PORT_COUNT try_bind
              (if first_port < R_STEERING_PORT_MIN then R_STEERING_PORT_MIN else first_port) b)"

subsection \<open>Facts: the cycle of ports\<close>

lemmas port_defs = R_STEERING_PORT_MIN_def R_STEERING_PORT_COUNT_def UINT16_MAX_def

text \<open>Ports as numbers: offset \<open>k\<close> from the start of the range, modulo its size.\<close>

definition port_offset :: "u16 \<Rightarrow> nat" where
  "port_offset p = unat p - 49152"

lemma port_range: "R_STEERING_PORT_MIN \<le> p \<longleftrightarrow> 49152 \<le> unat p" "unat (p :: u16) < 65536"
  using unat_bound [of p] by (simp_all add: port_defs word_le_nat_alt)

lemma next_port_unat:
  "unat (r_client_next_steering_port p) = (if unat p < 49152 \<or> unat p = 65535 then 49152 else unat p + 1)"
proof -
  have e: "p = of_nat UINT16_MAX \<longleftrightarrow> unat p = 65535" by (simp add: port_defs word_unat_eq_iff)
  have l: "p < R_STEERING_PORT_MIN \<longleftrightarrow> unat p < 49152" by (simp add: port_defs word_less_nat_alt)
  have "unat (p + 1) = unat p + 1" if "unat p \<noteq> 65535"
  proof -
    have "unat p + 1 < 2 ^ 16" using that unat_bound [of p] by simp
    then show ?thesis by (simp add: unat_word_ariths)
  qed
  then show ?thesis unfolding r_client_next_steering_port_def e l by (simp add: R_STEERING_PORT_MIN_def)
qed

lemma next_port_range: "R_STEERING_PORT_MIN \<le> r_client_next_steering_port p"
  using next_port_unat [of p] port_range(1) by auto

lemma next_port_offset:
  assumes "R_STEERING_PORT_MIN \<le> p" shows "port_offset (r_client_next_steering_port p) = (port_offset p + 1) mod 16384"
proof (cases "unat p = 65535")
  case True
  then show ?thesis by (simp add: port_offset_def next_port_unat)
next
  case False
  then have "unat p < 65535" using port_range(2) [of p] by linarith
  then show ?thesis using assms False port_range(1) by (simp add: port_offset_def next_port_unat Suc_diff_le)
qed

lemma iter_port_range:
  assumes "R_STEERING_PORT_MIN \<le> p" shows "R_STEERING_PORT_MIN \<le> (r_client_next_steering_port ^^ k) p"
  using assms next_port_range by (cases k) auto

lemma iter_port_offset:
  assumes "R_STEERING_PORT_MIN \<le> p" shows "port_offset ((r_client_next_steering_port ^^ k) p) = (port_offset p + k) mod 16384"
proof (induction k)
  case 0
  have "port_offset p < 16384" using port_range(2) [of p] by (simp add: port_offset_def)
  then show ?case by simp
next
  case (Suc k)
  then show ?case using next_port_offset [OF iter_port_range [OF assms, of k]] by (simp add: mod_Suc_eq)
qed

lemma port_offset_inj:
  assumes "R_STEERING_PORT_MIN \<le> p" and "R_STEERING_PORT_MIN \<le> q" and "port_offset p = port_offset q" shows "p = q"
  using assms port_range(1) by (simp add: port_offset_def word_unat_eq_iff eq_diff_iff)

definition scan_order :: "u16 \<Rightarrow> u16 list" where
  "scan_order p = map (\<lambda>k. (r_client_next_steering_port ^^ k) p) [0..<R_STEERING_PORT_COUNT]"

lemma mod_shift:
  assumes "(a + i) mod n = (a + j) mod n" and "i < n" and "j < n" shows "i = (j :: nat)"
proof -
  have *: "x = y" if "(a + x) mod n = (a + y) mod n" "x \<le> y" "y < n" for x y :: nat
  proof -
    have "n dvd (a + y) - (a + x)" using that by (intro mod_eq_dvd_iff_nat [THEN iffD1]) simp_all
    then have "n dvd y - x" by simp
    moreover have "y - x < n" using that(3) by simp
    ultimately have "y - x = 0" by (metis dvd_imp_le neq0_conv not_le)
    then show "x = y" using that(2) by simp
  qed
  show ?thesis using *[of i j] *[of j i] assms by (cases "i \<le> j") simp_all
qed

lemma distinct_scan_order:
  assumes "R_STEERING_PORT_MIN \<le> p" shows "distinct (scan_order p)"
proof -
  have "inj_on (\<lambda>k. (r_client_next_steering_port ^^ k) p) {0..<16384}"
  proof (rule inj_onI)
    fix i j assume ij: "i \<in> {0..<16384}" "j \<in> {0..<16384}"
      and e: "(r_client_next_steering_port ^^ i) p = (r_client_next_steering_port ^^ j) p"
    have "(port_offset p + i) mod 16384 = (port_offset p + j) mod 16384" using e iter_port_offset [OF assms] by metis
    then show "i = j" by (rule mod_shift) (use ij in auto)
  qed
  then show ?thesis by (simp add: scan_order_def R_STEERING_PORT_COUNT_def distinct_map)
qed

lemma set_scan_order:
  assumes "R_STEERING_PORT_MIN \<le> p" shows "set (scan_order p) = {R_STEERING_PORT_MIN ..}"
proof (rule card_subset_eq)
  show "set (scan_order p) \<subseteq> {R_STEERING_PORT_MIN ..}" using iter_port_range [OF assms] by (auto simp: scan_order_def)
  have c: "card (set (scan_order p)) = 16384"
    using distinct_card [OF distinct_scan_order [OF assms]] by (simp add: scan_order_def R_STEERING_PORT_COUNT_def)
  have "inj_on port_offset {R_STEERING_PORT_MIN ..}" using port_offset_inj by (auto intro: inj_onI)
  moreover have "port_offset ` {R_STEERING_PORT_MIN ..} \<subseteq> {0..<16384}"
    using port_range by (auto simp: port_offset_def less_diff_conv2)
  ultimately have "card {R_STEERING_PORT_MIN ..} \<le> 16384" using card_inj_on_le [of port_offset _ "{0..<16384 :: nat}"] by auto
  moreover have "card (set (scan_order p)) \<le> card {R_STEERING_PORT_MIN ..}"
    using \<open>set (scan_order p) \<subseteq> {R_STEERING_PORT_MIN ..}\<close> by (intro card_mono) auto
  ultimately show "card (set (scan_order p)) = card {R_STEERING_PORT_MIN ..}" using c by linarith
qed simp

subsection \<open>Facts: the scan\<close>

text \<open>A bind callback that answers from a table and notes the ports it was asked for.\<close>

definition table_bind :: "(u16 \<Rightarrow> r_steering_bind_result) \<Rightarrow> u16 list r_steering_try_bind_fn" where
  "table_bind f p tried = (f p, tried @ [p])"

lemma steering_loop_table:
  "r_steering_loop n (table_bind f) p tried =
    (let ps = map (\<lambda>k. (r_client_next_steering_port ^^ k) p) [0..<n];
         occ = takeWhile (\<lambda>p. f p = R_STEERING_BIND_OCCUPIED) ps
     in case drop (length occ) ps of
          [] \<Rightarrow> (Inl RCLIENT_ERR_IO, tried @ occ)
        | q # _ \<Rightarrow> (if f q = R_STEERING_BIND_OK then Inr (q, r_client_next_steering_port q) else Inl RCLIENT_ERR_IO, tried @ occ @ [q]))"
proof (induction n arbitrary: p tried)
  case 0
  show ?case by simp
next
  case (Suc n)
  have m: "map (\<lambda>k. (r_client_next_steering_port ^^ k) p) [0..<Suc n]
      = p # map (\<lambda>k. (r_client_next_steering_port ^^ k) (r_client_next_steering_port p)) [0..<n]"
    by (simp add: upt_conv_Cons map_Suc_upt [symmetric] funpow_Suc_right del: upt_Suc funpow.simps map_Suc_upt)
  show ?case
  proof (cases "f p")
    case R_STEERING_BIND_OCCUPIED
    then show ?thesis using Suc [of "r_client_next_steering_port p" "tried @ [p]"] unfolding m
      by (simp add: table_bind_def Let_def split: list.splits)
  qed (simp_all add: m table_bind_def del: upt_Suc)
qed

subsection \<open>Properties\<close>



end
