(* ===== verification/Responder.thy ===== *)
theory Responder
  imports Lifecycle
begin

text \<open>
  The test responder of \<^verbatim>\<open>tools/r_test_responder_protocol.c\<close>, the counterpart of the client on the other
  side of the wire: it authenticates a datagram, parses the request in it, and answers with the
  verdict its scenario prescribes.

  \<open>None\<close> is again an access outside an object. The cipher, the random generator behind the nonce
  and the allocator behind the credential parser are parameters, as they are for the client.
  Pointers into the request PDU are offsets into its bytes.
\<close>

definition R_TEST_RESPONDER_LABEL_CAP :: nat where "R_TEST_RESPONDER_LABEL_CAP = 256"
definition R_TEST_RESPONDER_QUOTA_CAP :: nat where "R_TEST_RESPONDER_QUOTA_CAP = 256"

definition R_TEST_RESPONDER_AES_KEY :: "byte list" where
  "R_TEST_RESPONDER_AES_KEY =
     cstr ''rl-aes1qypsqqqqqqqqqqqrqvpsxqcrqvpsxqcrqvpsxqcrqvpsxqcrqvpsxqcrqvpsxqcrqdgrrulcvcn0x5''"

definition R_TEST_RESPONDER_COOKIE_KEY :: "byte list" where
  "R_TEST_RESPONDER_COOKIE_KEY =
     cstr ''rl-cookie1qypqqqqqqqqqqqqzqgpqyqszqgpqyqszqgpqyqszqgpqyqszqgpqyqszqgpqyqszqfgrrulczhg30p''"

datatype r_test_scenario =
    R_TEST_SCENARIO_ALLOW
  | R_TEST_SCENARIO_DENY
  | R_TEST_SCENARIO_GUARD_PASS
  | R_TEST_SCENARIO_GUARD_DENY
  | R_TEST_SCENARIO_QUOTA
  | R_TEST_SCENARIO_DROP
  | R_TEST_SCENARIO_MALFORMED_AUTH
  | R_TEST_SCENARIO_MALFORMED_TRUNCATED
  | R_TEST_SCENARIO_MALFORMED_REQUEST_ID
  | R_TEST_SCENARIO_COUNT_EMPTY
  | R_TEST_SCENARIO_COUNT_SHORT
  | R_TEST_SCENARIO_COUNT_EXTRA

datatype r_test_event_kind =
    R_TEST_EVENT_INPUT_REJECTED
  | R_TEST_EVENT_RATE_REQUEST
  | R_TEST_EVENT_LATENCY_REPORT

record r_test_tracker_observation =
  to_present :: bool
  to_latency_tracker_id :: "byte list"
  to_ttl_ms :: u32
  to_max_samples :: u32
  to_min_sample_threshold :: u32

record r_test_event =
  ev_kind :: r_test_event_kind
  ev_sequence :: u64
  ev_guard_count :: nat
  ev_resource_count :: nat
  ev_report_count :: nat
  ev_tracker :: r_test_tracker_observation
  ev_tracker_matches_guard :: bool
  ev_guard_threshold_ms :: u32
  ev_observed_latency_ms :: u32
  ev_label :: "byte list"
  ev_disposition :: "byte list"

record r_test_quota_entry =
  qe_bucket_id :: "byte list"
  qe_requests :: u64

text \<open>Of the array \<open>quota\<close> the state keeps the \<open>quota_count\<close> entries in use.\<close>

record r_test_responder_state =
  rt_scenario :: r_test_scenario
  rt_auth_type :: r_auth_type
  rt_tenant_key_id :: u64
  rt_secret :: "byte list"
  rt_server_id :: u64
  rt_steering_keep_port :: bool
  rt_allow_count :: u64
  rt_sequence :: u64
  rt_last_guard_latency_tracker_id :: "byte list"
  rt_has_last_guard_latency_tracker_id :: bool
  rt_quota :: "r_test_quota_entry list"

record r_test_parsed_request =
  pr_pdu_type :: u16
  pr_guard_count :: u16
  pr_resource_count :: u16
  pr_report_count :: u16
  pr_guards :: nat
  pr_resources :: nat
  pr_reports :: nat
  pr_label :: "byte list"

definition read_le16 :: "byte list \<Rightarrow> nat \<Rightarrow> u16 option" where
  "read_le16 p i = do {
     b0 \<leftarrow> rd8 p i;
     b1 \<leftarrow> rd8 p (i + 1);
     Some (ucast b0 OR push_bit 8 (ucast b1)) }"

definition read_le32 :: "byte list \<Rightarrow> nat \<Rightarrow> u32 option" where
  "read_le32 p i = do {
     b0 \<leftarrow> rd8 p i;
     b1 \<leftarrow> rd8 p (i + 1);
     b2 \<leftarrow> rd8 p (i + 2);
     b3 \<leftarrow> rd8 p (i + 3);
     Some (ucast b0 OR push_bit 8 (ucast b1) OR push_bit 16 (ucast b2) OR push_bit 24 (ucast b3)) }"

definition write_le16 :: "byte list \<Rightarrow> nat \<Rightarrow> u16 \<Rightarrow> byte list option" where
  "write_le16 p i v = do {
     p \<leftarrow> wr8 p i (ucast (v AND 0xff));
     wr8 p (i + 1) (ucast (drop_bit 8 v AND 0xff)) }"

definition write_le32 :: "byte list \<Rightarrow> nat \<Rightarrow> u32 \<Rightarrow> byte list option" where
  "write_le32 p i v = do {
     p \<leftarrow> wr8 p i (ucast (v AND 0xff));
     p \<leftarrow> wr8 p (i + 1) (ucast (drop_bit 8 v AND 0xff));
     p \<leftarrow> wr8 p (i + 2) (ucast (drop_bit 16 v AND 0xff));
     wr8 p (i + 3) (ucast (drop_bit 24 v AND 0xff)) }"

fun r_test_scenario_name :: "r_test_scenario \<Rightarrow> byte list" where
  "r_test_scenario_name R_TEST_SCENARIO_ALLOW = cstr ''allow''"
| "r_test_scenario_name R_TEST_SCENARIO_DENY = cstr ''deny''"
| "r_test_scenario_name R_TEST_SCENARIO_GUARD_PASS = cstr ''guard-pass''"
| "r_test_scenario_name R_TEST_SCENARIO_GUARD_DENY = cstr ''guard-deny''"
| "r_test_scenario_name R_TEST_SCENARIO_QUOTA = cstr ''quota''"
| "r_test_scenario_name R_TEST_SCENARIO_DROP = cstr ''drop''"
| "r_test_scenario_name R_TEST_SCENARIO_MALFORMED_AUTH = cstr ''malformed-auth''"
| "r_test_scenario_name R_TEST_SCENARIO_MALFORMED_TRUNCATED = cstr ''malformed-truncated''"
| "r_test_scenario_name R_TEST_SCENARIO_MALFORMED_REQUEST_ID = cstr ''malformed-request-id''"
| "r_test_scenario_name R_TEST_SCENARIO_COUNT_EMPTY = cstr ''count-empty''"
| "r_test_scenario_name R_TEST_SCENARIO_COUNT_SHORT = cstr ''count-short''"
| "r_test_scenario_name R_TEST_SCENARIO_COUNT_EXTRA = cstr ''count-extra''"

text \<open>The values from \<open>R_TEST_SCENARIO_ALLOW\<close> to \<open>R_TEST_SCENARIO_COUNT_EXTRA\<close>, in order.\<close>

definition r_test_scenarios :: "r_test_scenario list" where
  "r_test_scenarios =
    [R_TEST_SCENARIO_ALLOW, R_TEST_SCENARIO_DENY, R_TEST_SCENARIO_GUARD_PASS,
     R_TEST_SCENARIO_GUARD_DENY, R_TEST_SCENARIO_QUOTA, R_TEST_SCENARIO_DROP,
     R_TEST_SCENARIO_MALFORMED_AUTH, R_TEST_SCENARIO_MALFORMED_TRUNCATED,
     R_TEST_SCENARIO_MALFORMED_REQUEST_ID, R_TEST_SCENARIO_COUNT_EMPTY,
     R_TEST_SCENARIO_COUNT_SHORT, R_TEST_SCENARIO_COUNT_EXTRA]"

definition r_test_scenario_parse :: "byte list option \<Rightarrow> r_client_error + r_test_scenario" where
  "r_test_scenario_parse name = (case name of
     None \<Rightarrow> Inl RCLIENT_ERR_CONFIG
   | Some n \<Rightarrow>
       (case find (\<lambda>scenario. strcmp_eq n (r_test_scenario_name scenario)) r_test_scenarios of
          None \<Rightarrow> Inl RCLIENT_ERR_CONFIG
        | Some scenario \<Rightarrow> Inr scenario))"

text \<open>The cleared state becomes the initial one; an error leaves the state of the caller alone.\<close>

definition r_test_responder_init ::
  "allocs \<Rightarrow> r_test_scenario \<Rightarrow> byte list option \<Rightarrow> u64 \<Rightarrow> bool \<Rightarrow> u64 \<Rightarrow> r_test_responder_state ret" where
  "r_test_responder_init al scenario auth_key server_id steering_keep_port allow_count =
    (if auth_key = None \<or> server_id = 0 then Some (Inl RCLIENT_ERR_CONFIG)
     else do {
       rc \<leftarrow> r_client_parse_auth_key al auth_key;
       case rc of
         Inl _ \<Rightarrow> Some (Inl RCLIENT_ERR_CONFIG)
       | Inr info \<Rightarrow>
           if ai_secret_len info \<noteq> 32 then Some (Inl RCLIENT_ERR_CONFIG)
           else do {
             secret \<leftarrow> rd_bytes (ai_secret info) 0 32;
             Some (Inr \<lparr>rt_scenario = scenario, rt_auth_type = ai_type info,
               rt_tenant_key_id = ai_key_id info, rt_secret = secret, rt_server_id = server_id,
               rt_steering_keep_port = steering_keep_port, rt_allow_count = allow_count,
               rt_sequence = 0, rt_last_guard_latency_tracker_id = replicate 16 0,
               rt_has_last_guard_latency_tracker_id = False, rt_quota = []\<rparr>) } })"

definition extract_authenticated_pdu ::
  "evp_decrypt \<Rightarrow> r_test_responder_state \<Rightarrow> byte list \<Rightarrow> nat \<Rightarrow> (r_tenant_header \<times> byte list) ret" where
  "extract_authenticated_pdu evp_dec state input input_len = do {
     rc \<leftarrow> r_parse_tenant_header input input_len;
     case rc of
       Inl _ \<Rightarrow> Some (Inl RCLIENT_ERR_AUTH)
     | Inr (tenant, pos) \<Rightarrow>
         if key_id tenant \<noteq> rt_tenant_key_id state then Some (Inl RCLIENT_ERR_AUTH)
         else do {
           rc \<leftarrow> r_parse_auth_tlv_header input input_len pos;
           case rc of
             Inl e \<Rightarrow> Some (Inl e)
           | Inr (ty, auth_size, auth_body, auth_body_len, pdu_pos) \<Rightarrow>
               if rt_auth_type state = R_AUTH_COOKIE then
                 (if ty \<noteq> R_TLV_AUTH_COOKIE \<or> auth_size \<noteq> 36 \<or> auth_body_len \<noteq> 32
                  then Some (Inl RCLIENT_ERR_AUTH)
                  else do {
                    ab \<leftarrow> rd_bytes input auth_body 32;
                    secret \<leftarrow> rd_bytes (rt_secret state) 0 32;
                    if ab \<noteq> secret then Some (Inl RCLIENT_ERR_AUTH)
                    else do {
                      pdu \<leftarrow> rd_bytes input pdu_pos (input_len - pdu_pos);
                      Some (Inr (tenant, pdu)) } })
               else if rt_auth_type state \<noteq> R_AUTH_AES_GCM \<or> ty \<noteq> R_TLV_AUTH_AES \<or> auth_size \<noteq> 32
                 \<or> auth_body_len \<noteq> 28 \<or> input_len \<le> pdu_pos
               then Some (Inl RCLIENT_ERR_AUTH)
               else do {
                 cipher \<leftarrow> rd_bytes input pdu_pos (input_len - pdu_pos);
                 nonce \<leftarrow> rd_bytes input auth_body 12;
                 tag \<leftarrow> rd_bytes input (auth_body + 12) 16;
                 aad \<leftarrow> rd_bytes input 0 (pos + 4 + 12);
                 r \<leftarrow> r_decrypt_pdu_aes_gcm evp_dec cipher (rt_secret state) nonce tag aad
                        (replicate R_MAX_PACKET_SIZE 0) R_MAX_PACKET_SIZE;
                 case r of
                   Inl _ \<Rightarrow> Some (Inl RCLIENT_ERR_AUTH)
                 | Inr (decrypted, decrypted_len) \<Rightarrow> do {
                     pdu \<leftarrow> rd_bytes decrypted 0 decrypted_len;
                     Some (Inr (tenant, pdu)) } } } }"

text \<open>The lengths are unsigned: \<open>body_len - pos\<close> presumes \<open>pos \<le> body_len\<close>.\<close>

definition parse_metrics_label :: "byte list \<Rightarrow> nat \<Rightarrow> nat \<Rightarrow> byte list \<Rightarrow> byte list ret" where
  "parse_metrics_label body body_len pos out =
    (if body_len < pos then None
     else do {
       out \<leftarrow> wr8 out 0 0;
       if pos = body_len then Some (Inr out)
       else if body_len - pos < 6 then Some (Inl RCLIENT_ERR_PROTOCOL)
       else do {
         ty \<leftarrow> read_le16 body pos;
         if ty \<noteq> R_TLV_METRICS_LABEL then Some (Inl RCLIENT_ERR_PROTOCOL)
         else do {
           sz \<leftarrow> read_le16 body (pos + 2);
           ln \<leftarrow> read_le16 body (pos + 4);
           let tlv_size = unat sz;
           let label_len = unat ln;
           if tlv_size < 6 \<or> tlv_size > body_len - pos \<or> pos + tlv_size \<noteq> body_len
             \<or> label_len > tlv_size - 6 \<or> label_len > R_TEST_RESPONDER_LABEL_CAP
           then Some (Inl RCLIENT_ERR_PROTOCOL)
           else do {
             text \<leftarrow> rd_bytes body (pos + 6) label_len;
             out \<leftarrow> wr_bytes out 0 text;
             out \<leftarrow> wr8 out label_len 0;
             Some (Inr out) } } } })"

definition observe_tracker :: "byte list \<Rightarrow> nat \<Rightarrow> r_test_tracker_observation option" where
  "observe_tracker p block = do {
     tid \<leftarrow> rd_bytes p block 16;
     ttl \<leftarrow> read_le32 p (block + 16);
     samples \<leftarrow> read_le32 p (block + 20);
     threshold \<leftarrow> read_le32 p (block + 24);
     Some \<lparr>to_present = True, to_latency_tracker_id = tid, to_ttl_ms = ttl,
           to_max_samples = samples, to_min_sample_threshold = threshold\<rparr> }"

text \<open>The request record starts cleared; \<open>request->body\<close> is the offset \<open>R_PDU_HEADER_LEN\<close>.\<close>

definition cleared_request :: r_test_parsed_request where
  "cleared_request = \<lparr>pr_pdu_type = 0, pr_guard_count = 0, pr_resource_count = 0, pr_report_count = 0,
     pr_guards = 0, pr_resources = 0, pr_reports = 0,
     pr_label = replicate (R_TEST_RESPONDER_LABEL_CAP + 1) 0\<rparr>"

definition parse_request_pdu ::
  "byte list \<Rightarrow> nat \<Rightarrow> r_test_parsed_request \<Rightarrow> r_test_parsed_request ret" where
  "parse_request_pdu pdu pdu_len request =
    (if pdu_len < R_PDU_HEADER_LEN then Some (Inl RCLIENT_ERR_PROTOCOL)
     else do {
       declared \<leftarrow> read_le16 pdu 2;
       let declared_len = unat declared;
       if declared_len \<noteq> pdu_len \<or> declared_len < R_PDU_HEADER_LEN then Some (Inl RCLIENT_ERR_PROTOCOL)
       else do {
         ty \<leftarrow> read_le16 pdu 0;
         let request = request\<lparr>pr_pdu_type := ty\<rparr>;
         let body = R_PDU_HEADER_LEN;
         let body_len = pdu_len - R_PDU_HEADER_LEN;
         if body_len < 4 then Some (Inl RCLIENT_ERR_PROTOCOL)
         else if ty = R_PDU_RATE_REQUEST then do {
           gc \<leftarrow> read_le16 pdu body;
           rc \<leftarrow> read_le16 pdu (body + 2);
           let guard_bytes = unat gc * R_GUARD_BLOCK_WIRE_LEN;
           let resource_bytes = unat rc * R_RESOURCE_BLOCK_WIRE_LEN;
           if guard_bytes > body_len - 4 \<or> resource_bytes > body_len - 4 - guard_bytes
           then Some (Inl RCLIENT_ERR_PROTOCOL)
           else do {
             r \<leftarrow> parse_metrics_label (drop body pdu) body_len (4 + guard_bytes + resource_bytes)
                    (pr_label request);
             case r of
               Inl e \<Rightarrow> Some (Inl e)
             | Inr label \<Rightarrow>
                 Some (Inr (request\<lparr>pr_guard_count := gc, pr_resource_count := rc,
                   pr_guards := body + 4, pr_resources := body + 4 + guard_bytes,
                   pr_label := label\<rparr>)) } }
         else if ty = R_PDU_LATENCY_REPORT then do {
           n \<leftarrow> read_le16 pdu body;
           if unat n * R_SERVICE_LATENCY_BLOCK_WIRE_LEN \<noteq> body_len - 4
           then Some (Inl RCLIENT_ERR_PROTOCOL)
           else Some (Inr (request\<lparr>pr_report_count := n, pr_reports := body + 4\<rparr>)) }
         else Some (Inl RCLIENT_ERR_PROTOCOL) } })"

text \<open>The first entry for the bucket, with the request counted; \<open>None\<close> when there is no entry.\<close>

fun quota_find :: "u64 \<Rightarrow> byte list \<Rightarrow> r_test_quota_entry list \<Rightarrow> (bool \<times> r_test_quota_entry list) option" where
  "quota_find allow bucket [] = None"
| "quota_find allow bucket (e # es) =
    (if qe_bucket_id e = bucket
     then Some (qe_requests e < allow, e\<lparr>qe_requests := qe_requests e + 1\<rparr> # es)
     else map_option (\<lambda>(allowed, es). (allowed, e # es)) (quota_find allow bucket es))"

text \<open>\<open>None\<close> in the first component is the result \<open>-1\<close>: no room for another bucket.\<close>

definition quota_allows ::
  "r_test_responder_state \<Rightarrow> byte list \<Rightarrow> bool option \<times> r_test_responder_state" where
  "quota_allows state bucket =
    (case quota_find (rt_allow_count state) bucket (rt_quota state) of
       Some (allowed, es) \<Rightarrow> (Some allowed, state\<lparr>rt_quota := es\<rparr>)
     | None \<Rightarrow>
         if length (rt_quota state) \<ge> R_TEST_RESPONDER_QUOTA_CAP then (None, state)
         else (Some (rt_allow_count state > 0),
               state\<lparr>rt_quota := rt_quota state @ [\<lparr>qe_bucket_id = bucket, qe_requests = 1\<rparr>]\<rparr>))"

definition response_counts :: "r_test_scenario \<Rightarrow> u16 \<Rightarrow> u16 \<Rightarrow> r_client_error + (u16 \<times> u16)" where
  "response_counts scenario guard_count resource_count =
    (if scenario = R_TEST_SCENARIO_COUNT_EMPTY then Inr (0, 0)
     else if scenario = R_TEST_SCENARIO_COUNT_SHORT then
       (if resource_count > 0 then Inr (guard_count, resource_count - 1)
        else if guard_count > 0 then Inr (guard_count - 1, resource_count)
        else Inr (guard_count, resource_count))
     else if scenario = R_TEST_SCENARIO_COUNT_EXTRA then
       (if resource_count < 0xffff then Inr (guard_count, resource_count + 1)
        else if guard_count < 0xffff then Inr (guard_count + 1, resource_count)
        else Inl RCLIENT_ERR_PROTOCOL)
     else Inr (guard_count, resource_count))"

text \<open>The two loops of \<open>build_response_pdu\<close>, over the indices of the response's blocks.\<close>

fun response_guards ::
  "r_test_scenario \<Rightarrow> byte list \<Rightarrow> r_test_parsed_request \<Rightarrow> nat list \<Rightarrow> byte list \<Rightarrow> nat
     \<Rightarrow> (byte list \<times> nat) option" where
  "response_guards scenario pdu request [] body pos = Some (body, pos)"
| "response_guards scenario pdu request (i # is) body pos = do {
     body \<leftarrow> (if i < unat (pr_guard_count request)
              then do {
                src \<leftarrow> rd_bytes pdu (pr_guards request + i * R_GUARD_BLOCK_WIRE_LEN) R_GUARD_BLOCK_WIRE_LEN;
                wr_bytes body pos src }
              else do {
                body \<leftarrow> wr_bytes body pos (replicate R_GUARD_BLOCK_WIRE_LEN 0);
                write_le32 body (pos + 28) 1 });
     threshold \<leftarrow> read_le32 body (pos + 28);
     let current = (if threshold > 0 then threshold - 1 else 0);
     let current = (if scenario = R_TEST_SCENARIO_GUARD_DENY then threshold else current);
     body \<leftarrow> write_le32 body (pos + 32) current;
     response_guards scenario pdu request is body (pos + R_GUARD_BLOCK_WIRE_LEN) }"

text \<open>The deficit of a refused resource: the tokens it asked for, at least one.\<close>

definition denied_deficit :: "byte list \<Rightarrow> nat \<Rightarrow> u16 option" where
  "denied_deficit pdu source = do {
     deficit \<leftarrow> read_le16 pdu (source + 24);
     Some (if deficit = 0 then 1 else deficit) }"

fun response_resources ::
  "byte list \<Rightarrow> r_test_parsed_request \<Rightarrow> nat list \<Rightarrow> r_test_responder_state \<Rightarrow> byte list \<Rightarrow> nat
     \<Rightarrow> ((r_client_error + (byte list \<times> nat)) \<times> r_test_responder_state) option" where
  "response_resources pdu request [] state body pos = Some (Inr (body, pos), state)"
| "response_resources pdu request (i # is) state body pos = do {
     (r, state) \<leftarrow>
       (if i < unat (pr_resource_count request)
        then do {
          let source = pr_resources request + i * R_RESOURCE_BLOCK_WIRE_LEN;
          src \<leftarrow> rd_bytes pdu source R_RESOURCE_BLOCK_WIRE_LEN;
          body \<leftarrow> wr_bytes body pos src;
          if rt_scenario state = R_TEST_SCENARIO_DENY then do {
            deficit \<leftarrow> denied_deficit pdu source;
            Some (Inr (body, deficit), state) }
          else if rt_scenario state = R_TEST_SCENARIO_QUOTA then do {
            bucket \<leftarrow> rd_bytes pdu source 16;
            (case quota_allows state bucket of
               (None, state) \<Rightarrow> Some (Inl RCLIENT_ERR_NOMEM, state)
             | (Some True, state) \<Rightarrow> Some (Inr (body, 0), state)
             | (Some False, state) \<Rightarrow> do {
                 deficit \<leftarrow> denied_deficit pdu source;
                 Some (Inr (body, deficit), state) }) }
          else Some (Inr (body, 0), state) }
        else do {
          body \<leftarrow> wr_bytes body pos (replicate R_RESOURCE_BLOCK_WIRE_LEN 0);
          Some (Inr (body, 1), state) });
     case r of
       Inl e \<Rightarrow> Some (Inl e, state)
     | Inr (body, deficit) \<Rightarrow> do {
         body \<leftarrow> write_le16 body (pos + 24) deficit;
         body \<leftarrow> write_le16 body (pos + 26) 0;
         response_resources pdu request is state body (pos + R_RESOURCE_BLOCK_WIRE_LEN) } }"

definition build_response_pdu ::
  "r_test_responder_state \<Rightarrow> byte list \<Rightarrow> r_test_parsed_request \<Rightarrow> byte list \<Rightarrow> nat
     \<Rightarrow> ((r_client_error + (byte list \<times> nat)) \<times> r_test_responder_state) option" where
  "build_response_pdu state pdu request out out_cap =
    (case response_counts (rt_scenario state) (pr_guard_count request) (pr_resource_count request) of
       Inl e \<Rightarrow> Some (Inl e, state)
     | Inr (guard_count, resource_count) \<Rightarrow>
         let body_len = 4 + unat guard_count * R_GUARD_BLOCK_WIRE_LEN
               + unat resource_count * R_RESOURCE_BLOCK_WIRE_LEN in
         if body_len > R_MAX_PACKET_SIZE \<or> body_len + R_PDU_HEADER_LEN > out_cap
         then Some (Inl RCLIENT_ERR_PROTOCOL, state)
         else do {
           body \<leftarrow> write_le16 local_buf 0 guard_count;
           body \<leftarrow> write_le16 body 2 resource_count;
           (body, pos) \<leftarrow> response_guards (rt_scenario state) pdu request [0..<unat guard_count] body 4;
           (r, state) \<leftarrow> response_resources pdu request [0..<unat resource_count] state body pos;
           case r of
             Inl e \<Rightarrow> Some (Inl e, state)
           | Inr (body, _) \<Rightarrow> do {
               rc \<leftarrow> r_build_pdu R_PDU_RATE_RESPONSE body body_len out out_cap;
               Some (rc, state) } })"

definition response_tenant :: "r_test_responder_state \<Rightarrow> r_tenant_header \<Rightarrow> bool \<Rightarrow> r_tenant_header" where
  "response_tenant state request_tenant wrong_request_id =
    \<lparr>tlv_type = R_TLV_TENANT, tlv_size = of_nat R_TENANT_TLV_LEN, key_id = rt_server_id state,
     unique_id = (if wrong_request_id
       then (unique_id request_tenant)[0 := unique_id request_tenant ! 0 XOR 0x80]
       else unique_id request_tenant),
     time_stamp = time_stamp request_tenant,
     steering_feedback = (if rt_steering_keep_port state then 1 else 0),
     tenant_mgmt_flag = 0, padding = [0, 0]\<rparr>"

text \<open>On an error the output array keeps what was written to it; its length is not set.\<close>

definition build_authenticated_response ::
  "evp_encrypt \<Rightarrow> byte list option \<Rightarrow> r_test_responder_state \<Rightarrow> r_tenant_header \<Rightarrow> byte list \<Rightarrow> nat
     \<Rightarrow> bool \<Rightarrow> byte list \<Rightarrow> nat \<Rightarrow> ((r_client_error + nat) \<times> byte list) option" where
  "build_authenticated_response evp_enc rand12 state request_tenant pdu pdu_len wrong_request_id out out_cap =
    (if out_cap < R_TENANT_TLV_LEN then Some (Inl RCLIENT_ERR_PROTOCOL, out)
     else do {
       out \<leftarrow> r_tenant_header_write (response_tenant state request_tenant wrong_request_id) out out_cap;
       let pos = R_TENANT_TLV_LEN;
       if rt_auth_type state = R_AUTH_COOKIE then
         (if pos + 36 + pdu_len > out_cap then Some (Inl RCLIENT_ERR_PROTOCOL, out)
          else do {
            out \<leftarrow> write_le16 out pos R_TLV_AUTH_COOKIE;
            out \<leftarrow> write_le16 out (pos + 2) 36;
            secret \<leftarrow> rd_bytes (rt_secret state) 0 32;
            out \<leftarrow> wr_bytes out (pos + 4) secret;
            pb \<leftarrow> rd_bytes pdu 0 pdu_len;
            out \<leftarrow> wr_bytes out (pos + 4 + 32) pb;
            Some (Inr (pos + 4 + 32 + pdu_len), out) })
       else if rt_auth_type state \<noteq> R_AUTH_AES_GCM \<or> pos + 32 + pdu_len > out_cap
       then Some (Inl RCLIENT_ERR_PROTOCOL, out)
       else do {
         out \<leftarrow> write_le16 out pos R_TLV_AUTH_AES;
         out \<leftarrow> write_le16 out (pos + 2) 32;
         pb \<leftarrow> rd_bytes pdu 0 pdu_len;
         aad \<leftarrow> rd_bytes out 0 (pos + 4);
         r \<leftarrow> r_encrypt_pdu_aes_gcm evp_enc rand12 pb (rt_secret state) aad local_buf R_MAX_PACKET_SIZE;
         case r of
           Inl _ \<Rightarrow> Some (Inl RCLIENT_ERR_AUTH, out)
         | Inr (cipher, cipher_len, nonce, tag) \<Rightarrow> do {
             nb \<leftarrow> rd_bytes nonce 0 12;
             out \<leftarrow> wr_bytes out (pos + 4) nb;
             tb \<leftarrow> rd_bytes tag 0 16;
             out \<leftarrow> wr_bytes out (pos + 4 + 12) tb;
             cb \<leftarrow> rd_bytes cipher 0 cipher_len;
             out \<leftarrow> wr_bytes out (pos + 4 + 12 + 16) cb;
             Some (Inr (pos + 4 + 12 + 16 + cipher_len), out) } } })"

text \<open>What the caller of the responder gets back through its pointers.\<close>

record r_test_io =
  io_output :: "byte list"
  io_output_len :: nat
  io_send_response :: bool
  io_event :: r_test_event

definition cleared_event :: r_test_event where
  "cleared_event = \<lparr>ev_kind = R_TEST_EVENT_INPUT_REJECTED, ev_sequence = 0, ev_guard_count = 0,
     ev_resource_count = 0, ev_report_count = 0,
     ev_tracker = \<lparr>to_present = False, to_latency_tracker_id = replicate 16 0, to_ttl_ms = 0,
       to_max_samples = 0, to_min_sample_threshold = 0\<rparr>,
     ev_tracker_matches_guard = False, ev_guard_threshold_ms = 0, ev_observed_latency_ms = 0,
     ev_label = replicate (R_TEST_RESPONDER_LABEL_CAP + 1) 0, ev_disposition = []\<rparr>"

definition observe_report ::
  "r_test_responder_state \<Rightarrow> byte list \<Rightarrow> r_test_parsed_request \<Rightarrow> r_test_event \<Rightarrow> r_test_event option" where
  "observe_report state pdu request event = do {
     let event = event\<lparr>ev_kind := R_TEST_EVENT_LATENCY_REPORT,
                       ev_report_count := unat (pr_report_count request)\<rparr>;
     event \<leftarrow> (if pr_report_count request > 0 then do {
         tracker \<leftarrow> observe_tracker pdu (pr_reports request);
         observed \<leftarrow> read_le32 pdu (pr_reports request + 28);
         same \<leftarrow> (if rt_has_last_guard_latency_tracker_id state then do {
             tid \<leftarrow> rd_bytes pdu (pr_reports request) 16;
             Some (tid = rt_last_guard_latency_tracker_id state) }
           else Some False);
         Some (event\<lparr>ev_tracker := tracker, ev_observed_latency_ms := observed,
                     ev_tracker_matches_guard := same\<rparr>) }
       else Some event);
     Some (event\<lparr>ev_disposition := cstr ''observed''\<rparr>) }"

definition observe_request ::
  "r_test_responder_state \<Rightarrow> byte list \<Rightarrow> r_test_parsed_request \<Rightarrow> r_test_event
     \<Rightarrow> (r_test_event \<times> r_test_responder_state) option" where
  "observe_request state pdu request event = do {
     let event = event\<lparr>ev_kind := R_TEST_EVENT_RATE_REQUEST,
                       ev_guard_count := unat (pr_guard_count request),
                       ev_resource_count := unat (pr_resource_count request)\<rparr>;
     let state = state\<lparr>rt_has_last_guard_latency_tracker_id := False\<rparr>;
     (event, state) \<leftarrow> (if pr_guard_count request > 0 then do {
         tracker \<leftarrow> observe_tracker pdu (pr_guards request);
         threshold \<leftarrow> read_le32 pdu (pr_guards request + 28);
         tid \<leftarrow> rd_bytes pdu (pr_guards request) 16;
         Some (event\<lparr>ev_tracker := tracker, ev_guard_threshold_ms := threshold\<rparr>,
               state\<lparr>rt_last_guard_latency_tracker_id := tid,
                     rt_has_last_guard_latency_tracker_id := True\<rparr>) }
       else Some (event, state));
     Some (event\<lparr>ev_label := pr_label request\<rparr>, state) }"

text \<open>The last step: the scenarios that spoil the finished response.\<close>

definition spoil_response ::
  "r_test_responder_state \<Rightarrow> r_test_io \<Rightarrow> ((r_client_error + unit) \<times> r_test_io) option" where
  "spoil_response state io =
    (if rt_scenario state = R_TEST_SCENARIO_MALFORMED_AUTH then
       (let auth_offset = R_TENANT_TLV_LEN + 4;
            corrupt_offset = (if rt_auth_type state = R_AUTH_AES_GCM then auth_offset + 12 else auth_offset) in
        if corrupt_offset \<ge> io_output_len io then Some (Inl RCLIENT_ERR_PROTOCOL, io)
        else do {
          b \<leftarrow> rd8 (io_output io) corrupt_offset;
          out \<leftarrow> wr8 (io_output io) corrupt_offset (b XOR 0x01);
          Some (Inr (), io\<lparr>io_output := out, io_send_response := True,
            io_event := (io_event io)\<lparr>ev_disposition := cstr ''malformed-auth''\<rparr>\<rparr>) })
     else if rt_scenario state = R_TEST_SCENARIO_MALFORMED_TRUNCATED then
       (if io_output_len io = 0 then Some (Inl RCLIENT_ERR_PROTOCOL, io)
        else Some (Inr (), io\<lparr>io_output_len := io_output_len io - 1, io_send_response := True,
          io_event := (io_event io)\<lparr>ev_disposition := cstr ''malformed-truncated''\<rparr>\<rparr>))
     else if rt_scenario state = R_TEST_SCENARIO_MALFORMED_REQUEST_ID then
       Some (Inr (), io\<lparr>io_send_response := True,
          io_event := (io_event io)\<lparr>ev_disposition := cstr ''malformed-request-id''\<rparr>\<rparr>)
     else Some (Inr (), io\<lparr>io_send_response := True,
          io_event := (io_event io)\<lparr>ev_disposition := r_test_scenario_name (rt_scenario state)\<rparr>\<rparr>))"

text \<open>The second half of \<open>r_test_responder_process\<close>: answer an accepted rate request.\<close>

definition answer_request ::
  "evp_encrypt \<Rightarrow> byte list option \<Rightarrow> r_test_responder_state \<Rightarrow> r_tenant_header \<Rightarrow> byte list
     \<Rightarrow> r_test_parsed_request \<Rightarrow> r_test_io \<Rightarrow> nat
     \<Rightarrow> ((r_client_error + unit) \<times> r_test_responder_state \<times> r_test_io) option" where
  "answer_request evp_enc rand12 state tenant pdu request io output_cap = do {
     (rc, state) \<leftarrow> build_response_pdu state pdu request local_buf R_MAX_PACKET_SIZE;
     case rc of
       Inl e \<Rightarrow> Some (Inl e, state, io)
     | Inr (response_pdu, response_pdu_len) \<Rightarrow> do {
         (rc, out) \<leftarrow> build_authenticated_response evp_enc rand12 state tenant
           response_pdu response_pdu_len
           (rt_scenario state = R_TEST_SCENARIO_MALFORMED_REQUEST_ID) (io_output io) output_cap;
         let io = io\<lparr>io_output := out\<rparr>;
         case rc of
           Inl e \<Rightarrow> Some (Inl e, state, io)
         | Inr n \<Rightarrow> do {
             (rc, io) \<leftarrow> spoil_response state (io\<lparr>io_output_len := n\<rparr>);
             Some (rc, state, io) } } }"

definition r_test_responder_process ::
  "evp_encrypt \<Rightarrow> evp_decrypt \<Rightarrow> byte list option \<Rightarrow> r_test_responder_state \<Rightarrow> byte list option \<Rightarrow> nat
     \<Rightarrow> r_test_io \<Rightarrow> nat \<Rightarrow> ((r_client_error + unit) \<times> r_test_responder_state \<times> r_test_io) option" where
  "r_test_responder_process evp_enc evp_dec rand12 state input input_len io output_cap =
    (case input of
       None \<Rightarrow> Some (Inl RCLIENT_ERR_CONFIG, state, io)
     | Some input \<Rightarrow>
       if input_len = 0 then Some (Inl RCLIENT_ERR_CONFIG, state, io)
       else do {
         let state = state\<lparr>rt_sequence := rt_sequence state + 1\<rparr>;
         let io = io\<lparr>io_event := cleared_event\<lparr>ev_sequence := rt_sequence state,
                                               ev_disposition := cstr ''rejected''\<rparr>,
                     io_output_len := 0, io_send_response := False\<rparr>;
         rc \<leftarrow> extract_authenticated_pdu evp_dec state input input_len;
         case rc of
           Inl e \<Rightarrow> Some (Inl e, state, io)
         | Inr (tenant, pdu) \<Rightarrow> do {
             rc \<leftarrow> parse_request_pdu pdu (length pdu) cleared_request;
             case rc of
               Inl e \<Rightarrow> Some (Inl e, state, io)
             | Inr request \<Rightarrow>
               if pr_pdu_type request = R_PDU_LATENCY_REPORT then do {
                 event \<leftarrow> observe_report state pdu request (io_event io);
                 Some (Inr (), state, io\<lparr>io_event := event\<rparr>) }
               else do {
                 (event, state) \<leftarrow> observe_request state pdu request (io_event io);
                 let io = io\<lparr>io_event := event\<rparr>;
                 if rt_scenario state = R_TEST_SCENARIO_DROP then
                   Some (Inr (), state,
                     io\<lparr>io_event := (io_event io)\<lparr>ev_disposition := cstr ''dropped''\<rparr>\<rparr>)
                 else answer_request evp_enc rand12 state tenant pdu request io output_cap } } })"

subsection \<open>Facts: integers, names and quotas\<close>

lemma read_le_eq: "read_le16 = r_le16" "read_le32 = r_le32"
  by (simp_all add: fun_eq_iff read_le16_def r_le16_def read_le32_def r_le32_def)

lemma write_le_eq: "write_le16 p i v = wr_bytes p i (le_bytes 2 v)" "write_le32 p i u = wr_bytes p i (le_bytes 4 u)"
  by (simp_all add: write_le16_def write_le32_def le_bytes_2 le_bytes_4 wr_bytes_seq wr_bytes_seq_last)

lemma set_r_test_scenarios: "scenario \<in> set r_test_scenarios"
  by (cases scenario) (simp_all add: r_test_scenarios_def)

definition quota_count_of :: "r_test_quota_entry list \<Rightarrow> byte list \<Rightarrow> u64 option" where
  "quota_count_of es b = map_of (map (\<lambda>e. (qe_bucket_id e, qe_requests e)) es) b"

lemma quota_find_None: "quota_find allow b es = None \<longleftrightarrow> quota_count_of es b = None"
  by (induction es) (auto simp: quota_count_of_def)

lemma quota_find_Some:
  "quota_find allow b es = Some (ok, es') \<Longrightarrow> \<exists>n. quota_count_of es b = Some n \<and> ok = (n < allow)
     \<and> quota_count_of es' = (quota_count_of es)(b \<mapsto> n + 1)
     \<and> map qe_bucket_id es' = map qe_bucket_id es"
proof (induction es arbitrary: es')
  case (Cons e es)
  then show ?case
    by (cases "qe_bucket_id e = b") (fastforce simp: quota_count_of_def fun_eq_iff)+
qed simp

definition quota_view :: "r_test_responder_state \<Rightarrow> byte list \<Rightarrow> u64" where
  "quota_view st b = (case quota_count_of (rt_quota st) b of None \<Rightarrow> 0 | Some n \<Rightarrow> n)"

lemma quota_count_of_snoc:
  "quota_count_of es b = None \<Longrightarrow>
    quota_count_of (es @ [\<lparr>qe_bucket_id = b, qe_requests = n\<rparr>]) = (quota_count_of es)(b \<mapsto> n)"
  by (auto simp: quota_count_of_def fun_eq_iff map_add_def split: option.splits)

lemma quota_count_None: "quota_count_of es b = None \<longleftrightarrow> b \<notin> set (map qe_bucket_id es)"
  by (simp add: quota_count_of_def map_of_eq_None_iff image_image)

lemma quota_allows_view:
  assumes "quota_allows st b = (Some ok, st')"
  shows "ok = (quota_view st b < rt_allow_count st)
    \<and> quota_view st' = (quota_view st)(b := quota_view st b + 1)
    \<and> st' = st\<lparr>rt_quota := rt_quota st'\<rparr>
    \<and> map qe_bucket_id (rt_quota st') =
        (if b \<in> set (map qe_bucket_id (rt_quota st)) then map qe_bucket_id (rt_quota st)
         else map qe_bucket_id (rt_quota st) @ [b])"
proof (cases "quota_find (rt_allow_count st) b (rt_quota st)")
  case None
  then have n: "quota_count_of (rt_quota st) b = None" by (simp add: quota_find_None)
  then have "b \<notin> set (map qe_bucket_id (rt_quota st))" by (rule quota_count_None [THEN iffD1])
  then show ?thesis using assms None n
    by (auto simp: quota_allows_def quota_view_def fun_eq_iff quota_count_of_snoc split: if_splits)
next
  case (Some r)
  obtain ok' es' where r: "r = (ok', es')" by (cases r)
  from quota_find_Some [OF Some [unfolded r]] obtain n where
    n: "quota_count_of (rt_quota st) b = Some n" "ok' = (n < rt_allow_count st)"
      "quota_count_of es' = (quota_count_of (rt_quota st))(b \<mapsto> n + 1)"
      "map qe_bucket_id es' = map qe_bucket_id (rt_quota st)" by blast
  have "b \<in> set (map qe_bucket_id (rt_quota st))" using n(1) quota_count_None [THEN iffD2] by (metis option.distinct(1))
  moreover have "ok = ok'" "st' = st\<lparr>rt_quota := es'\<rparr>" using assms by (simp_all add: quota_allows_def Some r)
  moreover have "quota_view (st\<lparr>rt_quota := es'\<rparr>) = (quota_view st)(b := quota_view st b + 1)"
    using n(1) by (simp add: fun_eq_iff quota_view_def n(3))
  ultimately show ?thesis using n(1,2,4) by (simp add: quota_view_def)
qed

lemma quota_allows_full:
  "quota_allows st b = (None, st') \<longleftrightarrow> st' = st \<and> b \<notin> set (map qe_bucket_id (rt_quota st))
     \<and> R_TEST_RESPONDER_QUOTA_CAP \<le> length (rt_quota st)"
  using quota_find_None [of "rt_allow_count st" b "rt_quota st"] quota_count_None [of "rt_quota st" b]
  by (auto simp: quota_allows_def split: option.splits if_splits)

subsection \<open>Facts: the blocks of a response\<close>

text \<open>The blocks a response is made from: those of the request, and a filler behind them.\<close>

definition source_guard :: "byte list \<Rightarrow> r_test_parsed_request \<Rightarrow> nat \<Rightarrow> r_guard_block" where
  "source_guard pdu request i =
    (if i < unat (pr_guard_count request)
     then guard_block_of_bytes (case rd_bytes pdu (pr_guards request + i * 36) 36 of None \<Rightarrow> [] | Some src \<Rightarrow> src)
     else \<lparr>gb_latency_tracker_id = replicate 16 0, gb_ttl_ms = 0, gb_max_samples = 0,
           gb_min_sample_threshold = 0, gb_latency_threshold = 1, gb_current_latency = 0\<rparr>)"

definition answer_guard :: "r_test_scenario \<Rightarrow> r_guard_block \<Rightarrow> r_guard_block" where
  "answer_guard scenario b = b\<lparr>gb_current_latency :=
     (if scenario = R_TEST_SCENARIO_GUARD_DENY then gb_latency_threshold b
      else if gb_latency_threshold b > 0 then gb_latency_threshold b - 1 else 0)\<rparr>"

lemma wr_bytes_over:
  assumes "wr_bytes b i xs = Some b'" and "j = i + k" and "k + length ys \<le> length xs"
  shows "wr_bytes b' j ys = wr_bytes b i (take k xs @ ys @ drop (k + length ys) xs)"
proof -
  let ?p = "take i b" let ?s = "drop (i + length xs) b"
  have l: "i + length xs \<le> length b" and b': "b' = ?p @ xs @ ?s"
    using assms(1) by (auto simp: wr_bytes_def split: if_splits)
  have "take j b' = ?p @ take k xs" "drop (j + length ys) b' = drop (k + length ys) xs @ ?s"
    "length b' = length b"
    using l assms(2,3) by (simp_all add: b')
  then show ?thesis using l assms(2,3) by (simp add: wr_bytes_def)
qed

lemma read_over:
  assumes "wr_bytes b i xs = Some b'" and "j = i + k" and "k + n \<le> length xs"
  shows "take n (drop j b') = take n (drop k xs)" and "j + n \<le> length b'"
  using assms by (auto simp: wr_bytes_def split: if_splits)

lemma guard_bytes_current:
  assumes "length src = 36"
  shows "guard_block_bytes ((guard_block_of_bytes src)\<lparr>gb_current_latency := v\<rparr>) = take 32 src @ le_bytes 4 v"
proof -
  let ?e = "guard_block_bytes (guard_block_of_bytes src)"
  have "?e = src" using assms by (rule guard_wire.enc_dec)
  moreover have "guard_block_bytes ((guard_block_of_bytes src)\<lparr>gb_current_latency := v\<rparr>)
      = take 32 ?e @ le_bytes 4 v"
    using assms by (simp add: guard_block_bytes_def guard_block_of_bytes_def)
  ultimately show ?thesis by simp
qed

lemma filler_guard_bytes:
  "guard_block_bytes \<lparr>gb_latency_tracker_id = replicate 16 0, gb_ttl_ms = 0, gb_max_samples = 0,
     gb_min_sample_threshold = 0, gb_latency_threshold = 1, gb_current_latency = 0\<rparr>
   = replicate 28 0 @ le_bytes 4 (1 :: u32) @ replicate 4 0"
  by (simp add: guard_block_bytes_def le_bytes_zero replicate_add [symmetric])

lemma filler_guard_write:
  "(wr_bytes body pos (replicate 36 0) \<bind> (\<lambda>body. write_le32 body (pos + 28) 1))
    = wr_bytes body pos (replicate 28 0 @ le_bytes 4 (1 :: u32) @ replicate 4 0)"
proof (cases "wr_bytes body pos (replicate 36 0)")
  case None
  then have "wr_bytes body pos (replicate 28 0 @ le_bytes 4 (1 :: u32) @ replicate 4 0) = None"
    by (simp add: wr_bytes_eq_None_iff)
  then show ?thesis using None by simp
next
  case (Some b)
  then show ?thesis using wr_bytes_over [OF Some, of "pos + 28" 28 "le_bytes 4 (1 :: u32)"]
    by (simp add: write_le_eq)
qed

lemma response_guards_step:
  assumes "length (gb_latency_tracker_id (answer_guard scenario (source_guard pdu request i))) = 16"
  shows "response_guards scenario pdu request (i # is) body pos =
    (wr_bytes body pos (guard_block_bytes (answer_guard scenario (source_guard pdu request i))) \<bind>
      (\<lambda>body. response_guards scenario pdu request is body (pos + 36)))"
proof -
  define src where "src = guard_block_bytes (source_guard pdu request i)"
  have v: "length (gb_latency_tracker_id (source_guard pdu request i)) = 16"
    using assms by (simp add: answer_guard_def)
  have ls: "length src = 36" unfolding src_def using v by (rule guard_wire.length_enc)
  have ds: "guard_block_of_bytes src = source_guard pdu request i" unfolding src_def using v by (rule guard_wire.dec_enc)
  have first: "(if i < unat (pr_guard_count request)
      then do { s \<leftarrow> rd_bytes pdu (pr_guards request + i * 36) 36; wr_bytes body pos s }
      else do { body \<leftarrow> wr_bytes body pos (replicate 36 0); write_le32 body (pos + 28) 1 })
    = wr_bytes body pos src"
  proof (cases "i < unat (pr_guard_count request)")
    case True
    have "rd_bytes pdu (pr_guards request + i * 36) 36 = Some src"
    proof (cases "rd_bytes pdu (pr_guards request + i * 36) 36")
      case None
      then show ?thesis using v True by (simp add: source_guard_def guard_block_of_bytes_def)
    next
      case (Some s)
      then show ?thesis using True rd_bytes_len [OF Some]
        by (simp add: src_def source_guard_def guard_wire.enc_dec)
    qed
    then show ?thesis using True by simp
  qed (simp add: filler_guard_write src_def source_guard_def filler_guard_bytes)
  define thr where "thr = gb_latency_threshold (source_guard pdu request i)"
  define cur where "cur = (if scenario = R_TEST_SCENARIO_GUARD_DENY then thr else if thr > 0 then thr - 1 else 0)"
  have ans: "guard_block_bytes (answer_guard scenario (source_guard pdu request i)) = take 32 src @ le_bytes 4 cur"
    unfolding answer_guard_def thr_def [symmetric] cur_def [symmetric]
    using guard_bytes_current [OF ls, of cur] by (simp only: ds)
  have thr: "thr = le_word (take 4 (drop 28 src))"
    using arg_cong [OF ds, of gb_latency_threshold] by (simp add: guard_block_of_bytes_def thr_def)
  show ?thesis
  proof (cases "wr_bytes body pos src")
    case None
    then have "wr_bytes body pos (take 32 src @ le_bytes 4 cur) = None" using ls by (simp add: wr_bytes_eq_None_iff)
    then show ?thesis unfolding response_guards.simps wire_lens first by (simp add: ans None Let_def)
  next
    case (Some b)
    have "read_le32 b (pos + 28) = Some thr"
      using read_over [OF Some, of "pos + 28" 28 4] ls thr by (simp add: read_le_eq r_le32_eq)
    moreover have "write_le32 b (pos + 32) cur = wr_bytes body pos (take 32 src @ le_bytes 4 cur)"
      using wr_bytes_over [OF Some, of "pos + 32" 32 "le_bytes 4 cur"] ls by (simp add: write_le_eq)
    ultimately show ?thesis unfolding response_guards.simps wire_lens first
      by (simp add: ans Some Let_def cur_def [symmetric] del: if_split)
  qed
qed

lemma response_guards_eq:
  assumes "list_all (\<lambda>i. length (gb_latency_tracker_id (source_guard pdu request i)) = 16) is" "pos \<le> length body"
  shows "response_guards scenario pdu request is body pos =
    map_option (\<lambda>b. (b, pos + length is * 36))
      (wr_bytes body pos (guard_wire.enc_array (map (\<lambda>i. answer_guard scenario (source_guard pdu request i)) is)))"
  by (rule guard_wire.write_array)
    (use assms in \<open>simp_all add: response_guards_step answer_guard_def del: response_guards.simps(2)\<close>)

definition source_resource :: "byte list \<Rightarrow> r_test_parsed_request \<Rightarrow> nat \<Rightarrow> r_resource_block option" where
  "source_resource pdu request i =
    (if i < unat (pr_resource_count request)
     then Some (resource_block_of_bytes (take 28 (drop (pr_resources request + i * 28) pdu)))
     else None)"

definition resource_or_filler :: "r_resource_block option \<Rightarrow> r_resource_block" where
  "resource_or_filler b = (case b of Some b \<Rightarrow> b
     | None \<Rightarrow> \<lparr>rb_bucket_id = replicate 16 0, rb_window_size_ms = 0, rb_rate_limit = 0,
               rb_tokens_requested = 0, rb_padding = 0\<rparr>)"

definition refused :: "r_resource_block \<Rightarrow> u16" where
  "refused b = (if rb_tokens_requested b = 0 then 1 else rb_tokens_requested b)"

text \<open>The deficit a scenario gives a resource; \<open>None\<close> when the quota table is full.\<close>

definition resource_verdict ::
  "r_test_responder_state \<Rightarrow> r_resource_block option \<Rightarrow> u16 option \<times> r_test_responder_state" where
  "resource_verdict st b = (case b of
     None \<Rightarrow> (Some 1, st)
   | Some b \<Rightarrow>
       if rt_scenario st = R_TEST_SCENARIO_DENY then (Some (refused b), st)
       else if rt_scenario st = R_TEST_SCENARIO_QUOTA then
         (case quota_allows st (rb_bucket_id b) of
            (None, st) \<Rightarrow> (None, st)
          | (Some ok, st) \<Rightarrow> (Some (if ok then 0 else refused b), st))
       else (Some 0, st))"

definition answer_resource :: "r_resource_block option \<Rightarrow> u16 \<Rightarrow> r_resource_block" where
  "answer_resource b d = (resource_or_filler b)\<lparr>rb_tokens_requested := d, rb_padding := 0\<rparr>"

fun answer_resources ::
  "r_test_responder_state \<Rightarrow> r_resource_block option list \<Rightarrow> r_resource_block list option \<times> r_test_responder_state" where
  "answer_resources st [] = (Some [], st)"
| "answer_resources st (b # bs) = (case resource_verdict st b of
     (None, st) \<Rightarrow> (None, st)
   | (Some d, st) \<Rightarrow> (case answer_resources st bs of
        (None, st) \<Rightarrow> (None, st)
      | (Some as, st) \<Rightarrow> (Some (answer_resource b d # as), st)))"

lemma resource_bytes_deficit:
  assumes "length src = 28"
  shows "resource_block_bytes ((resource_block_of_bytes src)\<lparr>rb_tokens_requested := d, rb_padding := 0\<rparr>)
    = take 24 src @ le_bytes 2 d @ le_bytes 2 (0 :: u16)"
proof -
  let ?e = "resource_block_bytes (resource_block_of_bytes src)"
  have "?e = src" using assms by (rule resource_wire.enc_dec)
  moreover have "resource_block_bytes ((resource_block_of_bytes src)\<lparr>rb_tokens_requested := d, rb_padding := 0\<rparr>)
      = take 24 ?e @ le_bytes 2 d @ le_bytes 2 (0 :: u16)"
    using assms by (simp add: resource_block_bytes_def resource_block_of_bytes_def)
  ultimately show ?thesis by simp
qed

lemma filler_resource: "resource_or_filler None = resource_block_of_bytes (replicate 28 0)"
proof -
  have "resource_block_bytes (resource_or_filler None) = replicate 28 0"
    by (simp add: resource_block_bytes_def resource_or_filler_def le_bytes_zero replicate_add [symmetric])
  then show ?thesis using resource_wire.dec_enc [of "resource_or_filler None"] by (simp add: resource_or_filler_def)
qed

lemma deficit_write:
  assumes "wr_bytes body pos src = Some b" and "length src = 28"
  shows "(write_le16 b (pos + 24) d \<bind> (\<lambda>b. write_le16 b (pos + 26) 0 \<bind> k))
    = (wr_bytes body pos (take 24 src @ le_bytes 2 d @ le_bytes 2 (0 :: u16)) \<bind> k)"
  using wr_bytes_over [OF assms(1), of "pos + 24" 24 "le_bytes 2 d @ le_bytes 2 (0 :: u16)"] assms(2)
  by (simp add: write_le_eq wr_bytes_seq)

lemma denied_deficit_eq:
  assumes "src + 28 \<le> length pdu"
  shows "denied_deficit pdu src = Some (refused (resource_block_of_bytes (take 28 (drop src pdu))))"
  using assms by (simp add: denied_deficit_def read_le_eq r_le16_eq refused_def resource_block_of_bytes_def
      drop_take add.commute min_def)

lemma response_resources_step:
  assumes "i < unat (pr_resource_count request) \<Longrightarrow> pr_resources request + i * 28 + 28 \<le> length pdu"
    and "pos + 28 \<le> length body"
  shows "response_resources pdu request (i # is) st body pos =
    (case resource_verdict st (source_resource pdu request i) of
       (None, st) \<Rightarrow> Some (Inl RCLIENT_ERR_NOMEM, st)
     | (Some d, st) \<Rightarrow>
         wr_bytes body pos (resource_block_bytes (answer_resource (source_resource pdu request i) d)) \<bind>
           (\<lambda>body. response_resources pdu request is st body (pos + 28)))"
proof (cases "i < unat (pr_resource_count request)")
  case False
  obtain b where b: "wr_bytes body pos (replicate 28 0) = Some b" using assms(2) by (simp add: wr_bytes_def)
  show ?thesis using False resource_bytes_deficit [of "replicate 28 0" 1] deficit_write [OF b, of 1]
    by (simp add: resource_verdict_def source_resource_def answer_resource_def filler_resource wire_lens b)
next
  case True
  let ?s = "pr_resources request + i * 28"
  let ?src = "take 28 (drop ?s pdu)"
  have ls: "length ?src = 28" and rd: "rd_bytes pdu ?s 28 = Some ?src"
    using assms(1) [OF True] by (simp_all add: rd_bytes_def)
  have rb: "rd_bytes pdu ?s 16 = Some (rb_bucket_id (resource_block_of_bytes ?src))"
    using assms(1) [OF True] by (simp add: rd_bytes_def resource_block_of_bytes_def)
  obtain b where b: "wr_bytes body pos ?src = Some b" using assms(2) ls by (simp add: wr_bytes_def)
  have dd: "denied_deficit pdu ?s = Some (refused (resource_block_of_bytes ?src))"
    using denied_deficit_eq assms(1) [OF True] by blast
  note w = deficit_write [OF b ls, folded resource_bytes_deficit [OF ls]]
  show ?thesis using True
    by (simp add: resource_verdict_def source_resource_def answer_resource_def resource_or_filler_def
        wire_lens rd rb b dd w Let_def split: option.splits prod.splits bool.splits)
qed

lemma resource_valid:
  assumes "i < unat (pr_resource_count request) \<Longrightarrow> pr_resources request + i * 28 + 28 \<le> length pdu"
  shows "length (rb_bucket_id (answer_resource (source_resource pdu request i) d)) = 16"
  using assms by (cases "i < unat (pr_resource_count request)")
    (simp_all add: answer_resource_def source_resource_def resource_or_filler_def resource_block_of_bytes_def)

lemma response_resources_eq:
  assumes "list_all (\<lambda>i. i < unat (pr_resource_count request) \<longrightarrow> pr_resources request + i * 28 + 28 \<le> length pdu) is"
    and "pos + length is * 28 \<le> length body"
  shows "response_resources pdu request is st body pos =
    (case answer_resources st (map (source_resource pdu request) is) of
       (None, st) \<Rightarrow> Some (Inl RCLIENT_ERR_NOMEM, st)
     | (Some bs, st) \<Rightarrow> map_option (\<lambda>b. (Inr (b, pos + length is * 28), st))
         (wr_bytes body pos (resource_wire.enc_array bs)))"
  using assms
proof (induction "is" arbitrary: st body pos)
  case Nil
  then show ?case by (simp add: resource_wire.enc_array_def wr_bytes_Nil)
next
  case (Cons i "is")
  have inb: "i < unat (pr_resource_count request) \<Longrightarrow> pr_resources request + i * 28 + 28 \<le> length pdu"
    and p: "pos + 28 \<le> length body" using Cons.prems by auto
  obtain v st1 where v: "resource_verdict st (source_resource pdu request i) = (v, st1)" by fastforce
  show ?case
  proof (cases v)
    case None
    then show ?thesis using response_resources_step [OF inb p, of "is" st]
      by (simp add: v del: response_resources.simps(2))
  next
    case (Some d)
    let ?x = "resource_block_bytes (answer_resource (source_resource pdu request i) d)"
    have lx: "length ?x = 28" by (rule resource_wire.length_enc) (rule resource_valid [OF inb])
    obtain b where b: "wr_bytes body pos ?x = Some b" using p lx by (simp add: wr_bytes_def)
    have lb: "pos + 28 + length is * 28 \<le> length b"
      using wr_bytes_length [OF b] Cons.prems(2) by simp
    have app: "wr_bytes body pos (?x @ ys) = wr_bytes b (pos + 28) ys" for ys
      using wr_bytes_append [of body pos ?x ys] b lx by simp
    have "response_resources pdu request (i # is) st body pos = response_resources pdu request is st1 b (pos + 28)"
      using response_resources_step [OF inb p, of "is" st] by (simp add: v Some b del: response_resources.simps(2))
    also have "\<dots> = (case answer_resources st1 (map (source_resource pdu request) is) of
       (None, st) \<Rightarrow> Some (Inl RCLIENT_ERR_NOMEM, st)
     | (Some bs, st) \<Rightarrow> map_option (\<lambda>b. (Inr (b, pos + 28 + length is * 28), st))
         (wr_bytes b (pos + 28) (resource_wire.enc_array bs)))"
      by (rule Cons.IH) (use Cons.prems lb in simp_all)
    finally show ?thesis
      by (simp del: response_resources.simps(2) add: v Some resource_wire.enc_array_def app add.assoc split: prod.splits option.splits)
  qed
qed

lemma answer_resources_length:
  "answer_resources st bs = (Some as, st') \<Longrightarrow> length as = length bs"
  by (induction bs arbitrary: st as) (auto split: prod.splits option.splits)

lemma answer_resources_valid:
  "answer_resources st bs = (Some as, st') \<Longrightarrow> list_all (\<lambda>b. length (rb_bucket_id (resource_or_filler b)) = 16) bs \<Longrightarrow>
     list_all (\<lambda>b. length (rb_bucket_id b) = 16) as"
  by (induction bs arbitrary: st as) (auto simp: answer_resource_def split: prod.splits option.splits)

text \<open>Where the parser has placed the blocks of a request, they are inside the PDU.\<close>

definition blocks_inside :: "byte list \<Rightarrow> r_test_parsed_request \<Rightarrow> bool" where
  "blocks_inside pdu request \<longleftrightarrow>
     pr_guards request + unat (pr_guard_count request) * 36 \<le> length pdu
   \<and> pr_resources request + unat (pr_resource_count request) * 28 \<le> length pdu"

lemma source_guard_valid:
  assumes "blocks_inside pdu request"
  shows "length (gb_latency_tracker_id (source_guard pdu request i)) = 16"
proof (cases "i < unat (pr_guard_count request)")
  case True
  then have "pr_guards request + i * 36 + 36 \<le> length pdu" using assms by (simp add: blocks_inside_def)
  then show ?thesis using True by (simp add: source_guard_def rd_bytes_def guard_block_of_bytes_def)
qed (simp add: source_guard_def)

lemma resource_inside:
  assumes "blocks_inside pdu request" and "i < unat (pr_resource_count request)"
  shows "pr_resources request + i * 28 + 28 \<le> length pdu"
  using assms by (simp add: blocks_inside_def)

lemma source_resource_valid:
  "blocks_inside pdu request \<Longrightarrow> length (rb_bucket_id (resource_or_filler (source_resource pdu request i))) = 16"
  using resource_valid [of i request pdu, OF resource_inside] by (simp add: answer_resource_def)

definition response_guard_blocks :: "r_test_scenario \<Rightarrow> byte list \<Rightarrow> r_test_parsed_request \<Rightarrow> nat \<Rightarrow> r_guard_block list" where
  "response_guard_blocks scenario pdu request n =
     map (\<lambda>i. answer_guard scenario (source_guard pdu request i)) [0..<n]"

lemma response_body_written:
  assumes "list_all (\<lambda>b. length (gb_latency_tracker_id b) = 16) gs" and "list_all (\<lambda>b. length (rb_bucket_id b) = 16) rs"
    and "length gs = unat (g :: u16)" and "length rs = unat (r :: u16)"
    and "wr_bytes local_buf 0 (le_bytes 2 g @ le_bytes 2 r) = Some b0"
    and "wr_bytes b0 4 (guard_wire.enc_array gs) = Some b1"
    and "n = 12 + unat g * 36 + unat r * 28" and "n \<le> 1200" and "length out = 1200"
  shows "\<exists>b2. wr_bytes b1 (4 + unat g * 36) (resource_wire.enc_array rs) = Some b2 \<and>
      r_build_pdu R_PDU_RATE_RESPONSE b2 (4 + unat g * 36 + unat r * 28) out 1200 =
        Some (Inr (pdu_bytes R_PDU_RATE_RESPONSE 0 (response_body_bytes gs rs) @ drop n out, n))"
proof -
  let ?c = "le_bytes 2 g @ le_bytes 2 r" let ?g = "guard_wire.enc_array gs" let ?r = "resource_wire.enc_array rs"
  have leg: "length ?g = unat g * 36" using guard_wire.length_enc_array [OF assms(1)] assms(3) by simp
  have ler: "length ?r = unat r * 28" using resource_wire.length_enc_array [OF assms(2)] assms(4) by simp
  have l1: "length b1 = 1200"
    using wr_bytes_length [OF assms(5)] wr_bytes_length [OF assms(6)] by (simp add: local_buf_def wire_lens)
  obtain b2 where b2: "wr_bytes b1 (4 + unat g * 36) ?r = Some b2" using l1 ler assms(7,8) by (simp add: wr_bytes_def)
  have bb: "response_body_bytes gs rs = (?c @ ?g) @ ?r" using assms(3,4) by (simp add: response_body_bytes_def)
  have "wr_bytes local_buf 0 (?c @ ?g) = Some b1" using wr_bytes_append [of local_buf 0 ?c ?g] assms(5,6) by simp
  then have w: "wr_bytes local_buf 0 (response_body_bytes gs rs) = Some b2"
    unfolding bb using wr_bytes_seq_last [of "4 + unat g * 36" 0 "?c @ ?g" local_buf ?r] b2 leg by simp
  have lb: "length (response_body_bytes gs rs) = n - 8" "length b2 = 1200"
    using length_response_body_bytes [OF assms(1,2)] assms(3,4,7) wr_bytes_length [OF b2] l1 by simp_all
  have "take (n - 8) b2 = response_body_bytes gs rs" using take_wr_bytes_0 [OF w] lb by simp
  then have "r_build_pdu R_PDU_RATE_RESPONSE b2 (n - 8) out 1200 =
      Some (Inr (pdu_bytes R_PDU_RATE_RESPONSE 0 (response_body_bytes gs rs) @ drop n out, n))"
    using build_pdu_eq [of "n - 8" b2 1200 out _ R_PDU_RATE_RESPONSE, OF _ _ refl] lb assms(7-9) by (simp add: add.assoc)
  then show ?thesis using b2 assms(7) by (simp add: add.assoc)
qed

lemma build_response_pdu_eq:
  assumes "blocks_inside pdu request" and "length out = 1200"
    and "response_counts (rt_scenario st) (pr_guard_count request) (pr_resource_count request) = Inr (g, r)"
    and "gs = response_guard_blocks (rt_scenario st) pdu request (unat g)"
    and "n = 12 + unat g * 36 + unat r * 28"
  shows "build_response_pdu st pdu request out 1200 =
    (if n > 1200 then Some (Inl RCLIENT_ERR_PROTOCOL, st)
     else case answer_resources st (map (source_resource pdu request) [0..<unat r]) of
       (None, st) \<Rightarrow> Some (Inl RCLIENT_ERR_NOMEM, st)
     | (Some rs, st) \<Rightarrow>
         Some (Inr (pdu_bytes R_PDU_RATE_RESPONSE 0 (response_body_bytes gs rs) @ drop n out, n), st))"
proof (cases "n > 1200")
  case True
  then show ?thesis using assms(3,5) by (auto simp: build_response_pdu_def wire_lens Let_def)
next
  case False
  let ?bs = "map (source_resource pdu request) [0..<unat r]"
  let ?c = "le_bytes 2 g @ le_bytes 2 r"
  have lg: "length gs = unat g" by (simp add: assms(4) response_guard_blocks_def)
  have vg: "list_all (\<lambda>b. length (gb_latency_tracker_id b) = 16) gs"
    using source_guard_valid [OF assms(1)]
    by (simp add: assms(4) response_guard_blocks_def answer_guard_def list_all_iff)
  have leg: "length (guard_wire.enc_array gs) = unat g * 36"
    using guard_wire.length_enc_array [OF vg] lg by simp
  have ll: "length local_buf = 1200" by (simp add: local_buf_def wire_lens)
  obtain b0 where b0: "wr_bytes local_buf 0 ?c = Some b0" and l0: "length b0 = 1200"
    using ll by (simp add: wr_bytes_def)
  obtain b1 where b1: "wr_bytes b0 4 (guard_wire.enc_array gs) = Some b1" and l1: "length b1 = 1200"
    using l0 leg False assms(5) by (simp add: wr_bytes_def)
  have rg: "response_guards (rt_scenario st) pdu request [0..<unat g] b0 4 = Some (b1, 4 + unat g * 36)"
    using response_guards_eq [of pdu request "[0..<unat g]" 4 b0 "rt_scenario st"] source_guard_valid [OF assms(1)] b1 l0
    by (simp add: list_all_iff assms(4) response_guard_blocks_def)
  have rr: "response_resources pdu request [0..<unat r] st b1 (4 + unat g * 36) =
    (case answer_resources st ?bs of
       (None, st) \<Rightarrow> Some (Inl RCLIENT_ERR_NOMEM, st)
     | (Some bs, st) \<Rightarrow> map_option (\<lambda>b. (Inr (b, 4 + unat g * 36 + unat r * 28), st))
         (wr_bytes b1 (4 + unat g * 36) (resource_wire.enc_array bs)))"
    using response_resources_eq [of request pdu "[0..<unat r]" "4 + unat g * 36" b1 st,
        unfolded length_upt diff_zero] resource_inside [OF assms(1)] l1 False assms(5) by (simp add: list_all_iff)
  have fin: "\<exists>b2. wr_bytes b1 (4 + unat g * 36) (resource_wire.enc_array rs) = Some b2 \<and>
      r_build_pdu R_PDU_RATE_RESPONSE b2 (4 + unat g * 36 + unat r * 28) out 1200 =
        Some (Inr (pdu_bytes R_PDU_RATE_RESPONSE 0 (response_body_bytes gs rs) @ drop n out, n))"
    if a: "answer_resources st ?bs = (Some rs, st')" for rs st'
  proof -
    have "length rs = unat r" using answer_resources_length [OF a] by simp
    moreover have "list_all (\<lambda>b. length (rb_bucket_id b) = 16) rs"
      using answer_resources_valid [OF a] source_resource_valid [OF assms(1)] by (simp add: list_all_iff)
    ultimately show ?thesis using response_body_written [OF vg _ lg _ b0 b1 assms(5) _ assms(2)] False by simp
  qed
  have s2: "(write_le16 local_buf 0 g \<bind> (\<lambda>b. write_le16 b 2 r \<bind> k)) = k b0"
    for k :: "byte list \<Rightarrow> ((r_client_error + (byte list \<times> nat)) \<times> r_test_responder_state) option"
    using b0 by (simp add: write_le_eq wr_bytes_seq)
  show ?thesis unfolding build_response_pdu_def assms(3) wire_lens Let_def
    using False assms(5) fin
    by (auto simp: s2 rg rr split: prod.splits option.splits)
qed

subsection \<open>Facts: reading a request\<close>

lemma parse_metrics_label_total:
  assumes "pos \<le> length body" and "length out = 257"
  shows "\<exists>r. parse_metrics_label body (length body) pos out = Some r \<and> (\<forall>l. r = Inr l \<longrightarrow> length l = 257)"
proof -
  obtain o1 where o1: "wr_bytes out 0 [0] = Some o1" and l1: "length o1 = 257"
    using assms(2) by (simp add: wr_bytes_def)
  have w: "\<exists>o2 o3. rd_bytes body i n = Some (take n (drop i body))
      \<and> wr_bytes o1 0 (take n (drop i body)) = Some o2 \<and> wr_bytes o2 n [0] = Some o3 \<and> length o3 = 257"
    if "n \<le> 256" "i + n \<le> length body" for n i
    using that l1 by (simp add: wr_bytes_def rd_bytes_def)
  show ?thesis
  proof (cases "length body - pos < 6")
    case True
    then show ?thesis using assms o1 l1 by (simp add: parse_metrics_label_def)
  next
    case False
    let ?sz = "unat (le_word (take 2 (drop (pos + 2) body)) :: u16)"
    let ?ln = "unat (le_word (take 2 (drop (pos + 4) body)) :: u16)"
    show ?thesis
    proof (cases "le_word (take 2 (drop pos body)) = R_TLV_METRICS_LABEL \<and> 6 \<le> ?sz \<and> pos + ?sz = length body
        \<and> ?ln \<le> ?sz - 6 \<and> ?ln \<le> 256")
      case True
      have "pos + 6 + ?ln \<le> length body" using True by linarith
      then obtain o2 o3 where "rd_bytes body (pos + 6) ?ln = Some (take ?ln (drop (pos + 6) body))"
        "wr_bytes o1 0 (take ?ln (drop (pos + 6) body)) = Some o2" "wr_bytes o2 ?ln [0] = Some o3" "length o3 = 257"
        using w [of ?ln "pos + 6"] True by blast
      then show ?thesis using True False assms o1
        by (simp add: parse_metrics_label_def read_le_eq r_le16_eq R_TEST_RESPONDER_LABEL_CAP_def Let_def)
    next
      case no: False
      then show ?thesis using False assms o1
        by (auto simp: parse_metrics_label_def read_le_eq r_le16_eq R_TEST_RESPONDER_LABEL_CAP_def Let_def)
    qed
  qed
qed

definition request_ok :: "byte list \<Rightarrow> r_test_parsed_request \<Rightarrow> bool" where
  "request_ok pdu rq \<longleftrightarrow> length (pr_label rq) = 257 \<and>
    (pr_pdu_type rq = R_PDU_LATENCY_REPORT \<and> pr_reports rq + unat (pr_report_count rq) * 32 \<le> length pdu
     \<or> pr_pdu_type rq = R_PDU_RATE_REQUEST \<and> blocks_inside pdu rq)"

lemma parse_request_total:
  "\<exists>r. parse_request_pdu pdu (length pdu) cleared_request = Some r \<and> (\<forall>rq. r = Inr rq \<longrightarrow> request_ok pdu rq)"
proof (cases "12 \<le> length pdu \<and> unat (le_word (take 2 (drop 2 pdu)) :: u16) = length pdu")
  case False
  then show ?thesis by (auto simp: parse_request_pdu_def wire_lens read_le_eq r_le16_eq Let_def)
next
  case True
  let ?ty = "le_word (take 2 pdu) :: u16"
  let ?g = "le_word (take 2 (drop 8 pdu)) :: u16" and ?r = "le_word (take 2 (drop 10 pdu)) :: u16"
  have rd: "read_le16 pdu 2 = Some (le_word (take 2 (drop 2 pdu)))" "read_le16 pdu 0 = Some ?ty"
    "read_le16 pdu 8 = Some ?g" "read_le16 pdu 10 = Some ?r"
    using True by (simp_all add: read_le_eq r_le16_eq)
  have lc: "length (pr_label cleared_request) = 257" by (simp add: cleared_request_def R_TEST_RESPONDER_LABEL_CAP_def)
  consider "?ty = R_PDU_RATE_REQUEST" | "?ty = R_PDU_LATENCY_REPORT" | "?ty \<noteq> R_PDU_RATE_REQUEST" "?ty \<noteq> R_PDU_LATENCY_REPORT"
    by blast
  then show ?thesis
  proof cases
    case 1
    show ?thesis
    proof (cases "12 + unat ?g * 36 + unat ?r * 28 \<le> length pdu")
      case fits: True
      have le: "4 + unat ?g * 36 + unat ?r * 28 \<le> length (drop 8 pdu)" using fits by simp
      obtain rl where rl: "parse_metrics_label (drop 8 pdu) (length (drop 8 pdu)) (4 + unat ?g * 36 + unat ?r * 28)
          (pr_label cleared_request) = Some rl" "\<And>l. rl = Inr l \<Longrightarrow> length l = 257"
        using parse_metrics_label_total [OF le lc] by blast
      have c: "\<not> unat ?g * 36 > length pdu - 8 - 4" "\<not> unat ?r * 28 > length pdu - 8 - 4 - unat ?g * 36" "\<not> length pdu - 8 < 4"
        "\<not> length pdu < 8" using fits by simp_all
      show ?thesis unfolding parse_request_pdu_def wire_lens using True fits c 1 rl
        by (cases rl) (simp_all add: rd Let_def request_ok_def blocks_inside_def)
    next
      case nofit: False
      then have "unat ?g * 36 > length pdu - 8 - 4 \<or> unat ?r * 28 > length pdu - 8 - 4 - unat ?g * 36"
        using True by arith
      then show ?thesis using 1 True by (auto simp: parse_request_pdu_def wire_lens rd Let_def)
    qed
  next
    case 2
    have "R_PDU_LATENCY_REPORT \<noteq> R_PDU_RATE_REQUEST" by (simp add: wire_tags)
    then show ?thesis using 2 True lc by (auto simp: parse_request_pdu_def wire_lens rd Let_def request_ok_def)
  next
    case 3
    then show ?thesis using True by (auto simp: parse_request_pdu_def wire_lens rd Let_def)
  qed
qed

subsection \<open>Facts: authentication in both directions\<close>

definition same_credential :: "r_client \<Rightarrow> r_test_responder_state \<Rightarrow> bool" where
  "same_credential c st \<longleftrightarrow> cl_key_id c = rt_tenant_key_id st \<and>
     (rt_auth_type st = R_AUTH_COOKIE \<and> auth_type c = 1 \<and> cookie c = Some (rt_secret st)
      \<or> rt_auth_type st = R_AUTH_AES_GCM \<and> auth_type c = 2 \<and> aes_key c = Some (rt_secret st))"

text \<open>The responder accepts the same authentication as a client that holds its credential.\<close>

lemma extract_as_client:
  assumes "same_credential c st" and "r_parse_tenant_header input len = Some (Inr (tenant, pos))"
    and "key_id tenant = rt_tenant_key_id st" and "r_extract_pdu_data dec c input len pos R_MAX_PACKET_SIZE = Some r"
  shows "\<exists>e. extract_authenticated_pdu dec st input len =
    Some (case r of Inl _ \<Rightarrow> Inl e | Inr pdu \<Rightarrow> Inr (tenant, pdu))"
proof -
  have "\<exists>rh. r_parse_auth_tlv_header input len pos = Some rh"
    using assms(4) by (cases "r_parse_auth_tlv_header input len pos") (simp_all add: r_extract_pdu_data_def)
  then obtain rh where rh: "r_parse_auth_tlv_header input len pos = Some rh" by blast
  show ?thesis
  proof (cases rh)
    case (Inl e)
    then have "r = Inl e" using assms(4) by (simp add: r_extract_pdu_data_def rh)
    then show ?thesis by (simp add: extract_authenticated_pdu_def assms(2,3) rh Inl)
  next
    case (Inr t)
    obtain ty sz body body_len pp where t: "t = (ty, sz, body, body_len, pp)" by (cases t)
    note u = extract_authenticated_pdu_def assms(2,3) rh Inr t
    note x = assms(4) [unfolded r_extract_pdu_data_def rh Inr t]
    show ?thesis
    proof (cases "rt_auth_type st")
      case R_AUTH_COOKIE
      then have c: "auth_type c = 1" "cookie c = Some (rt_secret st)"
        using assms(1) by (auto simp: same_credential_def)
      show ?thesis
        using x by (auto simp: u c R_AUTH_COOKIE auth_code_simps bind_eq_Some_conv split: if_splits) blast
    next
      case R_AUTH_AES_GCM
      then have c: "auth_type c = 2" "aes_key c = Some (rt_secret st)"
        using assms(1) by (auto simp: same_credential_def)
      have tag: "R_TLV_AUTH_AES \<noteq> R_TLV_AUTH_COOKIE" by (simp add: wire_tags)
      show ?thesis
      proof (cases "ty = R_TLV_AUTH_AES \<and> sz = 32 \<and> body_len = 28 \<and> pp < len")
        case False
        then have "\<exists>e. r = Inl e" using x tag
          by (auto simp: c auth_code_simps Let_def bind_eq_Some_conv wire_lens split: if_splits)
        then show ?thesis using False by (auto simp: u R_AUTH_AES_GCM)
      next
        case True
        then obtain nonce tg ci aad d where "rd_bytes input body 12 = Some nonce" "rd_bytes input (body + 12) 16 = Some tg"
          "rd_bytes input pp (len - pp) = Some ci" "rd_bytes input 0 (pos + 4 + 12) = Some aad"
          "r_decrypt_pdu_aes_gcm dec ci (rt_secret st) nonce tg aad (replicate R_MAX_PACKET_SIZE 0) R_MAX_PACKET_SIZE = Some d"
          using x tag by (auto simp: c auth_code_simps Let_def bind_eq_Some_conv R_MAX_PACKET_SIZE_def)
        then show ?thesis using x tag True
          by (cases d) (auto simp: u c R_AUTH_AES_GCM auth_code_simps Let_def bind_eq_Some_conv R_MAX_PACKET_SIZE_def)
      qed
    qed
  qed
qed

definition peer :: "r_test_responder_state \<Rightarrow> r_client" where
  "peer st = sample_client\<lparr>cl_key_id := rt_tenant_key_id st, auth_type := auth_code (rt_auth_type st),
     cookie := (case rt_auth_type st of R_AUTH_COOKIE \<Rightarrow> Some (rt_secret st) | R_AUTH_AES_GCM \<Rightarrow> None),
     aes_key := (case rt_auth_type st of R_AUTH_COOKIE \<Rightarrow> None | R_AUTH_AES_GCM \<Rightarrow> Some (rt_secret st))\<rparr>"

lemma peer_credential: "same_credential (peer st) st"
  by (cases "rt_auth_type st") (simp_all add: same_credential_def peer_def auth_code_simps)

lemma peer_wf: "length (rt_secret st) = 32 \<Longrightarrow> wf_client (peer st)"
  by (cases "rt_auth_type st") (simp_all add: wf_client_def peer_def)

lemma extract_total:
  assumes "len \<le> length input" and "length (rt_secret st) = 32" and "dec_length dec"
  shows "\<exists>r. extract_authenticated_pdu dec st input len = Some r \<and> (\<forall>tenant pdu. r = Inr (tenant, pdu) \<longrightarrow>
     tenant_ok input len \<and> tenant = tenant_of_bytes input \<and> key_id tenant = rt_tenant_key_id st
   \<and> r_extract_pdu_data dec (peer st) input len (unat (tlv_size tenant)) R_MAX_PACKET_SIZE = Some (Inr pdu))"
proof (cases "tenant_ok input len \<and> key_id (tenant_of_bytes input) = rt_tenant_key_id st")
  case False
  then show ?thesis using assms(1) by (auto simp: extract_authenticated_pdu_def r_parse_tenant_header_eq)
next
  case True
  let ?t = "tenant_of_bytes input"
  have p: "r_parse_tenant_header input len = Some (Inr (?t, unat (tlv_size ?t)))"
    using True assms(1) by (simp add: r_parse_tenant_header_eq)
  obtain r where r: "r_extract_pdu_data dec (peer st) input len (unat (tlv_size ?t)) R_MAX_PACKET_SIZE = Some r"
    using r_extract_authentic [OF assms(1) peer_wf [OF assms(2)] assms(3)] by blast
  obtain e where "extract_authenticated_pdu dec st input len = Some (case r of Inl _ \<Rightarrow> Inl e | Inr pdu \<Rightarrow> Inr (?t, pdu))"
    using extract_as_client [OF peer_credential p _ r] True by blast
  then show ?thesis using True r by (cases r) auto
qed

lemma framed_response_tenant: "length (unique_id t) = 16 \<Longrightarrow> framed (response_tenant st t w)"
  by (simp add: framed_def wf_tenant_def response_tenant_def)

lemma write_framed:
  assumes "framed h" and "40 \<le> cap" and "cap \<le> length out"
  shows "r_tenant_header_write h out cap = Some (tenant_bytes h @ drop 40 out)"
  using assms framed_length [OF assms(1)] by (simp add: framed_def r_tenant_header_write_eq wire_lens wr_bytes_0)

text \<open>The authenticated response by its bytes, for either credential.\<close>

definition sealed ::
  "evp_encrypt \<Rightarrow> byte list option \<Rightarrow> r_test_responder_state \<Rightarrow> r_tenant_header \<Rightarrow> byte list \<Rightarrow> byte list option" where
  "sealed enc rand12 st h pdu = (case rt_auth_type st of
     R_AUTH_COOKIE \<Rightarrow> Some (cookie_packet h (rt_secret st) pdu)
   | R_AUTH_AES_GCM \<Rightarrow> (case rand12 of None \<Rightarrow> None
       | Some nonce \<Rightarrow> aes_packet enc h (rt_secret st) nonce pdu))"

definition seal_overhead :: "r_test_responder_state \<Rightarrow> nat" where
  "seal_overhead st = (case rt_auth_type st of R_AUTH_COOKIE \<Rightarrow> 76 | R_AUTH_AES_GCM \<Rightarrow> 72)"

definition enc_laws :: "evp_encrypt \<Rightarrow> byte list option \<Rightarrow> bool" where
  "enc_laws enc rand12 \<longleftrightarrow> (\<forall>nonce. rand12 = Some nonce \<longrightarrow> length nonce = 12)
     \<and> (\<forall>key nonce aad plain c tag. enc key nonce aad plain = Some (c, tag) \<longrightarrow>
          length c = length plain \<and> length tag = 16)"

lemma respond_cookie:
  assumes "rt_auth_type st = R_AUTH_COOKIE" and "length (rt_secret st) = 32" and "framed h"
    and "h = response_tenant st t w" and "n \<le> length pdu" and "cap \<le> length out" and "76 + n \<le> cap"
  shows "build_authenticated_response enc rand12 st t pdu n w out cap =
    Some (Inr (76 + n), cookie_packet h (rt_secret st) (take n pdu) @ drop (76 + n) out)"
proof -
  let ?t = "tenant_bytes h" let ?tl = "le_bytes 2 R_TLV_AUTH_COOKIE @ le_bytes 2 (36 :: u16)"
  have lt: "length ?t = 40" using assms(3) by (rule framed_length)
  have w: "wr_bytes (?t @ drop 40 out) 40 (?tl @ rt_secret st @ take n pdu)
      = Some ((?t @ ?tl @ rt_secret st @ take n pdu) @ drop (76 + n) out)"
    by (rule wr_extend) (use assms lt in simp_all)
  have rd: "rd_bytes (rt_secret st) 0 32 = Some (rt_secret st)" "rd_bytes pdu 0 n = Some (take n pdu)"
    using assms(2,5) by (simp_all add: rd_bytes_def)
  have "build_authenticated_response enc rand12 st t pdu n w out cap =
    (wr_bytes (?t @ drop 40 out) 40 (?tl @ rt_secret st @ take n pdu) \<bind> (\<lambda>b. Some (Inr (76 + n), b)))"
    using assms(1,2,7) write_framed [OF assms(3) _ assms(6)]
    by (simp add: build_authenticated_response_def wire_lens assms(4) [symmetric] rd write_le_eq wr_bytes_seq)
  then show ?thesis unfolding w by (simp add: cookie_packet_def cookie_header_def)
qed

lemma respond_aes:
  assumes "rt_auth_type st = R_AUTH_AES_GCM" and "framed h" and "enc_laws enc rand12"
    and "h = response_tenant st t w" and "n \<le> length pdu" and "cap \<le> length out" and "72 + n \<le> cap" and "n \<le> 1200"
  shows "build_authenticated_response enc rand12 st t pdu n w out cap =
    Some (case sealed enc rand12 st h (take n pdu) of
        None \<Rightarrow> (Inl RCLIENT_ERR_AUTH, aes_header h @ drop 44 out)
      | Some p \<Rightarrow> (Inr (72 + n), p @ drop (72 + n) out))"
proof -
  let ?t = "tenant_bytes h" let ?tl = "le_bytes 2 R_TLV_AUTH_AES @ le_bytes 2 (32 :: u16)"
  let ?h = "aes_header h" let ?o = "aes_header h @ drop 44 out" let ?p = "take n pdu"
  have lt: "length ?t = 40" using assms(2) by (rule framed_length)
  have lh: "length ?h = 44" using lt by (simp add: aes_header_def)
  have w: "wr_bytes (?t @ drop 40 out) 40 ?tl = Some ?o"
    using wr_extend [of 40 ?t 44 ?tl out] assms(6,7) lt by (simp add: aes_header_def)
  have rd: "rd_bytes pdu 0 n = Some ?p" "rd_bytes ?o 0 44 = Some ?h"
    using assms(5-7) lh by (simp_all add: rd_bytes_def)
  have s2: "(write_le16 (?t @ drop 40 out) 40 R_TLV_AUTH_AES \<bind> (\<lambda>b. write_le16 b 42 32 \<bind> k)) = k ?o"
    for k :: "byte list \<Rightarrow> ((r_client_error + nat) \<times> byte list) option"
    using w by (simp add: write_le_eq wr_bytes_seq)
  note u = build_authenticated_response_def wire_lens assms(1) assms(4) [symmetric]
    write_framed [OF assms(2) _ assms(6)] s2 rd r_encrypt_pdu_aes_gcm_def sealed_def
  show ?thesis
  proof (cases rand12)
    case None
    then show ?thesis using assms(5,7,8) by (simp add: u)
  next
    case (Some nonce)
    have ln: "length nonce = 12" using assms(3) Some by (simp add: enc_laws_def)
    show ?thesis
    proof (cases "enc (rt_secret st) nonce (?h @ nonce) ?p")
      case None
      then show ?thesis using assms(5,7,8) Some by (simp add: u aes_packet_def)
    next
      case e: (Some ct)
      obtain ci tag where ct: "ct = (ci, tag)" by (cases ct)
      have l: "length ci = n" "length tag = 16" using assms(3,5) e ct by (auto simp: enc_laws_def)
      have wc: "wr_bytes local_buf 0 ci = Some (ci @ drop n local_buf)"
        using l assms(8) wr_bytes_0 [of ci local_buf] by (simp add: local_buf_def wire_lens)
      have rds: "rd_bytes nonce 0 12 = Some nonce" "rd_bytes tag 0 16 = Some tag"
        "rd_bytes (ci @ drop n local_buf) 0 n = Some ci" using ln l by (simp_all add: rd_bytes_def)
      have wa: "wr_bytes ?o 44 (nonce @ tag @ ci) = Some ((?h @ nonce @ tag @ ci) @ drop (72 + n) out)"
        by (rule wr_extend) (use lh ln l assms(6,7) in simp_all)
      have "(wr_bytes ?o 44 nonce \<bind> (\<lambda>b. wr_bytes b 56 tag \<bind> (\<lambda>b. wr_bytes b 72 ci
          \<bind> (\<lambda>b. Some (Inr (72 + n), b))))) = Some (Inr (72 + n), (?h @ nonce @ tag @ ci) @ drop (72 + n) out)"
        using wa ln l by (simp add: wr_bytes_seq)
      then show ?thesis using assms(5,7,8) Some e ct l
        by (simp add: u aes_packet_def wc rds)
    qed
  qed
qed

lemma respond_short:
  assumes "framed (response_tenant st t w)" and "cap \<le> length out" and "cap < seal_overhead st + n"
  shows "\<exists>out'. build_authenticated_response enc rand12 st t pdu n w out cap = Some (Inl RCLIENT_ERR_PROTOCOL, out')
    \<and> length out' = length out"
proof (cases "cap < 40")
  case False
  then show ?thesis using write_framed [OF assms(1) _ assms(2)] assms(2,3) framed_length [OF assms(1)]
    by (cases "rt_auth_type st") (auto simp: build_authenticated_response_def wire_lens seal_overhead_def)
qed (simp add: build_authenticated_response_def wire_lens)

lemma sealed_length:
  assumes "sealed enc rand12 st h pdu = Some p" and "framed h" and "enc_laws enc rand12" and "length (rt_secret st) = 32"
  shows "length p = seal_overhead st + length pdu"
  using assms framed_length [OF assms(2)]
  by (auto simp: sealed_def seal_overhead_def cookie_packet_def cookie_header_def aes_packet_def aes_header_def
      enc_laws_def bind_eq_Some_conv split: r_auth_type.splits option.splits)

lemma build_authenticated_response_eq:
  assumes "length (rt_secret st) = 32" and "framed h" and "h = response_tenant st t w" and "enc_laws enc rand12"
    and "n \<le> length pdu" and "n \<le> 1200" and "cap \<le> length out" and "seal_overhead st + n \<le> cap"
  shows "\<exists>out'. length out' = length out \<and> build_authenticated_response enc rand12 st t pdu n w out cap =
    Some (case sealed enc rand12 st h (take n pdu) of
        None \<Rightarrow> (Inl RCLIENT_ERR_AUTH, out')
      | Some p \<Rightarrow> (Inr (seal_overhead st + n), p @ drop (seal_overhead st + n) out))"
proof (cases "rt_auth_type st")
  case R_AUTH_COOKIE
  then show ?thesis using respond_cookie [OF R_AUTH_COOKIE assms(1,2,3,5,7)] assms(8)
    by (auto simp: seal_overhead_def sealed_def)
next
  case R_AUTH_AES_GCM
  have so: "seal_overhead st = 72" using R_AUTH_AES_GCM by (simp add: seal_overhead_def)
  have "length (aes_header h @ drop 44 out) = length out"
    using framed_length [OF assms(2)] assms(7,8) by (simp add: aes_header_def so)
  moreover have "72 + n \<le> cap" using assms(8) by (simp add: so)
  ultimately show ?thesis unfolding so
    using respond_aes [OF R_AUTH_AES_GCM assms(2,4,3,5,7) _ assms(6)] by blast
qed

subsection \<open>Facts: one step of the responder\<close>

definition wf_rt :: "r_test_responder_state \<Rightarrow> bool" where
  "wf_rt st \<longleftrightarrow> length (rt_secret st) = 32 \<and> length (rt_last_guard_latency_tracker_id st) = 16
     \<and> length (rt_quota st) \<le> R_TEST_RESPONDER_QUOTA_CAP \<and> distinct (map qe_bucket_id (rt_quota st))
     \<and> (\<forall>b \<in> set (map qe_bucket_id (rt_quota st)). length b = 16)"

definition only_quota :: "r_test_responder_state \<Rightarrow> r_test_responder_state \<Rightarrow> bool" where
  "only_quota st st' \<longleftrightarrow> (\<exists>q. st' = st\<lparr>rt_quota := q\<rparr>) \<and> (wf_rt st \<longrightarrow> wf_rt st')"

lemma only_quota_refl: "only_quota st st"
  unfolding only_quota_def by (metis r_test_responder_state.surjective r_test_responder_state.update_convs(11))

lemma only_quota_trans: "only_quota a b \<Longrightarrow> only_quota b c \<Longrightarrow> only_quota a c"
  by (auto simp: only_quota_def)

lemma only_quota_fields:
  assumes "only_quota st st'"
  shows "rt_scenario st' = rt_scenario st" "rt_auth_type st' = rt_auth_type st" "rt_secret st' = rt_secret st"
    "rt_server_id st' = rt_server_id st" "rt_steering_keep_port st' = rt_steering_keep_port st"
    "rt_sequence st' = rt_sequence st" "rt_allow_count st' = rt_allow_count st"
    "rt_tenant_key_id st' = rt_tenant_key_id st"
proof -
  obtain q where q: "st' = st\<lparr>rt_quota := q\<rparr>" using assms by (auto simp: only_quota_def)
  show "rt_scenario st' = rt_scenario st" "rt_auth_type st' = rt_auth_type st" "rt_secret st' = rt_secret st"
    "rt_server_id st' = rt_server_id st" "rt_steering_keep_port st' = rt_steering_keep_port st"
    "rt_sequence st' = rt_sequence st" "rt_allow_count st' = rt_allow_count st"
    "rt_tenant_key_id st' = rt_tenant_key_id st" by (simp_all add: q)
qed

lemma quota_allows_only:
  assumes "quota_allows st b = (r, st')" and "length b = 16"
  shows "only_quota st st'"
proof (cases r)
  case None
  then have "st' = st" using assms(1) quota_allows_full by simp
  then show ?thesis by (simp add: only_quota_refl)
next
  case (Some ok)
  let ?ids = "\<lambda>st. map qe_bucket_id (rt_quota st)"
  have v: "st' = st\<lparr>rt_quota := rt_quota st'\<rparr>" "?ids st' = (if b \<in> set (?ids st) then ?ids st else ?ids st @ [b])"
    using quota_allows_view [of st b ok st'] assms(1) Some by blast+
  have "length (rt_quota st') \<le> R_TEST_RESPONDER_QUOTA_CAP" if "length (rt_quota st) \<le> R_TEST_RESPONDER_QUOTA_CAP"
  proof (cases "b \<in> set (?ids st)")
    case True
    then have "length (?ids st') = length (?ids st)" using v(2) by simp
    then show ?thesis using that by simp
  next
    case False
    then have "length (?ids st') = Suc (length (?ids st))" using v(2) by simp
    moreover have "\<not> R_TEST_RESPONDER_QUOTA_CAP \<le> length (rt_quota st)"
      using False quota_allows_full [of st b st] assms(1) Some by (auto simp: quota_allows_def split: option.splits if_splits)
    ultimately show ?thesis by simp
  qed
  moreover have "distinct (?ids st) \<Longrightarrow> distinct (?ids st')" unfolding v(2) by auto
  moreover have "\<forall>x \<in> set (?ids st). length x = 16 \<Longrightarrow> \<forall>x \<in> set (?ids st'). length x = 16"
    unfolding v(2) using assms(2) by auto
  moreover have "rt_secret st' = rt_secret st" "rt_last_guard_latency_tracker_id st' = rt_last_guard_latency_tracker_id st"
    by (subst v(1), simp)+
  ultimately show ?thesis unfolding only_quota_def wf_rt_def using v(1) by auto
qed

lemma resource_verdict_only:
  assumes "resource_verdict st b = (r, st')" and "length (rb_bucket_id (resource_or_filler b)) = 16"
  shows "only_quota st st'"
  using assms quota_allows_only
  by (auto simp: resource_verdict_def resource_or_filler_def only_quota_refl split: option.splits if_splits prod.splits)

lemma answer_resources_only:
  assumes "answer_resources st bs = (r, st')" and "list_all (\<lambda>b. length (rb_bucket_id (resource_or_filler b)) = 16) bs"
  shows "only_quota st st'"
  using assms
proof (induction bs arbitrary: st r st')
  case (Cons b bs)
  obtain v st1 where v: "resource_verdict st b = (v, st1)" by fastforce
  have one: "only_quota st st1" using resource_verdict_only [OF v] Cons.prems(2) by simp
  show ?case
  proof (cases v)
    case None
    then show ?thesis using Cons.prems(1) v one by simp
  next
    case (Some d)
    obtain q st2 where q: "answer_resources st1 bs = (q, st2)" by fastforce
    have "only_quota st1 st2" using Cons.IH [OF q] Cons.prems(2) by simp
    moreover have "st' = st2" using Cons.prems(1) v Some q by (auto split: option.splits)
    ultimately show ?thesis using one only_quota_trans by blast
  qed
qed (simp add: only_quota_refl)

lemma build_response_total:
  assumes "blocks_inside pdu request"
  shows "\<exists>rc st'. build_response_pdu st pdu request local_buf R_MAX_PACKET_SIZE = Some (rc, st') \<and> only_quota st st'
    \<and> (\<forall>p n. rc = Inr (p, n) \<longrightarrow> 12 \<le> n \<and> n \<le> 1200 \<and> length p = 1200)"
proof (cases "response_counts (rt_scenario st) (pr_guard_count request) (pr_resource_count request)")
  case (Inl e)
  then show ?thesis by (simp add: build_response_pdu_def only_quota_refl)
next
  case (Inr c)
  obtain g r where c: "c = (g, r)" by (cases c)
  let ?bs = "map (source_resource pdu request) [0..<unat r]"
  let ?n = "12 + unat g * 36 + unat r * 28"
  have lb: "length local_buf = 1200" by (simp add: local_buf_def wire_lens)
  note e = build_response_pdu_eq [OF assms lb Inr [unfolded c] refl refl]
  obtain q st1 where q: "answer_resources st ?bs = (q, st1)" by fastforce
  have vs: "list_all (\<lambda>b. length (rb_bucket_id (resource_or_filler b)) = 16) ?bs"
    using source_resource_valid [OF assms] by (simp add: list_all_iff)
  have oq: "only_quota st st1" using answer_resources_only [OF q vs] .
  show ?thesis
  proof (cases "?n > 1200")
    case True
    then show ?thesis using e by (simp add: wire_lens only_quota_refl)
  next
    case False
    show ?thesis
    proof (cases q)
      case None
      then show ?thesis using e q False oq by (simp add: wire_lens)
    next
      case (Some rs)
      let ?gs = "response_guard_blocks (rt_scenario st) pdu request (unat g)"
      have "length (response_body_bytes ?gs rs) = 4 + unat g * 36 + unat r * 28"
        using length_response_body_bytes [of ?gs rs] answer_resources_valid [OF q [unfolded Some] vs]
          answer_resources_length [OF q [unfolded Some]] source_guard_valid [OF assms]
        by (simp add: response_guard_blocks_def answer_guard_def list_all_iff)
      then show ?thesis using e q Some False oq lb by (simp add: wire_lens length_pdu_bytes)
    qed
  qed
qed

definition io_ok :: "nat \<Rightarrow> nat \<Rightarrow> r_client_error + unit \<Rightarrow> r_test_io \<Rightarrow> bool" where
  "io_ok room cap rc io \<longleftrightarrow> length (io_output io) = room \<and> io_output_len io \<le> cap
     \<and> (io_send_response io \<longrightarrow> rc = Inr () \<and> 0 < io_output_len io)"

lemma spoil_total:
  assumes "length (io_output io) = room" and "io_output_len io \<le> cap" and "cap \<le> room" and "2 \<le> io_output_len io" and "\<not> io_send_response io"
  shows "\<exists>rc io'. spoil_response st io = Some (rc, io') \<and> io_ok room cap rc io'
    \<and> ev_kind (io_event io') = ev_kind (io_event io)"
proof (cases "rt_scenario st = R_TEST_SCENARIO_MALFORMED_AUTH")
  case True
  let ?k = "if rt_auth_type st = R_AUTH_AES_GCM then 56 else 44"
  show ?thesis
  proof (cases "?k < io_output_len io")
    case small: True
    then have k: "?k < length (io_output io)" using assms(1-3) by simp
    obtain out where out: "wr_bytes (io_output io) ?k [io_output io ! ?k XOR 0x01] = Some out"
      using k by (simp add: wr_bytes_def)
    show ?thesis using True small k out wr_bytes_length [OF out] assms
      by (auto simp: spoil_response_def wire_lens rd8_Some io_ok_def Let_def split: if_splits)
  next
    case False
    then show ?thesis using True assms
      by (cases "rt_auth_type st") (simp_all add: spoil_response_def wire_lens io_ok_def Let_def)
  qed
qed (use assms in \<open>auto simp: spoil_response_def io_ok_def\<close>)

lemma answer_request_total:
  assumes "wf_rt st" and "blocks_inside pdu request" and "length (unique_id tenant) = 16" and "enc_laws enc rand12"
    and "cap \<le> length (io_output io)" and "io_output_len io = 0" and "\<not> io_send_response io"
  shows "\<exists>rc st' io'. answer_request enc rand12 st tenant pdu request io cap = Some (rc, st', io') \<and> only_quota st st'
    \<and> io_ok (length (io_output io)) cap rc io' \<and> ev_kind (io_event io') = ev_kind (io_event io)"
proof -
  obtain rc st1 where b: "build_response_pdu st pdu request local_buf R_MAX_PACKET_SIZE = Some (rc, st1)"
    and oq: "only_quota st st1" and sz: "\<And>p n. rc = Inr (p, n) \<Longrightarrow> 12 \<le> n \<and> n \<le> 1200 \<and> length p = 1200"
    using build_response_total [OF assms(2), of st] by auto
  let ?io = "io_ok (length (io_output io)) cap"
  show ?thesis
  proof (cases rc)
    case (Inl e)
    then show ?thesis using b oq assms(6,7) by (simp add: answer_request_def io_ok_def)
  next
    case (Inr pn)
    obtain p n where pn: "pn = (p, n)" by (cases pn)
    have n: "12 \<le> n" "n \<le> 1200" "length p = 1200" using sz [of p n] Inr pn by simp_all
    define w where "w = (rt_scenario st1 = R_TEST_SCENARIO_MALFORMED_REQUEST_ID)"
    have fr: "framed (response_tenant st1 tenant w)" using assms(3) by (rule framed_response_tenant)
    have sec: "length (rt_secret st1) = 32" using oq assms(1) by (simp add: only_quota_def wf_rt_def)
    note u = answer_request_def b Inr pn w_def [symmetric]
    show ?thesis
    proof (cases "cap < seal_overhead st1 + n")
      case True
      then show ?thesis using respond_short [OF fr assms(5) True, of enc rand12 p] oq assms(6,7)
        by (auto simp: u io_ok_def)
    next
      case False
      then have fit: "seal_overhead st1 + n \<le> cap" by simp
      let ?s = "sealed enc rand12 st1 (response_tenant st1 tenant w) (take n p)"
      obtain out' where o: "length out' = length (io_output io)" "build_authenticated_response enc rand12 st1 tenant p n w (io_output io) cap =
          Some (case ?s of None \<Rightarrow> (Inl RCLIENT_ERR_AUTH, out')
            | Some q \<Rightarrow> (Inr (seal_overhead st1 + n), q @ drop (seal_overhead st1 + n) (io_output io)))"
        using build_authenticated_response_eq [OF sec fr refl assms(4) _ n(2) assms(5) fit, of p] n by auto
      show ?thesis
      proof (cases ?s)
        case None
        then show ?thesis using o oq assms(6,7) by (simp add: u io_ok_def)
      next
        case (Some q)
        have lq: "length q = seal_overhead st1 + n" using sealed_length [OF Some fr assms(4) sec] n by simp
        let ?i = "io\<lparr>io_output := q @ drop (seal_overhead st1 + n) (io_output io), io_output_len := seal_overhead st1 + n\<rparr>"
        have "\<exists>rc io'. spoil_response st1 ?i = Some (rc, io') \<and> ?io rc io' \<and> ev_kind (io_event io') = ev_kind (io_event ?i)"
          by (rule spoil_total) (use lq fit assms(5,7) n in simp_all)
        then show ?thesis using o oq Some by (auto simp: u)
      qed
    qed
  qed
qed

lemma observe_tracker_total:
  assumes "block + 28 \<le> length p"
  shows "\<exists>t. observe_tracker p block = Some t"
  using assms by (simp add: observe_tracker_def read_le_eq r_le32_eq rd_bytes_def)

lemma observe_report_total:
  assumes "pr_reports rq + unat (pr_report_count rq) * 32 \<le> length pdu"
  shows "\<exists>ev'. observe_report st pdu rq ev = Some ev' \<and> ev_kind ev' = R_TEST_EVENT_LATENCY_REPORT"
proof (cases "pr_report_count rq = 0")
  case True
  then show ?thesis by (simp add: observe_report_def Let_def)
next
  case False
  then have "0 < unat (pr_report_count rq)" by (simp add: unat_gt_0)
  then have l: "pr_reports rq + 32 \<le> length pdu" using assms by linarith
  then obtain t where "observe_tracker pdu (pr_reports rq) = Some t"
    using observe_tracker_total [of "pr_reports rq" pdu] by auto
  then show ?thesis using False l
    by (simp add: observe_report_def Let_def read_le_eq r_le32_eq rd_bytes_def word_gt_0)
qed

lemma observe_request_total:
  assumes "blocks_inside pdu rq"
  shows "\<exists>ev' st'. observe_request st pdu rq ev = Some (ev', st') \<and> ev_kind ev' = R_TEST_EVENT_RATE_REQUEST
    \<and> (\<exists>tid has. st' = st\<lparr>rt_last_guard_latency_tracker_id := tid, rt_has_last_guard_latency_tracker_id := has\<rparr>)
    \<and> (wf_rt st \<longrightarrow> wf_rt st')"
proof (cases "pr_guard_count rq = 0")
  case True
  have "\<exists>tid has. st\<lparr>rt_has_last_guard_latency_tracker_id := False\<rparr>
    = st\<lparr>rt_last_guard_latency_tracker_id := tid, rt_has_last_guard_latency_tracker_id := has\<rparr>"
    by (rule exI [of _ "rt_last_guard_latency_tracker_id st"], rule exI [of _ False]) simp
  then show ?thesis using True by (auto simp: observe_request_def Let_def wf_rt_def)
next
  case False
  then have "0 < unat (pr_guard_count rq)" by (simp add: unat_gt_0)
  then have l: "pr_guards rq + 36 \<le> length pdu" using assms unfolding blocks_inside_def by linarith
  then obtain t where t: "observe_tracker pdu (pr_guards rq) = Some t"
    using observe_tracker_total [of "pr_guards rq" pdu] by auto
  have "st\<lparr>rt_has_last_guard_latency_tracker_id := False, rt_last_guard_latency_tracker_id := tid,
        rt_has_last_guard_latency_tracker_id := True\<rparr>
      = st\<lparr>rt_last_guard_latency_tracker_id := tid, rt_has_last_guard_latency_tracker_id := True\<rparr>" for tid by simp
  then show ?thesis using False l t
    by (auto simp: observe_request_def Let_def read_le_eq r_le32_eq rd_bytes_def word_gt_0 wf_rt_def)
qed

text \<open>What an accepted datagram proves about its sender: it holds the credential.\<close>

definition vouched :: "evp_decrypt \<Rightarrow> r_test_responder_state \<Rightarrow> byte list \<Rightarrow> nat \<Rightarrow> bool" where
  "vouched dec st input len \<longleftrightarrow>
     key_id (tenant_of_bytes input) = rt_tenant_key_id st \<and>
     (let pos = unat (tlv_size (tenant_of_bytes input)) in
      rt_auth_type st = R_AUTH_COOKIE \<and> pos + 36 \<le> len \<and> take 32 (drop (pos + 4) input) = rt_secret st
      \<or> rt_auth_type st = R_AUTH_AES_GCM \<and> pos + 32 < len
        \<and> dec (rt_secret st) (take 12 (drop (pos + 4) input)) (take (pos + 16) input) (take 16 (drop (pos + 16) input))
             (take (len - (pos + 32)) (drop (pos + 32) input)) \<noteq> None)"

lemma extract_vouched:
  assumes "len \<le> length input" and "length (rt_secret st) = 32" and "dec_length dec"
  shows "\<exists>r. extract_authenticated_pdu dec st input len = Some r \<and> (\<forall>tenant pdu. r = Inr (tenant, pdu) \<longrightarrow>
     vouched dec st input len \<and> length (unique_id tenant) = 16)"
proof -
  obtain r where r: "extract_authenticated_pdu dec st input len = Some r"
    and ex: "\<And>tenant pdu. r = Inr (tenant, pdu) \<Longrightarrow>
     tenant_ok input len \<and> tenant = tenant_of_bytes input \<and> key_id tenant = rt_tenant_key_id st
   \<and> r_extract_pdu_data dec (peer st) input len (unat (tlv_size tenant)) R_MAX_PACKET_SIZE = Some (Inr pdu)"
    using extract_total [OF assms] by blast
  have "vouched dec st input len \<and> length (unique_id tenant) = 16" if rr: "r = Inr (tenant, pdu)" for tenant pdu
  proof -
    note e = ex [OF rr]
    have "length (unique_id tenant) = 16"
      using e assms(1) by (auto simp: tenant_ok_def tenant_of_bytes_def wire_lens)
    moreover have "vouched dec st input len"
      using r_extract_authentic [OF assms(1) peer_wf [OF assms(2)] assms(3), of "unat (tlv_size tenant)" R_MAX_PACKET_SIZE] e
      by (cases "rt_auth_type st") (auto simp: vouched_def peer_def auth_code_simps Let_def)
    ultimately show ?thesis by simp
  qed
  then show ?thesis using r by blast
qed

lemma wf_rt_sequence: "wf_rt (st\<lparr>rt_sequence := n\<rparr>) = wf_rt st"
  by (simp add: wf_rt_def)

lemma vouched_sequence: "vouched dec (st\<lparr>rt_sequence := n\<rparr>) = vouched dec st"
  by (simp add: vouched_def fun_eq_iff)

lemma only_quota_wf: "only_quota st st' \<Longrightarrow> wf_rt st \<Longrightarrow> wf_rt st'"
  by (simp add: only_quota_def)

definition step_ok ::
  "evp_decrypt \<Rightarrow> r_test_responder_state \<Rightarrow> byte list \<Rightarrow> nat \<Rightarrow> r_test_io \<Rightarrow> nat
     \<Rightarrow> r_client_error + unit \<Rightarrow> r_test_responder_state \<Rightarrow> r_test_io \<Rightarrow> bool" where
  "step_ok dec st input len io cap rc st' io' \<longleftrightarrow>
     wf_rt st' \<and> rt_sequence st' = rt_sequence st + 1 \<and> io_ok (length (io_output io)) cap rc io'
   \<and> (\<not> vouched dec st input len \<longrightarrow> rc \<noteq> Inr () \<and> st' = st\<lparr>rt_sequence := rt_sequence st + 1\<rparr>
        \<and> io_output io' = io_output io \<and> ev_kind (io_event io') = R_TEST_EVENT_INPUT_REJECTED)"

lemma process_total:
  assumes "wf_rt st" and "0 < len" and "len \<le> length input" and "cap \<le> length (io_output io)"
    and "dec_length dec" and "enc_laws enc rand12"
  shows "\<exists>rc st' io'. r_test_responder_process enc dec rand12 st (Some input) len io cap = Some (rc, st', io')
    \<and> step_ok dec st input len io cap rc st' io'"
proof -
  let ?st = "st\<lparr>rt_sequence := rt_sequence st + 1\<rparr>"
  let ?io = "io\<lparr>io_event := cleared_event\<lparr>ev_sequence := rt_sequence st + 1, ev_disposition := cstr ''rejected''\<rparr>,
    io_output_len := 0, io_send_response := False\<rparr>"
  have wf: "wf_rt ?st" "length (rt_secret ?st) = 32" using assms(1) by (simp_all add: wf_rt_def)
  obtain r where r: "extract_authenticated_pdu dec ?st input len = Some r"
    and v: "\<And>tenant pdu. r = Inr (tenant, pdu) \<Longrightarrow> vouched dec st input len \<and> length (unique_id tenant) = 16"
    using extract_vouched [OF assms(3) wf(2) assms(5)] by (auto simp: vouched_sequence)
  have l: "len \<noteq> 0" using assms(2) by simp
  note u = r_test_responder_process_def l r Let_def
  have rej: "step_ok dec st input len io cap (Inl e) ?st ?io" for e
    using wf(1) by (simp add: step_ok_def io_ok_def cleared_event_def)
  show ?thesis
  proof (cases r)
    case (Inl e)
    then show ?thesis using rej by (simp add: u)
  next
    case (Inr tp)
    obtain tenant pdu where tp: "tp = (tenant, pdu)" by (cases tp)
    have vc: "vouched dec st input len" and uid: "length (unique_id tenant) = 16" using v [of tenant pdu] Inr tp by simp_all
    obtain q where q: "parse_request_pdu pdu (length pdu) cleared_request = Some q"
      and ok: "\<And>rq. q = Inr rq \<Longrightarrow> request_ok pdu rq" using parse_request_total [of pdu] by blast
    show ?thesis
    proof (cases q)
      case e: (Inl e)
      then show ?thesis using rej by (simp add: u Inr tp q)
    next
      case rq: (Inr rq)
      have types: "R_PDU_RATE_REQUEST \<noteq> R_PDU_LATENCY_REPORT" by (simp add: wire_tags)
      show ?thesis
      proof (cases "pr_pdu_type rq = R_PDU_LATENCY_REPORT")
        case True
        then obtain ev where "observe_report ?st pdu rq (io_event ?io) = Some ev"
          using observe_report_total [of rq pdu ?st "io_event ?io"] ok [OF rq] types by (auto simp: request_ok_def)
        then show ?thesis using True vc wf(1) by (simp add: u Inr tp q rq step_ok_def io_ok_def)
      next
        case False
        then have bi: "blocks_inside pdu rq" using ok [OF rq] by (auto simp: request_ok_def)
        obtain ev st1 where o: "observe_request ?st pdu rq (io_event ?io) = Some (ev, st1)"
          and s1: "\<exists>tid has. st1 = ?st\<lparr>rt_last_guard_latency_tracker_id := tid, rt_has_last_guard_latency_tracker_id := has\<rparr>"
          and w1: "wf_rt st1" using observe_request_total [OF bi, of ?st "io_event ?io"] wf(1) by auto
        have sq: "rt_sequence st1 = rt_sequence st + 1" using s1 by auto
        show ?thesis
        proof (cases "rt_scenario st1 = R_TEST_SCENARIO_DROP")
          case drop: True
          show ?thesis using False vc w1 sq drop o by (simp add: u Inr tp q rq step_ok_def io_ok_def)
        next
          case go: False
          obtain rc st2 io2 where "answer_request enc rand12 st1 tenant pdu rq (?io\<lparr>io_event := ev\<rparr>) cap = Some (rc, st2, io2)"
            "only_quota st1 st2" "io_ok (length (io_output io)) cap rc io2"
            using answer_request_total [OF w1 bi uid assms(6), of cap "?io\<lparr>io_event := ev\<rparr>"] assms(4) by auto
          then show ?thesis using False vc w1 sq go o only_quota_wf [of st1 st2] only_quota_fields(6) [of st1 st2]
            by (simp add: u Inr tp q rq step_ok_def)
        qed
      qed
    qed
  qed
qed

subsection \<open>Facts: a request of the client\<close>

definition label_short :: "r_client_req \<Rightarrow> bool" where
  "label_short req \<longleftrightarrow> (nonempty_str (rq_metrics_label req) \<longrightarrow>
     length (label_text (the (rq_metrics_label req)) (rq_metrics_label_len req)) \<le> R_TEST_RESPONDER_LABEL_CAP)"

lemma label_tlv_room: "n + 6 \<le> label_tlv_size n"
  using label_padding [of n] by linarith

lemma parse_label_part:
  assumes "length out = 257" and "length pre + length (label_part label len) \<le> 1200"
    and "nonempty_str label \<longrightarrow> length (label_text (the label) len) \<le> 256"
    and "body = pre @ label_part label len"
  shows "\<exists>l. parse_metrics_label body (length body) (length pre) out = Some (Inr l)"
proof -
  obtain o1 where o1: "wr_bytes out 0 [0] = Some o1" and l1: "length o1 = 257"
    using assms(1) by (simp add: wr_bytes_def)
  show ?thesis
  proof (cases "nonempty_str label")
    case False
    then show ?thesis using o1 by (simp add: parse_metrics_label_def assms(4) label_part_def)
  next
    case True
    define t where "t = label_text (the label) len"
    let ?n = "length t" let ?z = "label_tlv_size ?n"
    have b: "body = pre @ label_tlv_bytes t" using True by (simp add: assms(4) label_part_def t_def)
    have lz: "length (label_tlv_bytes t) = ?z" by (rule length_label_tlv_bytes)
    have sz: "?n \<le> 256" "?n + 6 \<le> ?z" "?z \<le> 1200"
      using assms(2,3) True label_tlv_room [of ?n] lz by (simp_all add: t_def label_part_def)
    let ?p = "length pre"
    have f: "take 2 (drop ?p body) = le_bytes 2 R_TLV_METRICS_LABEL"
      "take 2 (drop (?p + 2) body) = le_bytes 2 (of_nat ?z :: u16)"
      "take 2 (drop (?p + 4) body) = le_bytes 2 (of_nat ?n :: u16)"
      "take ?n (drop (?p + 6) body) = t"
      by (simp_all add: b label_tlv_bytes_def)
    have lb: "length body = ?p + ?z" by (simp add: b lz)
    have rd: "read_le16 body ?p = Some R_TLV_METRICS_LABEL" "read_le16 body (?p + 2) = Some (of_nat ?z)"
      "read_le16 body (?p + 4) = Some (of_nat ?n)" "rd_bytes body (?p + 6) ?n = Some t"
      using sz lb f by (simp_all only: read_le_eq r_le16_eq rd_bytes_Some le_word_le_bytes) (simp_all add: le_word_le_bytes)
    have un: "unat (of_nat ?z :: u16) = ?z" "unat (of_nat ?n :: u16) = ?n"
      using sz by (simp_all add: unat_of_nat_u16)
    obtain o2 where o2: "wr_bytes o1 0 t = Some o2" and l2: "length o2 = 257" using l1 sz by (simp add: wr_bytes_def)
    obtain o3 where o3: "wr_bytes o2 ?n [0] = Some o3" using l2 sz by (simp add: wr_bytes_def)
    show ?thesis using sz lb
      by (simp add: parse_metrics_label_def o1 rd un o2 o3 Let_def R_TEST_RESPONDER_LABEL_CAP_def del: add_2_eq_Suc')
  qed
qed

definition client_request :: "r_client_req \<Rightarrow> byte list \<Rightarrow> r_test_parsed_request" where
  "client_request req l = cleared_request\<lparr>pr_pdu_type := R_PDU_RATE_REQUEST,
     pr_guard_count := of_nat (length (rq_guards req)), pr_resource_count := of_nat (length (rq_resources req)),
     pr_guards := 12, pr_resources := 12 + length (rq_guards req) * 36, pr_label := l\<rparr>"

lemma parse_client_request:
  assumes "wf_req req" and "length (request_body req) \<le> 1192" and "label_short req"
  shows "\<exists>l. parse_request_pdu (request_pdu req) (length (request_pdu req)) cleared_request
    = Some (Inr (client_request req l))"
proof -
  let ?pdu = "request_pdu req" and ?body = "request_body req"
  let ?g = "length (rq_guards req)" and ?r = "length (rq_resources req)"
  let ?pre = "body_prefix (rq_resources req) (rq_guards req)"
  let ?lab = "label_part (rq_metrics_label req) (rq_metrics_label_len req)"
  note lb = length_request_body [OF assms(1)]
  have lp: "length ?pre = 4 + ?g * 36 + ?r * 28" using assms(1) length_body_prefix by (simp add: wf_req_def)
  have b: "?body = ?pre @ ?lab" by (simp add: request_body_def rate_request_body_bytes_def body_prefix_def)
  have p: "?pdu = le_bytes 2 R_PDU_RATE_REQUEST @ le_bytes 2 (of_nat (8 + length ?body) :: u16)
      @ le_bytes 4 (dedup_ttl_ms req) @ ?body" by (simp add: request_pdu_def pdu_bytes_def)
  have l: "length ?pdu = 8 + length ?body" by (rule length_request_pdu)
  have d8: "drop 8 ?pdu = ?body" by (simp add: p)
  have c: "take 2 (drop 8 ?pdu) = le_bytes 2 (of_nat ?g :: u16)" "take 2 (drop 10 ?pdu) = le_bytes 2 (of_nat ?r :: u16)"
    by (simp_all add: p b body_prefix_def)
  have rd: "read_le16 ?pdu 2 = Some (of_nat (8 + length ?body))" "read_le16 ?pdu 0 = Some R_PDU_RATE_REQUEST"
    "read_le16 ?pdu 8 = Some (of_nat ?g)" "read_le16 ?pdu 10 = Some (of_nat ?r)"
    using l lb c by (simp_all add: read_le_eq r_le16_eq le_word_le_bytes) (simp_all add: p le_word_le_bytes)
  have un: "unat (of_nat (8 + length ?body) :: u16) = 8 + length ?body" "unat (of_nat ?g :: u16) = ?g" "unat (of_nat ?r :: u16) = ?r"
    using assms(2) lb by (simp_all only: unat_of_nat_u16)
  have fit: "4 \<le> length ?body" "?g * 36 \<le> length ?body - 4" "?r * 28 \<le> length ?body - 4 - ?g * 36" using lb by simp_all
  have "length (pr_label cleared_request) = 257" by (simp add: cleared_request_def R_TEST_RESPONDER_LABEL_CAP_def)
  then obtain lab where "parse_metrics_label ?body (length ?body) (length ?pre) (pr_label cleared_request) = Some (Inr lab)"
    using parse_label_part [of "pr_label cleared_request" ?pre "rq_metrics_label req" "rq_metrics_label_len req" ?body] assms(2,3) b lb lp
    by (auto simp: label_short_def R_TEST_RESPONDER_LABEL_CAP_def)
  then have "parse_request_pdu ?pdu (length ?pdu) cleared_request = Some (Inr (client_request req lab))"
    unfolding parse_request_pdu_def wire_lens l lp using fit
    by (simp add: rd un d8 Let_def client_request_def del: of_nat_add)
  then show ?thesis by blast
qed

text \<open>The blocks the responder finds in a request are those the client has put there.\<close>

lemma client_blocks:
  assumes "wf_req req" and "length (request_body req) \<le> 1192" and "rq = client_request req l" and "pdu = request_pdu req"
  shows "blocks_inside pdu rq"
    and "response_guard_blocks scenario pdu rq (length (rq_guards req))
      = map (\<lambda>g. answer_guard scenario (r_guard_block_of g)) (rq_guards req)"
    and "map (source_resource pdu rq) [0..<length (rq_resources req)]
      = map (\<lambda>r. Some (r_resource_block_of r)) (rq_resources req)"
proof -
  let ?gs = "rq_guards req" and ?rs = "rq_resources req"
  let ?lab = "label_part (rq_metrics_label req) (rq_metrics_label_len req)"
  note lb = length_request_body [OF assms(1)]
  have lp: "length pdu = 12 + length ?gs * 36 + length ?rs * 28 + length ?lab"
    using lb by (simp add: assms(4) length_request_pdu)
  have un: "unat (pr_guard_count rq) = length ?gs" "unat (pr_resource_count rq) = length ?rs"
    using assms(2) lb by (simp_all add: assms(3) client_request_def unat_of_nat_u16)
  have off: "pr_guards rq = 12" "pr_resources rq = 12 + length ?gs * 36" by (simp_all add: assms(3) client_request_def)
  show "blocks_inside pdu rq" using lp by (simp add: blocks_inside_def un off)
  have wg: "list_all (\<lambda>b. length (gb_latency_tracker_id b) = 16) (map r_guard_block_of ?gs)"
    and wr: "list_all (\<lambda>b. length (rb_bucket_id b) = 16) (map r_resource_block_of ?rs)"
    using assms(1) wf_blocks by (simp_all add: wf_req_def list_all_iff)
  have d12: "drop 12 pdu = guards_bytes ?gs @ resources_bytes ?rs @ ?lab"
    by (simp add: assms(4) request_pdu_def pdu_bytes_def request_body_def rate_request_body_bytes_def)
  have "length (guards_bytes ?gs) = length ?gs * 36" using assms(1) length_guards_bytes by (simp add: wf_req_def)
  then have d2: "drop (12 + length ?gs * 36) pdu = resources_bytes ?rs @ ?lab"
    using arg_cong [OF d12, of "drop (length ?gs * 36)"] by (simp add: add.commute)
  have g: "guard_wire.dec_array (length ?gs) (drop 12 pdu) = map r_guard_block_of ?gs"
    unfolding d12 guards_bytes_def using guard_wire.dec_array_enc_array [OF wg] by simp
  have r: "resource_wire.dec_array (length ?rs) (drop (12 + length ?gs * 36) pdu) = map r_resource_block_of ?rs"
    unfolding d2 resources_bytes_def using resource_wire.dec_array_enc_array [OF wr] by simp
  have "source_guard pdu rq i = guard_wire.dec_at (drop 12 pdu) (i * 36)" if "i < length ?gs" for i
  proof -
    have "12 + i * 36 + 36 \<le> length pdu" using that lp by simp
    then show ?thesis using that
      by (simp add: source_guard_def un off rd_bytes_def guard_wire.dec_at_def add.commute)
  qed
  then have sg: "map (source_guard pdu rq) [0..<length ?gs] = map r_guard_block_of ?gs"
    unfolding g [symmetric] guard_wire.dec_array_def by simp
  have "response_guard_blocks scenario pdu rq (length ?gs)
      = map (answer_guard scenario) (map (source_guard pdu rq) [0..<length ?gs])"
    by (simp add: response_guard_blocks_def)
  then show "response_guard_blocks scenario pdu rq (length ?gs) = map (\<lambda>g. answer_guard scenario (r_guard_block_of g)) ?gs"
    unfolding sg by simp
  have "source_resource pdu rq i = Some (resource_wire.dec_at (drop (12 + length ?gs * 36) pdu) (i * 28))"
    if "i < length ?rs" for i
    using that by (simp add: source_resource_def un off resource_wire.dec_at_def add.commute)
  then have "map (source_resource pdu rq) [0..<length ?rs] = map Some (map r_resource_block_of ?rs)"
    unfolding r [symmetric] resource_wire.dec_array_def by simp
  then show "map (source_resource pdu rq) [0..<length ?rs] = map (\<lambda>r. Some (r_resource_block_of r)) ?rs" by simp
qed

text \<open>The size of the request leaves room for an answer to all of it.\<close>

lemma request_fits:
  assumes "wf_req req" and "start_ms req \<noteq> 0" and "aead_laws (h_evp_encrypt hk) dec" and "rand_laws hk"
    and "length out = 1200" and "same_credential c st" and "length (rt_secret st) = 32"
    and "r_build_rate_request_packet hk c req out 1200 s = Some (Inr (p, n), s')"
  shows "seal_overhead st + 8 + length (request_body req) \<le> 1200"
proof (cases "rt_auth_type st")
  case R_AUTH_COOKIE
  then have c: "auth_type c = 1" "cookie c = Some (rt_secret st)" using assms(6) by (auto simp: same_credential_def)
  then show ?thesis using request_packet_cookie [OF assms(1,2) c assms(7,5) refl, of hk s] assms(8) R_AUTH_COOKIE
    by (auto simp: seal_overhead_def split: if_splits)
next
  case R_AUTH_AES_GCM
  then have c: "auth_type c = 2" "aes_key c = Some (rt_secret st)" using assms(6) by (auto simp: same_credential_def)
  obtain rnd s1 where "rand_bytes hk 12 s = (rnd, s1)" by fastforce
  then show ?thesis using request_packet_aes [OF assms(1,2) c assms(3,4,5) refl] assms(8) R_AUTH_AES_GCM
    by (auto simp: seal_overhead_def split: if_splits)
qed

lemma sealed_readable:
  assumes "same_credential c st" and "length (rt_secret st) = 32" and "framed h" and "aead_laws enc dec"
    and "\<forall>nonce. rand12 = Some nonce \<longrightarrow> length nonce = 12" and "seal_overhead st + length pdu \<le> 1200" and "pdu \<noteq> []"
    and "sealed enc rand12 st h pdu = Some p"
  shows "readable_as dec c h pdu p"
proof (cases "rt_auth_type st")
  case R_AUTH_COOKIE
  then have "auth_type c = 1" "cookie c = Some (rt_secret st)" using assms(1) by (auto simp: same_credential_def)
  then show ?thesis using cookie_packet_readable [OF assms(3) _ _ assms(2)] assms(6,8) R_AUTH_COOKIE
    by (auto simp: sealed_def seal_overhead_def)
next
  case R_AUTH_AES_GCM
  then have c: "auth_type c = 2" "aes_key c = Some (rt_secret st)" using assms(1) by (auto simp: same_credential_def)
  obtain nonce where r: "rand12 = Some nonce" using assms(8) R_AUTH_AES_GCM by (auto simp: sealed_def split: option.splits)
  have ln: "length nonce = 12" using assms(5) r by simp
  have sz: "72 + length pdu \<le> 1200" using assms(6) R_AUTH_AES_GCM by (simp add: seal_overhead_def)
  have "aes_packet enc h (rt_secret st) nonce pdu = Some p" using assms(8) R_AUTH_AES_GCM r by (simp add: sealed_def)
  from aes_packet_readable [OF assms(3) c ln assms(4) sz assms(7) this] show ?thesis by (rule conjunct1)
qed

lemma aead_enc_laws:
  "aead_laws enc dec \<Longrightarrow> \<forall>nonce. rand12 = Some nonce \<longrightarrow> length nonce = 12 \<Longrightarrow> enc_laws enc rand12"
  unfolding aead_laws_def enc_laws_def by blast

lemma aead_dec_length: "aead_laws enc dec \<Longrightarrow> dec_length dec"
  unfolding aead_laws_def dec_length_def by blast

subsection \<open>Facts: an exchange between client and responder\<close>

definition same_view :: "r_test_responder_state \<Rightarrow> r_test_responder_state \<Rightarrow> bool" where
  "same_view a b \<longleftrightarrow> rt_scenario a = rt_scenario b \<and> rt_allow_count a = rt_allow_count b \<and> rt_quota a = rt_quota b"

lemma resource_verdict_view:
  assumes "same_view a b"
  shows "fst (resource_verdict a x) = fst (resource_verdict b x)
    \<and> same_view (snd (resource_verdict a x)) (snd (resource_verdict b x))"
  using assms
  by (auto simp: same_view_def resource_verdict_def quota_allows_def split: option.splits prod.splits)

lemma answer_resources_view:
  "same_view a b \<Longrightarrow> fst (answer_resources a xs) = fst (answer_resources b xs)"
proof (induction xs arbitrary: a b)
  case (Cons x xs)
  obtain v a1 where a: "resource_verdict a x = (v, a1)" by fastforce
  obtain w b1 where b: "resource_verdict b x = (w, b1)" by fastforce
  have e: "v = w" "same_view a1 b1" using resource_verdict_view [OF Cons.prems, of x] a b by simp_all
  show ?case using Cons.IH [OF e(2)] by (auto simp: a b e(1) split: option.splits prod.splits)
qed simp

definition answers_plainly :: "r_test_scenario \<Rightarrow> bool" where
  "answers_plainly sc \<longleftrightarrow> sc \<in> {R_TEST_SCENARIO_ALLOW, R_TEST_SCENARIO_DENY, R_TEST_SCENARIO_GUARD_PASS,
     R_TEST_SCENARIO_GUARD_DENY, R_TEST_SCENARIO_QUOTA}"

lemma plain_spoil:
  "answers_plainly (rt_scenario st) \<Longrightarrow> spoil_response st io = Some (Inr (), io\<lparr>io_send_response := True,
     io_event := (io_event io)\<lparr>ev_disposition := r_test_scenario_name (rt_scenario st)\<rparr>\<rparr>)"
  by (auto simp: answers_plainly_def spoil_response_def)

lemma plain_counts: "answers_plainly sc \<Longrightarrow> response_counts sc g r = Inr (g, r)"
  by (auto simp: answers_plainly_def response_counts_def)

lemma client_response_pdu:
  assumes "wf_req req" and "length (request_body req) \<le> 1192" and "rq = client_request req l"
    and "answers_plainly (rt_scenario st)"
    and "fst (answer_resources st (map (\<lambda>r. Some (r_resource_block_of r)) (rq_resources req))) = Some rs"
    and "gs = map (\<lambda>g. answer_guard (rt_scenario st) (r_guard_block_of g)) (rq_guards req)"
    and "resp = pdu_bytes R_PDU_RATE_RESPONSE 0 (response_body_bytes gs rs)"
    and "n = 12 + length (rq_guards req) * 36 + length (rq_resources req) * 28"
  shows "\<exists>st1. build_response_pdu st (request_pdu req) rq local_buf 1200 = Some (Inr (resp @ drop n local_buf, n), st1)
    \<and> only_quota st st1 \<and> length resp = n"
proof -
  let ?xs = "map (\<lambda>r. Some (r_resource_block_of r)) (rq_resources req)"
  note lb = length_request_body [OF assms(1)]
  note cb = client_blocks [OF assms(1-3) refl]
  have un: "unat (pr_guard_count rq) = length (rq_guards req)" "unat (pr_resource_count rq) = length (rq_resources req)"
    using assms(2) lb by (simp_all add: assms(3) client_request_def unat_of_nat_u16)
  obtain st1 where a: "answer_resources st ?xs = (Some rs, st1)" using assms(5) by (cases "answer_resources st ?xs") simp
  have vx: "list_all (\<lambda>b. length (rb_bucket_id (resource_or_filler b)) = 16) ?xs"
    using assms(1) by (simp add: list_all_iff resource_or_filler_def wf_req_def wf_blocks)
  have vg: "list_all (\<lambda>b. length (gb_latency_tracker_id b) = 16) gs"
    using assms(1) by (simp add: assms(6) list_all_iff answer_guard_def wf_req_def wf_blocks)
  have "length resp = n"
    using length_response_body_bytes [OF vg answer_resources_valid [OF a vx]] answer_resources_length [OF a]
    by (simp add: length_pdu_bytes assms(6-8))
  moreover have "build_response_pdu st (request_pdu req) rq local_buf 1200 = Some (Inr (resp @ drop n local_buf, n), st1)"
    using build_response_pdu_eq [OF cb(1) _ plain_counts [OF assms(4)] refl refl, of local_buf] lb assms(2) a
    by (simp add: un cb(2,3) assms(6-8) local_buf_def wire_lens)
  ultimately show ?thesis using answer_resources_only [OF a vx] by blast
qed

lemma sealed_Some:
  assumes "\<forall>key aad plain. enc key nonce aad plain \<noteq> None"
  shows "\<exists>p. sealed enc (Some nonce) st h pdu = Some p"
proof (cases "rt_auth_type st")
  case R_AUTH_AES_GCM
  obtain ct where "enc (rt_secret st) nonce (aes_header h @ nonce) pdu = Some ct" using assms by blast
  then show ?thesis using R_AUTH_AES_GCM by (cases ct) (simp add: sealed_def aes_packet_def)
qed (simp add: sealed_def)

lemma answer_client_request:
  assumes "wf_req req" and "seal_overhead st + 8 + length (request_body req) \<le> 1200" and "rq = client_request req l"
    and "same_credential c st" and "wf_rt st" and "answers_plainly (rt_scenario st)"
    and "aead_laws enc dec" and "length nonce = 12" and "\<forall>key aad plain. enc key nonce aad plain \<noteq> None"
    and "length (unique_id t) = 16" and "1200 \<le> length (io_output io)"
    and "fst (answer_resources st (map (\<lambda>r. Some (r_resource_block_of r)) (rq_resources req))) = Some rs"
    and "gs = map (\<lambda>g. answer_guard (rt_scenario st) (r_guard_block_of g)) (rq_guards req)"
  shows "\<exists>st' io'. answer_request enc (Some nonce) st t (request_pdu req) rq io 1200 = Some (Inr (), st', io')
    \<and> io_send_response io' \<and> readable_as dec c (response_tenant st t False)
        (pdu_bytes R_PDU_RATE_RESPONSE 0 (response_body_bytes gs rs)) (take (io_output_len io') (io_output io'))"
proof -
  let ?n = "12 + length (rq_guards req) * 36 + length (rq_resources req) * 28"
  let ?resp = "pdu_bytes R_PDU_RATE_RESPONSE 0 (response_body_bytes gs rs)"
  note lb = length_request_body [OF assms(1)]
  have small: "length (request_body req) \<le> 1192" using assms(2) by (cases "rt_auth_type st") (simp_all add: seal_overhead_def)
  obtain st1 where b: "build_response_pdu st (request_pdu req) rq local_buf 1200 = Some (Inr (?resp @ drop ?n local_buf, ?n), st1)"
    and oq: "only_quota st st1" and ln: "length ?resp = ?n"
    using client_response_pdu [OF assms(1) small assms(3,6,12,13) refl refl] by blast
  have so: "seal_overhead st1 = seal_overhead st" using only_quota_fields [OF oq] by (simp add: seal_overhead_def)
  have h: "response_tenant st1 t False = response_tenant st t False" using only_quota_fields [OF oq] by (simp add: response_tenant_def)
  have fr: "framed (response_tenant st t False)" using assms(10) by (rule framed_response_tenant)
  have sec: "length (rt_secret st1) = 32" "length (rt_secret st) = 32" using only_quota_wf [OF oq assms(5)] assms(5) by (simp_all add: wf_rt_def)
  have el: "enc_laws enc (Some nonce)" using aead_enc_laws [OF assms(7)] assms(8) by simp
  obtain p where p: "sealed enc (Some nonce) st1 (response_tenant st t False) ?resp = Some p"
    using sealed_Some [of enc nonce] assms(9) by blast
  have lp: "length p = seal_overhead st + ?n" using sealed_length [OF p fr el sec(1)] by (simp add: so ln)
  have fits: "seal_overhead st + ?n \<le> 1200" using assms(2) lb by simp
  have br: "build_authenticated_response enc (Some nonce) st1 t (?resp @ drop ?n local_buf) ?n False (io_output io) 1200
      = Some (Inr (seal_overhead st + ?n), p @ drop (seal_overhead st + ?n) (io_output io))"
    using build_authenticated_response_eq [OF sec(1) fr h [symmetric] el _ _ assms(11), of ?n "?resp @ drop ?n local_buf"] fits ln p
    by (auto simp: so)
  have cr: "same_credential c st1" using assms(4) only_quota_fields [OF oq] by (simp add: same_credential_def)
  have "readable_as dec c (response_tenant st t False) ?resp p"
    by (rule sealed_readable [OF cr sec(1) fr assms(7) _ _ _ p]) (use assms(8) fits ln so in \<open>auto simp: pdu_bytes_def\<close>)
  moreover have plain: "answers_plainly (rt_scenario st1)" "rt_scenario st1 \<noteq> R_TEST_SCENARIO_MALFORMED_REQUEST_ID"
    using assms(6) only_quota_fields(1) [OF oq] by (auto simp: answers_plainly_def)
  ultimately show ?thesis using lp
    by (simp add: answer_request_def R_MAX_PACKET_SIZE_def b br plain_spoil)
qed

lemma process_client_request:
  assumes "wf_req req" and "label_short req" and "seal_overhead st + 8 + length (request_body req) \<le> 1200"
    and "readable_as dec c h (request_pdu req) d" and "key_id h = cl_key_id c" and "length (unique_id h) = 16"
    and "same_credential c st" and "wf_rt st" and "answers_plainly (rt_scenario st)"
    and "aead_laws enc dec" and "length nonce = 12" and "\<forall>key aad plain. enc key nonce aad plain \<noteq> None"
    and "1200 \<le> length (io_output io)"
    and "fst (answer_resources st (map (\<lambda>r. Some (r_resource_block_of r)) (rq_resources req))) = Some rs"
    and "gs = map (\<lambda>g. answer_guard (rt_scenario st) (r_guard_block_of g)) (rq_guards req)"
  shows "\<exists>st' io'. r_test_responder_process enc dec (Some nonce) st (Some d) (length d) io 1200 = Some (Inr (), st', io')
    \<and> io_send_response io' \<and> readable_as dec c (response_tenant st h False)
        (pdu_bytes R_PDU_RATE_RESPONSE 0 (response_body_bytes gs rs)) (take (io_output_len io') (io_output io'))"
proof -
  let ?st = "st\<lparr>rt_sequence := rt_sequence st + 1\<rparr>"
  let ?io = "io\<lparr>io_event := cleared_event\<lparr>ev_sequence := rt_sequence st + 1, ev_disposition := cstr ''rejected''\<rparr>,
    io_output_len := 0, io_send_response := False\<rparr>"
  have small: "length (request_body req) \<le> 1192" using assms(3) by (cases "rt_auth_type st") (simp_all add: seal_overhead_def)
  have th: "r_parse_tenant_header d (length d) = Some (Inr (h, 40))"
    and xp: "r_extract_pdu_data dec c d (length d) 40 R_MAX_PACKET_SIZE = Some (Inr (request_pdu req))"
    using assms(4) by (simp_all add: readable_as_def)
  have ne: "d \<noteq> []" using th by (auto simp: r_parse_tenant_header_def)
  have cr: "same_credential c ?st" using assms(7) by (simp add: same_credential_def)
  have ex: "extract_authenticated_pdu dec ?st d (length d) = Some (Inr (h, request_pdu req))"
    using extract_as_client [OF cr th _ xp] assms(5,7) by (simp add: same_credential_def)
  obtain l where pr: "parse_request_pdu (request_pdu req) (length (request_pdu req)) cleared_request = Some (Inr (client_request req l))"
    using parse_client_request [OF assms(1) small assms(2)] by blast
  have ty: "pr_pdu_type (client_request req l) \<noteq> R_PDU_LATENCY_REPORT" by (simp add: client_request_def wire_tags)
  obtain ev st1 tid has where ob: "observe_request ?st (request_pdu req) (client_request req l) (io_event ?io) = Some (ev, st1)"
    and s1: "st1 = ?st\<lparr>rt_last_guard_latency_tracker_id := tid, rt_has_last_guard_latency_tracker_id := has\<rparr>" and w1: "wf_rt st1"
    using observe_request_total [OF client_blocks(1) [OF assms(1) small refl refl], of ?st l "io_event ?io"] assms(8)
    by (auto simp: wf_rt_sequence)
  have sc: "rt_scenario st1 = rt_scenario st" "seal_overhead st1 = seal_overhead st"
    "response_tenant st1 h False = response_tenant st h False" "same_credential c st1"
    using assms(7) by (simp_all add: s1 seal_overhead_def response_tenant_def same_credential_def)
  have "fst (answer_resources st1 (map (\<lambda>r. Some (r_resource_block_of r)) (rq_resources req))) = Some rs"
    using answer_resources_view [of st1 st] assms(14) by (simp add: same_view_def s1)
  then obtain st' io' where an: "answer_request enc (Some nonce) st1 h (request_pdu req) (client_request req l) (?io\<lparr>io_event := ev\<rparr>) 1200 = Some (Inr (), st', io')"
    "io_send_response io'" "readable_as dec c (response_tenant st h False)
        (pdu_bytes R_PDU_RATE_RESPONSE 0 (response_body_bytes gs rs)) (take (io_output_len io') (io_output io'))"
    using answer_client_request [OF assms(1) _ refl sc(4) w1 _ assms(10-12,6), of "?io\<lparr>io_event := ev\<rparr>" rs gs l] assms(3,9,13,15) sc
    by auto
  have nd: "rt_scenario st1 \<noteq> R_TEST_SCENARIO_DROP" using assms(9) sc(1) by (auto simp: answers_plainly_def)
  have "r_test_responder_process enc dec (Some nonce) st (Some d) (length d) io 1200 = Some (Inr (), st', io')"
    using ne ex pr ty ob nd an(1) by (simp add: r_test_responder_process_def Let_def)
  then show ?thesis using an(2,3) by blast
qed

lemma plain_answers:
  assumes "rt_scenario st \<in> {R_TEST_SCENARIO_ALLOW, R_TEST_SCENARIO_DENY, R_TEST_SCENARIO_GUARD_PASS, R_TEST_SCENARIO_GUARD_DENY}"
  shows "answer_resources st (map Some bs) = (Some (map (\<lambda>b. answer_resource (Some b)
    (if rt_scenario st = R_TEST_SCENARIO_DENY then refused b else 0)) bs), st)"
  using assms by (induction bs) (auto simp: resource_verdict_def)

definition scenario_allows :: "r_test_scenario \<Rightarrow> r_client_req \<Rightarrow> bool" where
  "scenario_allows sc req \<longleftrightarrow>
     (if sc = R_TEST_SCENARIO_GUARD_DENY then rq_guards req = [] else \<forall>g \<in> set (rq_guards req). 0 < threshold_ms g)
   \<and> (sc = R_TEST_SCENARIO_DENY \<longrightarrow> rq_resources req = [])"

lemma guard_answer_passes:
  "gb_current_latency (answer_guard sc (r_guard_block_of g)) < gb_latency_threshold (answer_guard sc (r_guard_block_of g))
    \<longleftrightarrow> sc \<noteq> R_TEST_SCENARIO_GUARD_DENY \<and> 0 < threshold_ms g"
  using measure_unat [of "threshold_ms g"]
  by (auto simp: answer_guard_def r_guard_block_of_def word_gt_0 word_less_def [symmetric] word_less_nat_alt unat_gt_0)

lemma refused_positive: "refused b \<noteq> 0"
  by (simp add: refused_def)

subsection \<open>Facts: quotas over a sequence of requests\<close>

fun quota_run :: "r_test_responder_state \<Rightarrow> byte list list \<Rightarrow> bool option list" where
  "quota_run st [] = []"
| "quota_run st (b # bs) = fst (quota_allows st b) # quota_run (snd (quota_allows st b)) bs"

definition quota_after :: "byte list list \<Rightarrow> r_test_responder_state \<Rightarrow> bool" where
  "quota_after xs st \<longleftrightarrow> (\<forall>b. quota_view st b = of_nat (count_list xs b))
     \<and> set (map qe_bucket_id (rt_quota st)) = set xs \<and> distinct (map qe_bucket_id (rt_quota st))"

lemma quota_after_size: "quota_after xs st \<Longrightarrow> length (rt_quota st) = card (set xs)"
  unfolding quota_after_def by (metis distinct_card length_map)

lemma quota_run_step:
  assumes "quota_after xs st" and "card (set (xs @ [b])) \<le> R_TEST_RESPONDER_QUOTA_CAP" and "length xs < 2 ^ 64"
  shows "\<exists>st'. quota_allows st b = (Some (count_list xs b < unat (rt_allow_count st)), st')
    \<and> quota_after (xs @ [b]) st' \<and> rt_allow_count st' = rt_allow_count st"
proof -
  obtain r st' where q: "quota_allows st b = (r, st')" by fastforce
  have "r \<noteq> None"
  proof
    assume "r = None"
    then have "b \<notin> set (map qe_bucket_id (rt_quota st))" "R_TEST_RESPONDER_QUOTA_CAP \<le> length (rt_quota st)"
      using q quota_allows_full by blast+
    then have "b \<notin> set xs" "R_TEST_RESPONDER_QUOTA_CAP \<le> card (set xs)"
      using assms(1) quota_after_size [OF assms(1)] by (simp_all add: quota_after_def)
    then show False using assms(2) by simp
  qed
  then obtain ok where ok: "r = Some ok" by blast
  note v = quota_allows_view [OF q [unfolded ok]]
  have c: "count_list xs b < 2 ^ 64" using assms(3) count_le_length [of xs b] by simp
  have "ok \<longleftrightarrow> count_list xs b < unat (rt_allow_count st)"
    using v assms(1) c by (simp add: quota_after_def word_less_nat_alt unat_of_nat take_bit_nat_eq_self)
  moreover have "quota_after (xs @ [b]) st'"
    using v assms(1) by (auto simp: quota_after_def)
  moreover have "rt_allow_count st' = rt_allow_count st"
    using v by (metis r_test_responder_state.select_convs(7) r_test_responder_state.surjective r_test_responder_state.update_convs(11))
  ultimately show ?thesis using q ok by blast
qed

lemma quota_run_eq:
  assumes "quota_after xs st" and "card (set (xs @ bs)) \<le> R_TEST_RESPONDER_QUOTA_CAP" and "length (xs @ bs) < 2 ^ 64"
  shows "quota_run st bs = map (\<lambda>i. Some (count_list (take i (xs @ bs)) ((xs @ bs) ! i) < unat (rt_allow_count st)))
    [length xs..<length xs + length bs]"
  using assms
proof (induction bs arbitrary: xs st)
  case (Cons b bs)
  have "card (set (xs @ [b])) \<le> card (set (xs @ b # bs))" by (rule card_mono) auto
  then obtain st' where s: "quota_allows st b = (Some (count_list xs b < unat (rt_allow_count st)), st')"
    "quota_after (xs @ [b]) st'" "rt_allow_count st' = rt_allow_count st"
    using quota_run_step [OF Cons.prems(1), of b] Cons.prems(2,3) by auto
  have "quota_run st' bs = map (\<lambda>i. Some (count_list (take i (xs @ b # bs)) ((xs @ b # bs) ! i) < unat (rt_allow_count st)))
    [Suc (length xs)..<Suc (length xs + length bs)]"
    using Cons.IH [OF s(2)] Cons.prems(2,3) by (simp add: s(3))
  then show ?case by (simp add: s(1) upt_conv_Cons del: upt_Suc)
qed simp

subsection \<open>Properties\<close>

definition sample_rt :: "r_test_scenario \<Rightarrow> r_test_responder_state" where
  "sample_rt sc = \<lparr>rt_scenario = sc, rt_auth_type = R_AUTH_COOKIE, rt_tenant_key_id = 77, rt_secret = replicate 32 5,
     rt_server_id = 4, rt_steering_keep_port = True, rt_allow_count = 1, rt_sequence = 0,
     rt_last_guard_latency_tracker_id = replicate 16 0, rt_has_last_guard_latency_tracker_id = False, rt_quota = []\<rparr>"

definition sample_io :: r_test_io where
  "sample_io = \<lparr>io_output = replicate 1200 0, io_output_len = 0, io_send_response = False, io_event = cleared_event\<rparr>"

lemma sample_rt_ok: "wf_rt (sample_rt sc)" "same_credential sample_client (sample_rt sc)"
  by (simp_all add: wf_rt_def sample_rt_def same_credential_def sample_client_def)



subsection \<open>Facts: the life of a responder\<close>

definition fresh_rt ::
  "r_test_scenario \<Rightarrow> r_auth_type \<Rightarrow> u64 \<Rightarrow> byte list \<Rightarrow> u64 \<Rightarrow> bool \<Rightarrow> u64 \<Rightarrow> r_test_responder_state" where
  "fresh_rt sc ty kid secret sid keep n = \<lparr>rt_scenario = sc, rt_auth_type = ty, rt_tenant_key_id = kid, rt_secret = secret,
     rt_server_id = sid, rt_steering_keep_port = keep, rt_allow_count = n, rt_sequence = 0,
     rt_last_guard_latency_tracker_id = replicate 16 0, rt_has_last_guard_latency_tracker_id = False, rt_quota = []\<rparr>"

text \<open>What a credential decodes to does not depend on the contents of fresh memory.\<close>

abbreviation zeroed :: allocs where
  "zeroed \<equiv> \<lambda>k. Some (\<lambda>i. 0)"

lemma init_zeroed:
  assumes "allocated al"
  shows "r_test_responder_init al = r_test_responder_init zeroed"
proof -
  have z: "allocated zeroed" by (simp add: allocated_def)
  have d: "r_decode_api_key_bech32_with_quotas al (Some e) 32 \<lparr>out_type = ty, out_key_id = k, out_secret = replicate 32 0, out_secret_len = n\<rparr>
      = r_decode_api_key_bech32_with_quotas zeroed (Some e) 32 \<lparr>out_type = ty, out_key_id = k, out_secret = replicate 32 0, out_secret_len = n\<rparr>" for e ty k n
    by (simp add: r_decode_api_key_eq assms z split: option.splits)
  have "r_client_parse_auth_key al key = r_client_parse_auth_key zeroed key" for key
    by (simp add: r_client_parse_auth_key_def d split: option.splits)
  then show ?thesis by (simp add: fun_eq_iff r_test_responder_init_def)
qed

definition fixture_info :: "r_auth_type \<Rightarrow> u64 \<Rightarrow> byte list \<Rightarrow> r_auth_key_info" where
  "fixture_info ty kid secret = \<lparr>ai_quotas = \<lparr>format_version = 1, rate_buckets_max = 65536, latency_services_max = 1024,
       metrics_labels_max = 4096, latency_buffer_size_max = 64, dedup_ttl_ms_max = 300, rate_window_size_ms_max = 0xffffffff\<rparr>,
     ai_type = ty, ai_key_id = kid, ai_secret = secret, ai_secret_len = 32\<rparr>"

lemma parse_cookie_fixture:
  "r_client_parse_auth_key zeroed (Some R_TEST_RESPONDER_COOKIE_KEY) = Some (Inr (fixture_info R_AUTH_COOKIE 2 (replicate 32 2)))"
  by code_simp

lemma parse_aes_fixture:
  "r_client_parse_auth_key zeroed (Some R_TEST_RESPONDER_AES_KEY) = Some (Inr (fixture_info R_AUTH_AES_GCM 3 (replicate 32 3)))"
  by code_simp

lemma init_fixture:
  assumes "r_client_parse_auth_key zeroed (Some key) = Some (Inr (fixture_info ty kid secret))" and "length secret = 32"
    and "allocated al" and "sid \<noteq> 0"
  shows "r_test_responder_init al sc (Some key) sid keep n = Some (Inr (fresh_rt sc ty kid secret sid keep n))"
  unfolding init_zeroed [OF assms(3)] using assms(1,2,4)
  by (simp add: r_test_responder_init_def fresh_rt_def fixture_info_def rd_bytes_def)

lemma init_wf:
  assumes "r_test_responder_init al sc key sid keep n = Some (Inr st)"
  shows "wf_rt st"
proof -
  have k: "key \<noteq> None" "sid \<noteq> 0" using assms by (auto simp: r_test_responder_init_def split: if_splits)
  obtain rc where rc: "r_client_parse_auth_key al key = Some rc"
    using assms k by (cases "r_client_parse_auth_key al key") (simp_all add: r_test_responder_init_def)
  obtain info where i: "rc = Inr info" using assms k rc by (cases rc) (simp_all add: r_test_responder_init_def)
  have "ai_secret_len info = 32" using assms k rc i by (simp add: r_test_responder_init_def split: if_splits)
  then obtain secret where "rd_bytes (ai_secret info) 0 32 = Some secret"
    and "st = fresh_rt sc (ai_type info) (ai_key_id info) secret sid keep n"
    using assms k rc i by (cases "rd_bytes (ai_secret info) 0 32") (simp_all add: r_test_responder_init_def fresh_rt_def)
  then show ?thesis using rd_bytes_len by (auto simp: wf_rt_def fresh_rt_def)
qed

text \<open>The states of a responder: what initialisation gives, and what processing any datagram makes of it.\<close>

inductive rt_reach :: "evp_encrypt \<Rightarrow> evp_decrypt \<Rightarrow> r_test_responder_state \<Rightarrow> bool"
  for enc dec where
  start: "r_test_responder_init al sc key sid keep n = Some (Inr st) \<Longrightarrow> rt_reach enc dec st"
| process: "rt_reach enc dec st \<Longrightarrow> len \<le> length input \<Longrightarrow> cap \<le> length (io_output io) \<Longrightarrow>
    (\<forall>nonce. rand12 = Some nonce \<longrightarrow> length nonce = 12) \<Longrightarrow>
    r_test_responder_process enc dec rand12 st (Some input) len io cap = Some (rc, st', io') \<Longrightarrow> rt_reach enc dec st'"

lemma rt_reach_wf: "rt_reach enc dec st \<Longrightarrow> aead_laws enc dec \<Longrightarrow> wf_rt st"
proof (induction rule: rt_reach.induct)
  case (start al sc key sid keep n st)
  then show ?case using init_wf by blast
next
  case (process st len input cap io rand12 rc st' io')
  show ?case
  proof (cases "len = 0")
    case True
    then show ?thesis using process by (simp add: r_test_responder_process_def)
  next
    case False
    have el: "enc_laws enc rand12" "dec_length dec"
      using aead_enc_laws aead_dec_length process.hyps(4) process.prems by blast+
    have "0 < len" using False by simp
    from process_total [OF process.IH [OF process.prems] this process.hyps(2,3) el(2,1)] process.hyps(5)
    show ?thesis by (auto simp: step_ok_def)
  qed
qed


lemma sample_rt_reach:
  "\<exists>st. rt_reach (h_evp_encrypt sample_hooks) (h_evp_decrypt sample_hooks) st \<and> rt_auth_type st = R_AUTH_COOKIE
    \<and> rt_tenant_key_id st = 2"
proof -
  have "r_test_responder_init zeroed R_TEST_SCENARIO_ALLOW (Some R_TEST_RESPONDER_COOKIE_KEY) 1 True 1
    = Some (Inr (fresh_rt R_TEST_SCENARIO_ALLOW R_AUTH_COOKIE 2 (replicate 32 2) 1 True 1))"
    by (rule init_fixture [OF parse_cookie_fixture]) (simp_all add: allocated_def)
  from rt_reach.start [OF this] show ?thesis by (force simp: fresh_rt_def)
qed


text \<open>
  (C37) The two synthetic credentials built into the responder are valid credentials: from either of
  them, with any scenario and any server identity but zero, initialisation yields a responder with the
  cookie, respectively the AES key, that the text encodes, an empty quota table and sequence number zero.
\<close>

theorem fixture_credentials_start:
  assumes "allocated al" and "sid \<noteq> 0"
  shows "r_test_responder_init al sc (Some R_TEST_RESPONDER_COOKIE_KEY) sid keep n
      = Some (Inr (fresh_rt sc R_AUTH_COOKIE 2 (replicate 32 2) sid keep n))
    \<and> r_test_responder_init al sc (Some R_TEST_RESPONDER_AES_KEY) sid keep n
      = Some (Inr (fresh_rt sc R_AUTH_AES_GCM 3 (replicate 32 3) sid keep n))"
  using init_fixture [OF parse_cookie_fixture _ assms] init_fixture [OF parse_aes_fixture _ assms] by simp

theorem fixture_credentials_start_witness:
  "\<exists>st. r_test_responder_init zeroed R_TEST_SCENARIO_ALLOW (Some R_TEST_RESPONDER_AES_KEY) 1 True 1 = Some (Inr st)
    \<and> rt_tenant_key_id st = 3 \<and> rt_secret st = replicate 32 3"
  using fixture_credentials_start [of zeroed 1 R_TEST_SCENARIO_ALLOW True 1] by (simp add: allocated_def fresh_rt_def)



lemma scenario_name_inj: "r_test_scenario_name a = r_test_scenario_name b \<Longrightarrow> a = b"
  by (cases a; cases b) (simp_all add: cstr_def)

lemma scenario_name_no_nul: "c_string (r_test_scenario_name sc) = r_test_scenario_name sc"
  by (cases sc) (simp_all add: cstr_def c_string_def)

lemma find_scenario:
  "find (\<lambda>sc. strcmp_eq s (r_test_scenario_name sc)) r_test_scenarios = Some sc \<longleftrightarrow> c_string s = r_test_scenario_name sc"
proof
  assume "find (\<lambda>sc. strcmp_eq s (r_test_scenario_name sc)) r_test_scenarios = Some sc"
  then show "c_string s = r_test_scenario_name sc"
    by (auto simp: find_Some_iff strcmp_eq_def scenario_name_no_nul)
next
  assume e: "c_string s = r_test_scenario_name sc"
  then obtain sc' where f: "find (\<lambda>sc. strcmp_eq s (r_test_scenario_name sc)) r_test_scenarios = Some sc'"
    using set_r_test_scenarios [of sc] by (cases "find (\<lambda>sc. strcmp_eq s (r_test_scenario_name sc)) r_test_scenarios")
      (auto simp: find_None_iff strcmp_eq_def scenario_name_no_nul)
  then have "r_test_scenario_name sc' = r_test_scenario_name sc"
    using e by (auto simp: find_Some_iff strcmp_eq_def scenario_name_no_nul)
  then show "find (\<lambda>sc. strcmp_eq s (r_test_scenario_name sc)) r_test_scenarios = Some sc"
    using f scenario_name_inj by blast
qed

text \<open>
  (C38) Scenario names round-trip: a text parses to a scenario exactly when it is the name that
  \<open>r_test_scenario_name\<close> prints for it, so printing and parsing are inverse to each other; every other
  text, and a null pointer, is a configuration error.
\<close>

theorem scenario_names_roundtrip:
  "(r_test_scenario_parse (Some s) = Inr sc \<longleftrightarrow> c_string s = r_test_scenario_name sc)
   \<and> (r_test_scenario_parse (Some s) = Inl e \<longleftrightarrow> e = RCLIENT_ERR_CONFIG \<and> c_string s \<notin> range r_test_scenario_name)
   \<and> r_test_scenario_parse None = Inl RCLIENT_ERR_CONFIG"
proof (cases "find (\<lambda>sc. strcmp_eq s (r_test_scenario_name sc)) r_test_scenarios")
  case None
  then have "c_string s \<noteq> r_test_scenario_name sc" for sc using find_scenario [of s sc] by simp
  then show ?thesis using None by (auto simp: r_test_scenario_parse_def)
next
  case (Some sc')
  then have "c_string s = r_test_scenario_name sc'" using find_scenario by blast
  then show ?thesis using Some scenario_name_inj by (auto simp: r_test_scenario_parse_def)
qed

end
