(* ===== verification/Spec2Isabelle.thy ===== *)
theory Spec2Isabelle
  imports Workflow Steering Responder
begin

text \<open>
  A verification development of rl-c-client, the C client library of the RateLimitly service.

  \<^bold>\<open>The program.\<close>  An application asks whether it may use some resources and whether some latency
  guards hold.  The client (\<^verbatim>\<open>src/r_client.c\<close>) encodes the question as one UDP packet
  (\<^verbatim>\<open>src/r_protocol.c\<close>), authenticates it with the credential of its tenant (\<^verbatim>\<open>src/r_crypto.c\<close>), sends it to
  every server that DNS discovery has found, replays it in rounds according to a policy
  (\<^verbatim>\<open>src/r_policy.c\<close>), collects the answers, selects the authoritative one and hands it to a completion
  callback.  The admission workflow (\<^verbatim>\<open>src/r_client_workflow.c\<close>) wraps one resource and one guard into a
  check with a durable decision and at most one latency report.  The steering module
  (\<^verbatim>\<open>src/r_client_steering.c\<close>) looks for a bindable source port.  The test responder
  (\<^verbatim>\<open>tools/r_test_responder_protocol.c\<close>) is the other end of the wire for tests of embedding programs.
  The client does no I/O of its own: sockets, clock, resolver, random numbers and allocation are hooks
  of the host.

  \<^bold>\<open>Conventions.\<close>  A C function is a function of the state it reads into an option: \<open>None\<close> is undefined
  behaviour (an access outside an object, a use after free, a division by zero), so a theorem that a
  result exists is a theorem of memory safety.  Status codes are values of a sum type.  Fixed-width
  integers are machine words, lengths of objects are natural numbers, and a conversion back to a
  word is written where the code has it.  Definitions carry the names of the C functions.

  \<^item> \<open>Prelude\<close>: machine types, status codes, checked reads and writes of byte buffers, C strings,
    little-endian words, and the generic facts about them.
  \<^item> \<open>Codec\<close>: the locale \<open>codec\<close> of a fixed-width encoding, lifted once to arrays and to loops that
    write arrays; \<open>Protocol\<close> interprets it for the blocks and for the header of the wire format.
  \<^item> \<open>Protocol\<close> (\<^verbatim>\<open>src/r_protocol.c\<close>, \<^verbatim>\<open>src/r_protocol.h\<close>): headers, request, report and response
    bodies.  The builders write a reference encoding exactly or fail on stated conditions; the
    parsers never leave the datagram and invert the encoding.
  \<^item> \<open>Crypto\<close> (\<^verbatim>\<open>src/r_crypto.c\<close>): the Bech32 credential decoder (memory-safe on any string, inverse to
    an encoder, refuses every single-character typo), content identities, AES-GCM packets.
  \<^item> \<open>Policy\<close> (\<^verbatim>\<open>src/r_policy.c\<close> and the policy part of \<^verbatim>\<open>src/r_client.c\<close>): round schedules and the
    deduplication time, without wrap-around.
  \<^item> \<open>Client_State\<close>, \<open>Packet\<close>, \<open>Dns\<close>, \<open>Request\<close>, \<open>Lifecycle\<close> (\<^verbatim>\<open>src/r_client.c\<close>, \<^verbatim>\<open>include/r_client.h\<close>,
    \<^verbatim>\<open>include/r_client_io.h\<close>): the state \<open>'w sys\<close> holds the client, the heap objects of the discovery
    as stores, the world of the host and a ghost trace of sends and callbacks; \<open>'w hooks\<close> is the
    record of host functions.  \<open>Packet\<close> has the authenticated packets byte by byte and shows that only
    the holder of the credential is heard; \<open>Dns\<close> shows that a refresh neither leaks nor reuses a
    freed object under any order of resolver callbacks; \<open>Lifecycle\<close> shows that creation yields a
    client that satisfies the invariant and that destruction leaves nothing behind.
  \<^item> \<open>Request_Inv\<close>: the invariant \<open>sys_ok\<close> of a client with requests in flight and its preservation by
    every operation, under \<open>host_ok\<close>; progress to a callback; refinement of the abstract policy
    machine \<open>policy_step\<close>; one callback per request, after the request has left the client.
  \<^item> \<open>World_Frame\<close>: the locales \<open>world_inv\<close> and \<open>world_inv_cb\<close>: a property of the world that the hooks
    keep is kept by every operation of the client.
  \<^item> \<open>Workflow\<close> (\<^verbatim>\<open>src/r_client_workflow.c\<close>): storages of admission checks in the world of the client,
    the locale \<open>admission_app\<close> of an application that uses them correctly, the relations \<open>adm_step\<close> and
    \<open>adm_reach\<close> of a running check; a check is decided by its deadline, the decision reflects the
    response, and the latency is reported at most once.
  \<^item> \<open>Steering\<close> (\<^verbatim>\<open>src/r_client_steering.c\<close>): the scan ends, tries every port of the dynamic range at
    most once and finds a bindable port if there is one.
  \<^item> \<open>Responder\<close> (\<^verbatim>\<open>tools/r_test_responder_protocol.c\<close>, \<^verbatim>\<open>tools/r_test_responder.h\<close>): the state of the
    responder with its quota table, the parser of requests, the responses of every scenario.  It is the
    only theory in which both ends of the wire meet: a request of the client is accepted, and the answer
    is authentic for the client and carries the verdict of the scenario.  The relation \<open>rt_reach\<close> has
    the states after any sequence of datagrams, forged ones included; processing is total in each of
    them.  The quota table is related to a count per bucket (\<open>quota_view\<close>).

  \<^bold>\<open>Hypotheses.\<close>  Code outside the repository enters as parameters.  The laws the properties name are
  those of AES-GCM as OpenSSL documents it (\<open>aead_laws\<close>, \<open>enc_laws\<close>, \<open>dec_length\<close>: lengths, and decryption
  inverts encryption), of a random generator that returns as many bytes as asked for (\<open>rand_laws\<close>),
  of a resolver that calls back at most once per lookup (part of \<open>host_ok\<close>), and of an application that
  follows the documented rules.  Each property with hypotheses has a witness that instantiates them.

  \<^bold>\<open>Bounds.\<close>  Loops of the code are structural recursions on the objects they walk, or functions with a
  termination proof; no definition has fuel.  Packets have at most 1200 bytes, so counts in a packet
  fit their 16-bit fields, which the lemmas derive from the size test of the code.

  \<^bold>\<open>Not modelled.\<close>  \<^verbatim>\<open>src/r_client_runtime.c\<close> and \<^verbatim>\<open>src/r_win32_udp.h\<close> implement the hooks with sockets,
  \<open>getaddrinfo\<close>, \<open>res_query\<close>, \<open>poll\<close> and the environment: what they do is what the operating system
  does, and the client sees of it only the contract of the hooks.  \<^verbatim>\<open>tools/r_test_responder.c\<close> is the
  process around the responder (options, sockets, signals, JSON lines).  \<^verbatim>\<open>bin/perf_client.c\<close> with its
  headers is a threaded load generator; \<^verbatim>\<open>examples/\<close> is glue to third-party event loops; the remaining
  scripts build and package the library.  Wiping secrets before they are freed and the timing of
  comparisons have no counterpart in the model.
\<close>

end
